(* ===== verification/Prelude.thy ===== *)
theory Prelude
  imports "HOL-Library.Word" "HOL-Library.List_Lexorder"
begin

text \<open>
  Shared vocabulary of the development.

  \<^item> Machine integers: \<open>uint8_t\<close>, \<open>uint16_t\<close>, \<open>uint32_t\<close>, \<open>uint64_t\<close> are words of their
    width, so \<open>+\<close>, \<open>-\<close> and \<open>*\<close> wrap as in the source; \<open>int64_t\<close> and \<open>off_t\<close> are \<open>64 word\<close>
    read by \<^const>\<open>sint\<close>.
  \<^item> A \<open>std::string\<close> that holds arbitrary data is a list of bytes. Lists of bytes are ordered
    lexicographically with unsigned bytes, which is the order \<open>std::map\<close> uses on strings.
  \<^item> \<open>utils::Status\<close> (\<open>src/utils/Status.hpp\<close>): a call returns \<open>Inl code\<close> for every non-OK
    status and \<open>Inr value\<close> for OK together with the output parameters. The diagnostic message
    of a status is not modelled.
  \<^item> \<open>chk\<close> is the early return \<open>if (!status.ok()) return status;\<close>.
\<close>

unbundle bit_operations_syntax

type_synonym u8 = "8 word"
type_synonym u16 = "16 word"
type_synonym u32 = "32 word"
type_synonym u64 = "64 word"
type_synonym i64 = "64 word"
type_synonym bytes = "u8 list"

text \<open>Facts the components use for evaluation of results, of decoders and of word bounds.\<close>

named_theorems result_simps
named_theorems codec_simps
named_theorems nowrap

section \<open>Status\<close>

datatype err =
    kNotFound | kEndOfDirectory | kAlreadyExists | kNotDirectory | kIsDirectory | kNotEmpty
  | kInvalidArgument | kMalformed | kNotSupported | kOperationNotSupported | kNotTty | kNoData
  | kIOError | kUnavailable | kOutcomeUnknown | kBusy | kWouldBlock | kInterrupted | kNoLocks
  | kNotPermitted | kPermission | kNoMemory | kNameTooLong | kRange | kInternal

type_synonym 'a res = "err + 'a"

datatype errno =
    ENOENT | EEXIST | ENOTDIR | EISDIR | EINVAL | ENOSYS | EOPNOTSUPP | ENOTTY | ENODATA
  | EBUSY | EAGAIN | ENOLCK | EINTR | ENOTEMPTY | EPERM | EACCES | ENOMEM | ENAMETOOLONG
  | ERANGE | EIO

text \<open>\<open>Status::ToErrno\<close>; \<^const>\<open>None\<close> stands for \<open>0\<close>, the errno of an OK status.\<close>

fun err_errno :: "err \<Rightarrow> errno" where
  "err_errno kNotFound = ENOENT"
| "err_errno kAlreadyExists = EEXIST"
| "err_errno kNotDirectory = ENOTDIR"
| "err_errno kIsDirectory = EISDIR"
| "err_errno kInvalidArgument = EINVAL"
| "err_errno kNotSupported = ENOSYS"
| "err_errno kOperationNotSupported = EOPNOTSUPP"
| "err_errno kNotTty = ENOTTY"
| "err_errno kNoData = ENODATA"
| "err_errno kBusy = EBUSY"
| "err_errno kWouldBlock = EAGAIN"
| "err_errno kNoLocks = ENOLCK"
| "err_errno kInterrupted = EINTR"
| "err_errno kNotEmpty = ENOTEMPTY"
| "err_errno kNotPermitted = EPERM"
| "err_errno kPermission = EACCES"
| "err_errno kNoMemory = ENOMEM"
| "err_errno kNameTooLong = ENAMETOOLONG"
| "err_errno kRange = ERANGE"
| "err_errno _ = EIO"

definition ToErrno :: "'a res \<Rightarrow> errno option" where
  "ToErrno r = (case r of Inl e \<Rightarrow> Some (err_errno e) | Inr _ \<Rightarrow> None)"

definition ok :: "'a res \<Rightarrow> bool" where
  "ok r \<longleftrightarrow> (case r of Inl _ \<Rightarrow> False | Inr _ \<Rightarrow> True)"

definition chk :: "'a res \<Rightarrow> ('a \<Rightarrow> 'b res) \<Rightarrow> 'b res" where
  "chk r f = (case r of Inl e \<Rightarrow> Inl e | Inr x \<Rightarrow> f x)"

text \<open>A check without a value: \<open>Inl e\<close> when the condition of an early return holds.\<close>

definition reject :: "bool \<Rightarrow> err \<Rightarrow> unit res" where
  "reject c e = (if c then Inl e else Inr ())"

lemma ok_simps [simp]: "\<not> ok (Inl e)" "ok (Inr x)"
  by (simp_all add: ok_def)

lemma chk_simps [simp, result_simps]: "chk (Inl e) f = Inl e" "chk (Inr x) f = f x"
  by (simp_all add: chk_def)

lemma chk_Inr_iff [result_simps]: "chk r f = Inr y \<longleftrightarrow> (\<exists>x. r = Inr x \<and> f x = Inr y)"
  by (cases r) auto

lemma chk_Inl_iff [result_simps]:
  "chk r f = Inl e \<longleftrightarrow> r = Inl e \<or> (\<exists>x. r = Inr x \<and> f x = Inl e)"
  by (cases r) auto

lemma chk_cong [fundef_cong]:
  "\<lbrakk> r = r'; \<And>x. r' = Inr x \<Longrightarrow> f x = g x \<rbrakk> \<Longrightarrow> chk r f = chk r' g"
  by (cases r') auto

lemma reject_simps [simp, result_simps]:
  "reject c e = Inr u \<longleftrightarrow> \<not> c" "reject c e = Inl e' \<longleftrightarrow> c \<and> e' = e"
  by (auto simp: reject_def)

lemma chk_reject [simp]: "chk (reject c e) f = (if c then Inl e else f ())"
  by (simp add: reject_def)

lemma ToErrno_None_iff: "ToErrno r = None \<longleftrightarrow> ok r"
  by (cases r) (auto simp: ToErrno_def ok_def)

section \<open>Bytes and literals\<close>

text \<open>The bytes of a character literal of the source.\<close>

definition ascii :: "string \<Rightarrow> bytes" where
  "ascii = map of_char"

lemma ascii_simps [simp]:
  "ascii [] = []" "ascii (c # cs) = of_char c # ascii cs"
  by (simp_all add: ascii_def)

lemma ascii_append [simp]: "ascii (xs @ ys) = ascii xs @ ascii ys"
  by (simp add: ascii_def)

lemma length_ascii [simp]: "length (ascii s) = length s"
  by (simp add: ascii_def)

section \<open>Word arithmetic without wrap-around\<close>

lemma unat_plus_le:
  fixes a b c :: "'a::len word"
  assumes "b \<le> c - a" and "a \<le> c"
  shows "unat (a + b) = unat a + unat b"
proof -
  have "unat b \<le> unat c - unat a"
    using assms by (simp add: word_le_nat_alt unat_sub)
  then have "unat a + unat b \<le> unat c"
    using assms(2) by (simp add: word_le_nat_alt)
  then have "unat a + unat b < 2 ^ LENGTH('a)"
    using unsigned_less [where 'b='a and 'a=nat, of c] by linarith
  then show ?thesis
    by (simp add: unat_word_ariths)
qed

lemma plus_le_word:
  fixes a b c :: "'a::len word"
  assumes "b \<le> c - a" and "a \<le> c"
  shows "a + b \<le> c"
proof -
  have "unat b \<le> unat c - unat a"
    using assms by (simp add: word_le_nat_alt unat_sub)
  then show ?thesis
    using assms by (simp add: word_le_nat_alt unat_plus_le)
qed

lemma less_plus_word:
  fixes a b c :: "'a::len word"
  assumes "b \<le> c - a" and "a \<le> c" and "b \<noteq> 0"
  shows "a < a + b"
proof -
  have "0 < unat b"
    using assms(3) by (simp add: unat_gt_0)
  then show ?thesis
    using unat_plus_le [OF assms(1,2)] by (simp add: word_less_nat_alt)
qed

lemmas nowrap_rules [nowrap] = unat_plus_le plus_le_word less_plus_word

end
