(* ===== verification/Common.thy ===== *)
theory Common
  imports Prelude
begin

text \<open>
  Flag words, POSIX mode bits and the attribute block of an inode:
  \<open>metadata/types/Common.hpp\<close> and the \<open>SwordFsAttr\<close> half of \<open>metadata/types/Inode.{hpp,cpp}\<close>.
  The scoped enumerations \<open>SetAttrField\<close>, \<open>RenameFlag\<close> and \<open>InodeFlag\<close> are bit sets in the
  source and stay \<open>u32\<close> words here. The wall clock \<open>::time(nullptr)\<close> is the argument \<open>now\<close>.
\<close>

named_theorems flag_defs

section \<open>Limits and flag words (Common.hpp)\<close>

definition kMaxXAttrNameLength :: nat where [flag_defs]: "kMaxXAttrNameLength = 255"
definition kMaxXAttrValueSize :: nat where [flag_defs]: "kMaxXAttrValueSize = 64 * 1024"
definition kMaxXAttrListSize :: nat where [flag_defs]: "kMaxXAttrListSize = 64 * 1024"

text \<open>\<open>enum class SetAttrField\<close>\<close>

definition fMode :: u32 where [flag_defs]: "fMode = 1"
definition fUid :: u32 where [flag_defs]: "fUid = 2"
definition fGid :: u32 where [flag_defs]: "fGid = 4"
definition fSize :: u32 where [flag_defs]: "fSize = 8"
definition fAtime :: u32 where [flag_defs]: "fAtime = 16"
definition fMtime :: u32 where [flag_defs]: "fMtime = 32"
definition fAtimeNow :: u32 where [flag_defs]: "fAtimeNow = 128"
definition fMtimeNow :: u32 where [flag_defs]: "fMtimeNow = 256"
definition fCtime :: u32 where [flag_defs]: "fCtime = 1024"
definition fKillSuidGid :: u32 where [flag_defs]: "fKillSuidGid = 2048"

definition HasSetAttrField :: "u32 \<Rightarrow> u32 \<Rightarrow> bool" where
  "HasSetAttrField fields field \<longleftrightarrow> fields AND field \<noteq> 0"

text \<open>\<open>enum class RenameFlag\<close>\<close>

definition kNoReplace :: u32 where [flag_defs]: "kNoReplace = 1"
definition kExchange :: u32 where [flag_defs]: "kExchange = 2"

definition HasRenameFlag :: "u32 \<Rightarrow> u32 \<Rightarrow> bool" where
  "HasRenameFlag flags flag \<longleftrightarrow> flags AND flag \<noteq> 0"

text \<open>\<open>enum class InodeFlag\<close>\<close>

definition kImmutable :: u32 where [flag_defs]: "kImmutable = 1"
definition kAppendOnly :: u32 where [flag_defs]: "kAppendOnly = 2"

definition kSupportedInodeFlagBits :: u32 where [flag_defs]:
  "kSupportedInodeFlagBits = kImmutable OR kAppendOnly"

definition HasInodeFlag :: "u32 \<Rightarrow> u32 \<Rightarrow> bool" where
  "HasInodeFlag flags flag \<longleftrightarrow> flags AND flag \<noteq> 0"

definition HasOnlySupportedInodeFlags :: "u32 \<Rightarrow> bool" where
  "HasOnlySupportedInodeFlags flags \<longleftrightarrow> flags AND NOT kSupportedInodeFlagBits = 0"

datatype XAttrSetMode = kUpsert | kCreateOnly | kReplaceOnly

section \<open>POSIX mode bits (sys/stat.h)\<close>

definition S_IFMT :: u32 where [flag_defs]: "S_IFMT = 0xF000"
definition S_IFSOCK :: u32 where [flag_defs]: "S_IFSOCK = 0xC000"
definition S_IFLNK :: u32 where [flag_defs]: "S_IFLNK = 0xA000"
definition S_IFREG :: u32 where [flag_defs]: "S_IFREG = 0x8000"
definition S_IFBLK :: u32 where [flag_defs]: "S_IFBLK = 0x6000"
definition S_IFDIR :: u32 where [flag_defs]: "S_IFDIR = 0x4000"
definition S_IFCHR :: u32 where [flag_defs]: "S_IFCHR = 0x2000"
definition S_IFIFO :: u32 where [flag_defs]: "S_IFIFO = 0x1000"
definition S_ISUID :: u32 where [flag_defs]: "S_ISUID = 0x800"
definition S_ISGID :: u32 where [flag_defs]: "S_ISGID = 0x400"
definition S_ISVTX :: u32 where [flag_defs]: "S_ISVTX = 0x200"
definition S_IXGRP :: u32 where [flag_defs]: "S_IXGRP = 0x8"

definition S_ISDIR :: "u32 \<Rightarrow> bool" where "S_ISDIR m \<longleftrightarrow> m AND S_IFMT = S_IFDIR"
definition S_ISREG :: "u32 \<Rightarrow> bool" where "S_ISREG m \<longleftrightarrow> m AND S_IFMT = S_IFREG"
definition S_ISLNK :: "u32 \<Rightarrow> bool" where "S_ISLNK m \<longleftrightarrow> m AND S_IFMT = S_IFLNK"

section \<open>SwordFsAttr\<close>

record SwordFsAttr =
  a_dev :: u64
  a_ino :: u64
  a_mode :: u32
  a_nlink :: u64
  a_uid :: u64
  a_gid :: u64
  a_rdev :: u64
  a_size :: u64
  a_blksize :: u64
  a_blocks :: u64
  a_atime :: i64
  a_atime_nsec :: i64
  a_mtime :: i64
  a_mtime_nsec :: i64
  a_ctime :: i64
  a_ctime_nsec :: i64
  a_btime :: i64
  a_btime_nsec :: i64
  a_inode_flags :: u32

text \<open>\<open>SwordFsAttr() = default\<close>\<close>

definition attr0 :: SwordFsAttr where
  "attr0 = \<lparr> a_dev = 0, a_ino = 0, a_mode = 0, a_nlink = 0, a_uid = 0, a_gid = 0, a_rdev = 0,
     a_size = 0, a_blksize = 0, a_blocks = 0, a_atime = 0, a_atime_nsec = 0, a_mtime = 0,
     a_mtime_nsec = 0, a_ctime = 0, a_ctime_nsec = 0, a_btime = 0, a_btime_nsec = 0,
     a_inode_flags = 0 \<rparr>"

text \<open>\<open>SwordFsAttr(ino, mode, uid, gid)\<close>\<close>

definition new_attr :: "i64 \<Rightarrow> u64 \<Rightarrow> u32 \<Rightarrow> u64 \<Rightarrow> u64 \<Rightarrow> SwordFsAttr" where
  "new_attr now ino mode uid gid = attr0 \<lparr> a_ino := ino, a_mode := mode, a_uid := uid, a_gid := gid,
     a_nlink := (if S_ISDIR mode then 2 else 1),
     a_size := (if S_ISDIR mode then 4096 else 0),
     a_blksize := 4096,
     a_atime := now, a_mtime := now, a_ctime := now, a_btime := now \<rparr>"

definition ClearSetidForKillPriv :: "SwordFsAttr \<Rightarrow> SwordFsAttr" where
  "ClearSetidForKillPriv a =
     (let a = a \<lparr> a_mode := a_mode a AND NOT S_ISUID \<rparr>
      in if a_mode a AND S_IXGRP \<noteq> 0 then a \<lparr> a_mode := a_mode a AND NOT S_ISGID \<rparr> else a)"

definition ProjectedPosixBlocks :: "SwordFsAttr \<Rightarrow> u64" where
  "ProjectedPosixBlocks a =
     (if S_ISREG (a_mode a) \<and> a_blocks a = 0 \<and> a_size a \<noteq> 0 then 1 else a_blocks a)"

text \<open>\<open>struct stat\<close> with the field widths of the Linux x86-64 ABI.\<close>

record posix_stat =
  st_dev :: u64
  st_ino :: u64
  st_mode :: u32
  st_nlink :: u64
  st_uid :: u32
  st_gid :: u32
  st_rdev :: u64
  st_size :: i64
  st_blksize :: i64
  st_blocks :: i64
  st_atime :: i64
  st_atime_nsec :: i64
  st_mtime :: i64
  st_mtime_nsec :: i64
  st_ctime :: i64
  st_ctime_nsec :: i64

definition ToPosixStat :: "SwordFsAttr \<Rightarrow> posix_stat" where
  "ToPosixStat a = \<lparr> st_dev = a_dev a, st_ino = a_ino a, st_mode = a_mode a, st_nlink = a_nlink a,
     st_uid = ucast (a_uid a), st_gid = ucast (a_gid a), st_rdev = a_rdev a, st_size = a_size a,
     st_blksize = a_blksize a, st_blocks = ProjectedPosixBlocks a,
     st_atime = a_atime a, st_atime_nsec = a_atime_nsec a,
     st_mtime = a_mtime a, st_mtime_nsec = a_mtime_nsec a,
     st_ctime = a_ctime a, st_ctime_nsec = a_ctime_nsec a \<rparr>"

definition FromPosixStat :: "posix_stat \<Rightarrow> SwordFsAttr" where
  "FromPosixStat st = attr0 \<lparr> a_dev := st_dev st, a_ino := st_ino st, a_mode := st_mode st,
     a_nlink := st_nlink st, a_uid := ucast (st_uid st), a_gid := ucast (st_gid st),
     a_rdev := st_rdev st, a_size := st_size st, a_blksize := st_blksize st,
     a_blocks := st_blocks st,
     a_atime := st_atime st, a_atime_nsec := st_atime_nsec st,
     a_mtime := st_mtime st, a_mtime_nsec := st_mtime_nsec st,
     a_ctime := st_ctime st, a_ctime_nsec := st_ctime_nsec st \<rparr>"

text \<open>\<open>major\<close> and \<open>minor\<close> of \<open>sys/sysmacros.h\<close>.\<close>

definition dev_major :: "u64 \<Rightarrow> u32" where
  "dev_major d = ucast ((drop_bit 8 (d AND 0x00000000000fff00)) OR (drop_bit 32 (d AND 0xfffff00000000000)))"

definition dev_minor :: "u64 \<Rightarrow> u32" where
  "dev_minor d = ucast ((d AND 0xff) OR (drop_bit 12 (d AND 0x00000ffffff00000)))"

record posix_statx =
  stx_mask :: u32
  stx_blksize :: u32
  stx_nlink :: u32
  stx_uid :: u32
  stx_gid :: u32
  stx_mode :: u16
  stx_ino :: u64
  stx_size :: u64
  stx_blocks :: u64
  stx_atime :: "i64 \<times> u32"
  stx_btime :: "i64 \<times> u32"
  stx_ctime :: "i64 \<times> u32"
  stx_mtime :: "i64 \<times> u32"
  stx_rdev :: "u32 \<times> u32"
  stx_dev :: "u32 \<times> u32"
  stx_attributes :: u64
  stx_attributes_mask :: u64

definition STATX_ATTR_IMMUTABLE :: u64 where [flag_defs]: "STATX_ATTR_IMMUTABLE = 0x10"
definition STATX_ATTR_APPEND :: u64 where [flag_defs]: "STATX_ATTR_APPEND = 0x20"

definition ToStatX :: "SwordFsAttr \<Rightarrow> posix_statx" where
  "ToStatX a = \<lparr> stx_mask = 0x7ff OR 0x800, stx_blksize = ucast (a_blksize a),
     stx_nlink = ucast (a_nlink a), stx_uid = ucast (a_uid a), stx_gid = ucast (a_gid a),
     stx_mode = ucast (a_mode a), stx_ino = a_ino a, stx_size = a_size a,
     stx_blocks = ProjectedPosixBlocks a,
     stx_atime = (a_atime a, ucast (a_atime_nsec a)),
     stx_btime = (a_btime a, ucast (a_btime_nsec a)),
     stx_ctime = (a_ctime a, ucast (a_ctime_nsec a)),
     stx_mtime = (a_mtime a, ucast (a_mtime_nsec a)),
     stx_rdev = (dev_major (a_rdev a), dev_minor (a_rdev a)),
     stx_dev = (dev_major (a_dev a), dev_minor (a_dev a)),
     stx_attributes =
       (let at = (if HasInodeFlag (a_inode_flags a) kImmutable then 0 OR STATX_ATTR_IMMUTABLE else 0)
        in if HasInodeFlag (a_inode_flags a) kAppendOnly then at OR STATX_ATTR_APPEND else at),
     stx_attributes_mask = STATX_ATTR_IMMUTABLE OR STATX_ATTR_APPEND \<rparr>"

section \<open>Lemmas\<close>

lemma HasOnlySupported_or:
  "HasOnlySupportedInodeFlags (a OR b) \<longleftrightarrow>
     HasOnlySupportedInodeFlags a \<and> HasOnlySupportedInodeFlags b"
  by (auto simp: HasOnlySupportedInodeFlags_def bit_eq_iff bit_simps)

lemma HasSetAttrField_or [simp]:
  "HasSetAttrField (a OR b) f \<longleftrightarrow> HasSetAttrField a f \<or> HasSetAttrField b f"
  by (auto simp: HasSetAttrField_def bit_eq_iff bit_simps)

lemma kSupported_value: "kSupportedInodeFlagBits = 3"
  by (simp add: flag_defs)

lemma clear_setid_mode:
  "a_mode (ClearSetidForKillPriv a) =
     a_mode a AND NOT S_ISUID AND (if a_mode a AND S_IXGRP = 0 then NOT 0 else NOT S_ISGID)"
proof -
  have "a_mode a AND NOT S_ISUID AND S_IXGRP = a_mode a AND S_IXGRP"
    by (simp add: and.assoc S_ISUID_def S_IXGRP_def)
  then show ?thesis
    by (simp add: ClearSetidForKillPriv_def Let_def and.assoc)
qed

end
