(* ===== verification/BufCodec.thy ===== *)
theory BufCodec
  imports Common
begin

text \<open>
  \<open>metadata/types/BufCodec.{hpp,cpp}\<close>: the encoder and decoder of every persisted metadata record.

  The byte-level work is done by \<open>folly::io::Appender\<close> and \<open>folly::io::Cursor\<close>, which are not part of
  this repository. They are the record \<open>folly_io\<close>, an argument of every definition; the locale
  \<open>folly_cursor\<close> states what their documentation promises and \<open>le_io\<close> is a concrete implementation
  that satisfies it. How far a cursor has moved after a failed read is left open by the laws.

  A \<open>BufEncoder\<close> is the bytes appended so far, so an encoder function returns what it appends. A
  \<open>BufDecoder\<close> is the unread input and the sticky \<open>failed_\<close> flag; a decoder function returns its
  output parameter (\<^const>\<open>None\<close> when the C++ method returns \<open>false\<close>) and the new decoder. The locale
  \<open>wire_codec\<close> is the contract all pairs of encoder and decoder share.
\<close>

section \<open>The folly interface\<close>

record folly_io =
  writeLE32 :: "u32 \<Rightarrow> bytes"
  writeLE64 :: "u64 \<Rightarrow> bytes"
  tryReadLE32 :: "bytes \<Rightarrow> u32 option \<times> bytes"
  tryReadLE64 :: "bytes \<Rightarrow> u64 option \<times> bytes"
  canAdvance :: "bytes \<Rightarrow> u64 \<Rightarrow> bool"
  readFixedString :: "bytes \<Rightarrow> u64 \<Rightarrow> bytes \<times> bytes"
  isAtEnd :: "bytes \<Rightarrow> bool"

record decoder =
  rest :: bytes
  failed :: bool

type_synonym 'a reader = "decoder \<Rightarrow> 'a option \<times> decoder"

text \<open>\<open>a && b\<close> on decoder calls: the second call is made only when the first returned \<open>true\<close>.\<close>

definition and_then :: "'a reader \<Rightarrow> ('a \<Rightarrow> 'b reader) \<Rightarrow> 'b reader" where
  "and_then p f d = (case p d of (None, d') \<Rightarrow> (None, d') | (Some v, d') \<Rightarrow> f v d')"

definition done_with :: "'a \<Rightarrow> 'a reader" where
  "done_with v d = (Some v, d)"

text \<open>\<open>impl_->failed_ = true; return false;\<close>\<close>

definition mark_failed :: "'a reader" where
  "mark_failed d = (None, d \<lparr> failed := True \<rparr>)"

text \<open>A read whose Boolean result is ignored: the output variable keeps its old value on failure.\<close>

definition into :: "'a \<Rightarrow> 'a option \<times> decoder \<Rightarrow> 'a \<times> decoder" where
  "into old r = (case r of (Some v, d) \<Rightarrow> (v, d) | (None, d) \<Rightarrow> (old, d))"

section \<open>BufEncoder\<close>

definition kMagic :: bytes where "kMagic = ascii ''SWFSMETA''"
definition kSchemaVersion :: u32 where "kSchemaVersion = 1"

datatype RecordType = rtVolume | rtInode | rtEntry | rtReclaim | rtPendingDelete | rtCowTypedCleanup

fun record_type_code :: "RecordType \<Rightarrow> u32" where
  "record_type_code rtVolume = 1"
| "record_type_code rtInode = 2"
| "record_type_code rtEntry = 3"
| "record_type_code rtReclaim = 5"
| "record_type_code rtPendingDelete = 6"
| "record_type_code rtCowTypedCleanup = 8"

definition enc_U32 :: "folly_io \<Rightarrow> u32 \<Rightarrow> bytes" where "enc_U32 F v = writeLE32 F v"
definition enc_U64 :: "folly_io \<Rightarrow> u64 \<Rightarrow> bytes" where "enc_U64 F v = writeLE64 F v"

definition enc_String :: "folly_io \<Rightarrow> bytes \<Rightarrow> bytes" where
  "enc_String F s = enc_U64 F (of_nat (length s)) @ s"

definition enc_Attr :: "folly_io \<Rightarrow> SwordFsAttr \<Rightarrow> bytes" where
  "enc_Attr F a = enc_U64 F (a_dev a) @ enc_U64 F (a_ino a) @ enc_U32 F (a_mode a) @ enc_U64 F (a_nlink a)
     @ enc_U64 F (a_uid a) @ enc_U64 F (a_gid a) @ enc_U64 F (a_rdev a) @ enc_U64 F (a_size a)
     @ enc_U64 F (a_blksize a) @ enc_U64 F (a_blocks a)
     @ enc_U64 F (a_atime a) @ enc_U64 F (a_atime_nsec a) @ enc_U64 F (a_mtime a) @ enc_U64 F (a_mtime_nsec a)
     @ enc_U64 F (a_ctime a) @ enc_U64 F (a_ctime_nsec a) @ enc_U64 F (a_btime a) @ enc_U64 F (a_btime_nsec a)
     @ enc_U32 F (a_inode_flags a)"

definition enc_Header :: "folly_io \<Rightarrow> RecordType \<Rightarrow> bytes" where
  "enc_Header F t = enc_String F kMagic @ enc_U32 F kSchemaVersion @ enc_U32 F (record_type_code t)"

section \<open>BufDecoder\<close>

definition new_decoder :: "bytes \<Rightarrow> decoder" where
  "new_decoder data = \<lparr> rest = data, failed = False \<rparr>"

definition dec_U32 :: "folly_io \<Rightarrow> u32 reader" where
  "dec_U32 F d = (case tryReadLE32 F (rest d) of
      (Some v, r) \<Rightarrow> (Some v, d \<lparr> rest := r \<rparr>)
    | (None, r) \<Rightarrow> (None, d \<lparr> rest := r, failed := True \<rparr>))"

definition dec_U64 :: "folly_io \<Rightarrow> u64 reader" where
  "dec_U64 F d = (case tryReadLE64 F (rest d) of
      (Some v, r) \<Rightarrow> (Some v, d \<lparr> rest := r \<rparr>)
    | (None, r) \<Rightarrow> (None, d \<lparr> rest := r, failed := True \<rparr>))"

definition dec_String :: "folly_io \<Rightarrow> bytes reader" where
  "dec_String F d = (case dec_U64 F d of
      (None, d') \<Rightarrow> mark_failed d'
    | (Some len, d') \<Rightarrow>
        if \<not> canAdvance F (rest d') len then mark_failed d'
        else (case readFixedString F (rest d') len of (s, r) \<Rightarrow> (Some s, d' \<lparr> rest := r \<rparr>)))"

definition nsec_bad :: "i64 \<Rightarrow> bool" where
  "nsec_bad n \<longleftrightarrow> sint n < 0 \<or> sint n \<ge> 1000000000"

definition dec_Attr :: "folly_io \<Rightarrow> SwordFsAttr reader" where
  "dec_Attr F =
    and_then (dec_U64 F) (\<lambda>dev. and_then (dec_U64 F) (\<lambda>ino. and_then (dec_U32 F) (\<lambda>mode.
    and_then (dec_U64 F) (\<lambda>nlink. and_then (dec_U64 F) (\<lambda>uid. and_then (dec_U64 F) (\<lambda>gid.
    and_then (dec_U64 F) (\<lambda>rdev. and_then (dec_U64 F) (\<lambda>size. and_then (dec_U64 F) (\<lambda>blksize.
    and_then (dec_U64 F) (\<lambda>blocks. and_then (dec_U64 F) (\<lambda>atime. and_then (dec_U64 F) (\<lambda>atime_nsec.
    and_then (dec_U64 F) (\<lambda>mtime. and_then (dec_U64 F) (\<lambda>mtime_nsec. and_then (dec_U64 F) (\<lambda>ctime.
    and_then (dec_U64 F) (\<lambda>ctime_nsec. and_then (dec_U64 F) (\<lambda>btime. and_then (dec_U64 F) (\<lambda>btime_nsec d.
      (case dec_U32 F d of
        (None, d') \<Rightarrow> mark_failed d'
      | (Some inode_flags, d') \<Rightarrow>
          if inode_flags AND NOT kSupportedInodeFlagBits \<noteq> 0 then mark_failed d'
          else if nsec_bad atime_nsec \<or> nsec_bad mtime_nsec \<or> nsec_bad ctime_nsec \<or> nsec_bad btime_nsec
          then mark_failed d'
          else (Some \<lparr> a_dev = dev, a_ino = ino, a_mode = mode, a_nlink = nlink, a_uid = uid, a_gid = gid,
                 a_rdev = rdev, a_size = size, a_blksize = blksize, a_blocks = blocks,
                 a_atime = atime, a_atime_nsec = atime_nsec, a_mtime = mtime, a_mtime_nsec = mtime_nsec,
                 a_ctime = ctime, a_ctime_nsec = ctime_nsec, a_btime = btime, a_btime_nsec = btime_nsec,
                 a_inode_flags = inode_flags \<rparr>, d'))))))))))))))))))))"

definition dec_Header :: "folly_io \<Rightarrow> RecordType \<Rightarrow> unit reader" where
  "dec_Header F expected_type d = (case dec_String F d of
      (None, d) \<Rightarrow> mark_failed d
    | (Some magic, d) \<Rightarrow>
        if magic \<noteq> kMagic then mark_failed d
        else (case dec_U32 F d of
            (None, d) \<Rightarrow> mark_failed d
          | (Some version, d) \<Rightarrow>
              if version \<noteq> kSchemaVersion then mark_failed d
              else (case dec_U32 F d of
                  (None, d) \<Rightarrow> mark_failed d
                | (Some type, d) \<Rightarrow>
                    if type \<noteq> record_type_code expected_type then mark_failed d
                    else (Some (), d))))"

definition Done :: "folly_io \<Rightarrow> decoder \<Rightarrow> bool" where
  "Done F d \<longleftrightarrow> \<not> failed d \<and> isAtEnd F (rest d)"

section \<open>A little-endian implementation of the folly interface\<close>

fun le_bytes :: "nat \<Rightarrow> 'a::len word \<Rightarrow> bytes" where
  "le_bytes 0 v = []"
| "le_bytes (Suc n) v = ucast v # le_bytes n (drop_bit 8 v)"

definition le_value :: "bytes \<Rightarrow> 'a::len word" where
  "le_value bs = foldr (\<lambda>b acc. ucast b OR push_bit 8 acc) bs 0"

definition le_io :: folly_io where
  "le_io = \<lparr>
     writeLE32 = le_bytes 4, writeLE64 = le_bytes 8,
     tryReadLE32 = (\<lambda>bs. if length bs < 4 then (None, []) else (Some (le_value (take 4 bs)), drop 4 bs)),
     tryReadLE64 = (\<lambda>bs. if length bs < 8 then (None, []) else (Some (le_value (take 8 bs)), drop 8 bs)),
     canAdvance = (\<lambda>bs n. unat n \<le> length bs),
     readFixedString = (\<lambda>bs n. (take (unat n) bs, drop (unat n) bs)),
     isAtEnd = (\<lambda>bs. bs = []) \<rparr>"

section \<open>Contracts\<close>

locale wire_codec =
  fixes enc :: "'a \<Rightarrow> bytes"
    and dec :: "'a reader"
    and valid :: "'a \<Rightarrow> bool"
  assumes dec_enc: "valid v \<Longrightarrow> dec \<lparr> rest = enc v @ r, failed = b \<rparr> = (Some v, \<lparr> rest = r, failed = b \<rparr>)"
    and dec_Some: "dec d = (Some v, d') \<Longrightarrow> valid v \<and> rest d = enc v @ rest d' \<and> failed d' = failed d"
    and dec_None: "dec d = (None, d') \<Longrightarrow> failed d'"
begin

lemma prefix_free:
  assumes "valid v" "valid w" and eq: "enc v @ r = enc w @ s"
  shows "v = w \<and> r = s"
proof -
  have "(Some v, \<lparr> rest = r, failed = False \<rparr>) = (Some w, \<lparr> rest = s, failed = False \<rparr>)"
    using dec_enc [OF assms(1), of r False] dec_enc [OF assms(2), of s False] eq by metis
  then show ?thesis
    by simp
qed

lemma dec_not_failed:
  assumes "dec d = (x, d')" "\<not> failed d'"
  obtains v where "x = Some v" "valid v" "rest d = enc v @ rest d'" "\<not> failed d"
proof (cases x)
  case None
  then show ?thesis
    using assms dec_None [of d d'] by simp
next
  case (Some v)
  then show ?thesis
    using assms dec_Some [of d v d'] that [of v] by simp
qed

lemma into_not_failed:
  assumes "into old (dec d) = (v, d')" "\<not> failed d'"
  shows "valid v \<and> rest d = enc v @ rest d' \<and> \<not> failed d"
proof -
  obtain x d1 where x: "dec d = (x, d1)"
    by (cases "dec d")
  then have "d1 = d'" "x \<noteq> None \<Longrightarrow> x = Some v"
    using assms(1) by (auto simp: into_def split: option.splits)
  with x assms(2) show ?thesis
    by (auto elim: dec_not_failed)
qed

lemma dec_Some_iff:
  "dec d = (Some v, d') \<longleftrightarrow> valid v \<and> rest d = enc v @ rest d' \<and> failed d' = failed d"
proof
  assume R: "valid v \<and> rest d = enc v @ rest d' \<and> failed d' = failed d"
  then have "d = \<lparr> rest = enc v @ rest d', failed = failed d' \<rparr>"
    by simp
  moreover have "dec \<lparr> rest = enc v @ rest d', failed = failed d' \<rparr> = (Some v, \<lparr> rest = rest d', failed = failed d' \<rparr>)"
    using R dec_enc by blast
  ultimately show "dec d = (Some v, d')"
    by simp
qed (rule dec_Some)

lemma into_enc:
  "valid v \<Longrightarrow> into old (dec \<lparr> rest = enc v @ r, failed = b \<rparr>) = (v, \<lparr> rest = r, failed = b \<rparr>)"
  by (simp add: into_def dec_enc)

lemma into_enc_end:
  "valid v \<Longrightarrow> into old (dec \<lparr> rest = enc v, failed = b \<rparr>) = (v, \<lparr> rest = [], failed = b \<rparr>)"
  using into_enc [of v old "[]" b] by simp

end

lemma and_then_Some_iff:
  "and_then p f d = (Some v, d') \<longleftrightarrow> (\<exists>x d1. p d = (Some x, d1) \<and> f x d1 = (Some v, d'))"
  by (auto simp: and_then_def split: prod.splits option.splits)

lemma and_then_None_iff:
  "and_then p f d = (None, d') \<longleftrightarrow> p d = (None, d') \<or> (\<exists>x d1. p d = (Some x, d1) \<and> f x d1 = (None, d'))"
  by (auto simp: and_then_def split: prod.splits option.splits)

lemma mark_failed_simps [simp]:
  "mark_failed d = (None, d') \<longleftrightarrow> d' = d \<lparr> failed := True \<rparr>" "mark_failed d \<noteq> (Some v, d')"
  by (auto simp: mark_failed_def)

locale folly_cursor =
  fixes F :: folly_io
  assumes read32: "tryReadLE32 F (writeLE32 F v @ r) = (Some v, r)"
    and read64: "tryReadLE64 F (writeLE64 F w @ r) = (Some w, r)"
    and read32_Some: "tryReadLE32 F bs = (Some v, r) \<Longrightarrow> bs = writeLE32 F v @ r"
    and read64_Some: "tryReadLE64 F bs = (Some w, r) \<Longrightarrow> bs = writeLE64 F w @ r"
    and write32_length: "length (writeLE32 F v) = 4"
    and write64_length: "length (writeLE64 F w) = 8"
    and canAdvance_iff: "canAdvance F bs n \<longleftrightarrow> unat n \<le> length bs"
    and readFixed: "unat n \<le> length bs \<Longrightarrow> readFixedString F bs n = (take (unat n) bs, drop (unat n) bs)"
    and atEnd_iff: "isAtEnd F bs \<longleftrightarrow> bs = []"

begin

lemma U32_codec: "wire_codec (enc_U32 F) (dec_U32 F) (\<lambda>_. True)"
proof
  fix v r b
  show "dec_U32 F \<lparr> rest = enc_U32 F v @ r, failed = b \<rparr> = (Some v, \<lparr> rest = r, failed = b \<rparr>)"
    by (simp add: dec_U32_def enc_U32_def read32)
qed (auto simp: dec_U32_def enc_U32_def split: prod.splits option.splits dest: read32_Some)

lemma U64_codec: "wire_codec (enc_U64 F) (dec_U64 F) (\<lambda>_. True)"
proof
  fix v r b
  show "dec_U64 F \<lparr> rest = enc_U64 F v @ r, failed = b \<rparr> = (Some v, \<lparr> rest = r, failed = b \<rparr>)"
    by (simp add: dec_U64_def enc_U64_def read64)
qed (auto simp: dec_U64_def enc_U64_def split: prod.splits option.splits dest: read64_Some)

end

sublocale folly_cursor \<subseteq> u32: wire_codec "enc_U32 F" "dec_U32 F" "\<lambda>_. True"
  by (rule U32_codec)

sublocale folly_cursor \<subseteq> u64: wire_codec "enc_U64 F" "dec_U64 F" "\<lambda>_. True"
  by (rule U64_codec)

text \<open>A C++ string has fewer than \<open>2^64\<close> bytes.\<close>

definition string_ok :: "bytes \<Rightarrow> bool" where
  "string_ok s \<longleftrightarrow> length s < 2 ^ 64"

text \<open>What the decoder demands of an attribute block.\<close>

definition attr_ok :: "SwordFsAttr \<Rightarrow> bool" where
  "attr_ok a \<longleftrightarrow> HasOnlySupportedInodeFlags (a_inode_flags a) \<and> \<not> nsec_bad (a_atime_nsec a)
     \<and> \<not> nsec_bad (a_mtime_nsec a) \<and> \<not> nsec_bad (a_ctime_nsec a) \<and> \<not> nsec_bad (a_btime_nsec a)"

lemma unat_of_nat_length: "string_ok s \<Longrightarrow> unat (of_nat (length s) :: u64) = length s"
  by (simp add: string_ok_def unat_of_nat take_bit_eq_mod)

context folly_cursor
begin

lemma String_codec: "wire_codec (enc_String F) (dec_String F) string_ok"
proof
  fix v r b
  assume v: "string_ok v"
  show "dec_String F \<lparr> rest = enc_String F v @ r, failed = b \<rparr> = (Some v, \<lparr> rest = r, failed = b \<rparr>)"
    by (simp add: dec_String_def enc_String_def u64.dec_enc canAdvance_iff readFixed unat_of_nat_length [OF v])
next
  fix d v d'
  assume *: "dec_String F d = (Some v, d')"
  then obtain n d1 where d1: "rest d = enc_U64 F n @ rest d1" "failed d1 = failed d"
    and n: "unat n \<le> length (rest d1)" and v: "v = take (unat n) (rest d1)"
    and d': "d' = d1 \<lparr> rest := drop (unat n) (rest d1) \<rparr>"
    by (auto simp: dec_String_def canAdvance_iff readFixed u64.dec_Some_iff
        split: prod.splits option.splits if_splits)
  have len: "length v = unat n"
    using n v by simp
  then have "of_nat (length v) = n"
    by simp
  moreover have "string_ok v"
    using unsigned_less [where 'b=64 and 'a=nat, of n] by (simp add: string_ok_def len)
  ultimately show "string_ok v \<and> rest d = enc_String F v @ rest d' \<and> failed d' = failed d"
    using d1 v d' by (simp add: enc_String_def)
next
  fix d d'
  assume "dec_String F d = (None, d')"
  then show "failed d'"
    by (auto simp: dec_String_def split: prod.splits option.splits if_splits)
qed

lemma Attr_tail_iff:
  "(case dec_U32 F d of
      (None, d') \<Rightarrow> mark_failed d'
    | (Some fl, d') \<Rightarrow>
        if fl AND NOT kSupportedInodeFlagBits \<noteq> 0 then mark_failed d'
        else if bad then mark_failed d' else (Some (mk fl), d')) = (Some v, d')
   \<longleftrightarrow> (\<exists>fl. dec_U32 F d = (Some fl, d') \<and> HasOnlySupportedInodeFlags fl \<and> \<not> bad \<and> v = mk fl)"
  by (auto simp: HasOnlySupportedInodeFlags_def split: prod.splits option.splits if_splits)

lemma Attr_codec: "wire_codec (enc_Attr F) (dec_Attr F) attr_ok"
proof
  fix v r b
  assume "attr_ok v"
  then show "dec_Attr F \<lparr> rest = enc_Attr F v @ r, failed = b \<rparr> = (Some v, \<lparr> rest = r, failed = b \<rparr>)"
    by (simp add: dec_Attr_def enc_Attr_def and_then_def u64.dec_enc u32.dec_enc attr_ok_def
        HasOnlySupportedInodeFlags_def)
next
  fix d v d'
  assume "dec_Attr F d = (Some v, d')"
  then show "attr_ok v \<and> rest d = enc_Attr F v @ rest d' \<and> failed d' = failed d"
    unfolding dec_Attr_def and_then_Some_iff Attr_tail_iff u64.dec_Some_iff u32.dec_Some_iff
    by (elim exE conjE) (simp add: enc_Attr_def attr_ok_def)
next
  fix d d'
  assume "dec_Attr F d = (None, d')"
  then show "failed d'"
    unfolding dec_Attr_def and_then_None_iff
    by (elim disjE exE conjE u64.dec_None) (auto simp: u64.dec_None u32.dec_None split: prod.splits option.splits if_splits)
qed

lemma Header_codec: "wire_codec (\<lambda>_. enc_Header F t) (dec_Header F t) (\<lambda>_. True)"
proof
  fix v r b
  have m: "string_ok kMagic"
    by (simp add: string_ok_def kMagic_def)
  show "dec_Header F t \<lparr> rest = enc_Header F t @ r, failed = b \<rparr> = (Some v, \<lparr> rest = r, failed = b \<rparr>)"
    using wire_codec.dec_enc [OF String_codec m]
    by (simp add: dec_Header_def enc_Header_def u32.dec_enc)
next
  fix d v d'
  assume "dec_Header F t d = (Some v, d')"
  then show "True \<and> rest d = enc_Header F t @ rest d' \<and> failed d' = failed d"
    by (auto simp: dec_Header_def enc_Header_def u32.dec_Some_iff wire_codec.dec_Some_iff [OF String_codec]
        split: prod.splits option.splits if_splits)
next
  fix d d'
  assume "dec_Header F t d = (None, d')"
  then show "failed d'"
    by (auto simp: dec_Header_def split: prod.splits option.splits if_splits)
qed

end

sublocale folly_cursor \<subseteq> str: wire_codec "enc_String F" "dec_String F" string_ok
  by (rule String_codec)

sublocale folly_cursor \<subseteq> attr: wire_codec "enc_Attr F" "dec_Attr F" attr_ok
  by (rule Attr_codec)

sublocale folly_cursor \<subseteq> hdr: wire_codec "\<lambda>_. enc_Header F t" "dec_Header F t" "\<lambda>_. True" for t
  by (rule Header_codec)

section \<open>The little-endian implementation satisfies the contract\<close>

lemma le_value_simps [simp]:
  "le_value [] = 0" "le_value (b # bs) = ucast b OR push_bit 8 (le_value bs)"
  by (simp_all add: le_value_def)

lemma length_le_bytes [simp]: "length (le_bytes n v) = n"
  by (induction n v rule: le_bytes.induct) simp_all

lemma le_value_bytes: "(le_value (le_bytes n v) :: 'a word) = take_bit (8 * n) (v :: 'a::len word)"
proof (induction n v rule: le_bytes.induct)
  case (2 n v)
  have "ucast (ucast v :: u8) OR push_bit 8 (take_bit (8 * n) (drop_bit 8 v)) = take_bit (8 * Suc n) v"
    by (rule bit_word_eqI) (auto simp: bit_simps)
  then show ?case
    using 2 by simp
qed simp

lemma le_value_bound: "take_bit (8 * length bs) (le_value bs :: 'a::len word) = le_value bs"
proof (induction bs)
  case (Cons b bs)
  have "take_bit (8 * Suc (length bs)) (ucast b OR push_bit 8 (take_bit (8 * length bs) x)) =
      (ucast b OR push_bit 8 (take_bit (8 * length bs) x) :: 'a word)" for x
    by (rule bit_word_eqI) (auto simp: bit_simps dest: bit_imp_le_length)
  then show ?case
    using Cons by (metis le_value_simps(2) length_Cons)
qed simp

lemma le_bytes_value:
  "8 * length bs \<le> LENGTH('a::len) \<Longrightarrow> le_bytes (length bs) (le_value bs :: 'a word) = bs"
proof (induction bs)
  case (Cons b bs)
  let ?x = "le_value bs :: 'a word"
  have "ucast (ucast b OR push_bit 8 ?x) = b"
    using Cons.prems by (intro bit_word_eqI) (auto simp: bit_simps)
  moreover have "drop_bit 8 (ucast b OR push_bit 8 (take_bit (8 * length bs) ?x)) = take_bit (8 * length bs) ?x"
    using Cons.prems by (intro bit_word_eqI) (auto simp: bit_simps dest: bit_imp_le_length)
  ultimately show ?case
    using Cons by (simp add: le_value_bound)
qed simp

lemma le_bytes_take:
  "\<lbrakk> n \<le> length bs; 8 * n \<le> LENGTH('a::len) \<rbrakk> \<Longrightarrow>
     le_bytes n (le_value (take n bs) :: 'a word) @ drop n bs = bs"
  using le_bytes_value [of "take n bs", where 'a='a] by (simp add: min_absorb2)

interpretation le: folly_cursor le_io
proof
  show "tryReadLE32 le_io (writeLE32 le_io v @ r) = (Some v, r)" for v r
    by (simp add: le_io_def le_value_bytes take_bit_word_eq_self)
  show "tryReadLE64 le_io (writeLE64 le_io w @ r) = (Some w, r)" for w r
    by (simp add: le_io_def le_value_bytes take_bit_word_eq_self)
  show "bs = writeLE32 le_io v @ r" if "tryReadLE32 le_io bs = (Some v, r)" for bs v r
    using that le_bytes_take [of 4 bs, where 'a=32] by (auto simp: le_io_def split: if_splits)
  show "bs = writeLE64 le_io w @ r" if "tryReadLE64 le_io bs = (Some w, r)" for bs w r
    using that le_bytes_take [of 8 bs, where 'a=64] by (auto simp: le_io_def split: if_splits)
qed (simp_all add: le_io_def)

end
