(* ===== verification/Ordered_Map.thy ===== *)
theory Ordered_Map
  imports Prelude
begin

text \<open>
  \<open>std::map\<close>: the list of its pairs in iteration order, keys strictly increasing.

  \<open>find\<close> is \<^const>\<open>map_of\<close>; \<open>om_set\<close> is \<open>m[k] = v\<close> and \<open>insert_or_assign\<close>; \<open>om_emplace\<close>
  reports, as \<open>std::map::emplace\<close> does, whether the key was new and keeps the old value
  otherwise; \<open>om_erase\<close> is \<open>erase(key)\<close>; \<open>om_lower\<close> and \<open>om_upper\<close> are the suffixes that
  \<open>lower_bound\<close> and \<open>upper_bound\<close> point to. The locale \<open>finite_map_spec\<close> states what a client may
  rely on; it is interpreted on these operations.
\<close>

type_synonym ('k, 'v) omap = "('k \<times> 'v) list"

definition om_ok :: "('k::linorder, 'v) omap \<Rightarrow> bool" where
  "om_ok m \<longleftrightarrow> sorted_wrt (<) (map fst m)"

fun om_set :: "'k::linorder \<Rightarrow> 'v \<Rightarrow> ('k, 'v) omap \<Rightarrow> ('k, 'v) omap" where
  "om_set k v [] = [(k, v)]"
| "om_set k v ((k', v') # m) =
     (if k < k' then (k, v) # (k', v') # m
      else if k = k' then (k, v) # m
      else (k', v') # om_set k v m)"

definition om_emplace :: "'k::linorder \<Rightarrow> 'v \<Rightarrow> ('k, 'v) omap \<Rightarrow> bool \<times> ('k, 'v) omap" where
  "om_emplace k v m = (case map_of m k of Some _ \<Rightarrow> (False, m) | None \<Rightarrow> (True, om_set k v m))"

definition om_erase :: "'k::linorder \<Rightarrow> ('k, 'v) omap \<Rightarrow> ('k, 'v) omap" where
  "om_erase k m = filter (\<lambda>p. fst p \<noteq> k) m"

definition om_lower :: "'k::linorder \<Rightarrow> ('k, 'v) omap \<Rightarrow> ('k, 'v) omap" where
  "om_lower k m = dropWhile (\<lambda>p. fst p < k) m"

definition om_upper :: "'k::linorder \<Rightarrow> ('k, 'v) omap \<Rightarrow> ('k, 'v) omap" where
  "om_upper k m = dropWhile (\<lambda>p. fst p \<le> k) m"

section \<open>The contract of a finite map\<close>

locale finite_map_spec =
  fixes inv :: "'m \<Rightarrow> bool"
    and lookup :: "'m \<Rightarrow> 'k \<Rightarrow> 'v option"
    and insert_m :: "'k \<Rightarrow> 'v \<Rightarrow> 'm \<Rightarrow> 'm"
    and erase_m :: "'k \<Rightarrow> 'm \<Rightarrow> 'm"
    and empty_m :: "'m"
  assumes inv_empty: "inv empty_m"
    and lookup_empty: "lookup empty_m k = None"
    and inv_insert: "inv m \<Longrightarrow> inv (insert_m k v m)"
    and lookup_insert: "inv m \<Longrightarrow> lookup (insert_m k v m) = (lookup m)(k \<mapsto> v)"
    and inv_erase: "inv m \<Longrightarrow> inv (erase_m k m)"
    and lookup_erase: "inv m \<Longrightarrow> lookup (erase_m k m) = (lookup m)(k := None)"
    and lookup_inj: "\<lbrakk> inv m; inv m'; lookup m = lookup m' \<rbrakk> \<Longrightarrow> m = m'"
begin

lemma insert_fold:
  "inv m \<Longrightarrow> inv (fold (\<lambda>p. insert_m (fst p) (snd p)) kvs m)
     \<and> lookup (fold (\<lambda>p. insert_m (fst p) (snd p)) kvs m) = lookup m ++ map_of (rev kvs)"
  by (induction kvs arbitrary: m) (auto simp: inv_insert lookup_insert fun_eq_iff map_add_def
      split: option.splits)

lemma erase_insert:
  "\<lbrakk> inv m; lookup m k = None \<rbrakk> \<Longrightarrow> erase_m k (insert_m k v m) = m"
  by (rule lookup_inj) (auto simp: inv_insert inv_erase lookup_insert lookup_erase)

lemma insert_commute:
  "\<lbrakk> inv m; k \<noteq> k' \<rbrakk> \<Longrightarrow> insert_m k v (insert_m k' v' m) = insert_m k' v' (insert_m k v m)"
  by (rule lookup_inj) (auto simp: inv_insert lookup_insert)

lemma insert_same: "\<lbrakk> inv m; lookup m k = Some v \<rbrakk> \<Longrightarrow> insert_m k v m = m"
  by (rule lookup_inj) (auto simp: inv_insert lookup_insert)

end

section \<open>The implementation\<close>

lemma om_ok_Nil [simp]: "om_ok []"
  by (simp add: om_ok_def)

lemma om_ok_Cons [simp]: "om_ok (p # m) \<longleftrightarrow> (\<forall>q\<in>set m. fst p < fst q) \<and> om_ok m"
  by (auto simp: om_ok_def)

lemma om_ok_append:
  "om_ok (xs @ ys) \<longleftrightarrow> om_ok xs \<and> om_ok ys \<and> (\<forall>p\<in>set xs. \<forall>q\<in>set ys. fst p < fst q)"
  by (auto simp: om_ok_def sorted_wrt_append)

lemma om_ok_distinct: "om_ok m \<Longrightarrow> distinct (map fst m)"
  by (simp add: om_ok_def strict_sorted_iff)

lemma map_of_None_above: "\<forall>(q :: (_::linorder) \<times> _)\<in>set m. k < fst q \<Longrightarrow> map_of m k = None"
  by (induction m) auto

lemma om_ok_Some_iff: "om_ok m \<Longrightarrow> map_of m k = Some v \<longleftrightarrow> (k, v) \<in> set m"
  by (simp add: om_ok_distinct)

lemma set_om_set: "om_ok m \<Longrightarrow> set (om_set k v m) = insert (k, v) {p \<in> set m. fst p \<noteq> k}"
  by (induction k v m rule: om_set.induct) force+

lemma om_ok_set [simp]: "om_ok m \<Longrightarrow> om_ok (om_set k v m)"
  by (induction k v m rule: om_set.induct) (auto simp: set_om_set)

lemma map_of_om_set [simp]: "om_ok m \<Longrightarrow> map_of (om_set k v m) = (map_of m)(k \<mapsto> v)"
  by (induction k v m rule: om_set.induct) (auto simp: fun_eq_iff)

lemma om_ok_erase [simp]: "om_ok m \<Longrightarrow> om_ok (om_erase k m)"
  by (auto simp: om_ok_def om_erase_def sorted_wrt_map intro: sorted_wrt_filter)

lemma map_of_om_erase [simp]: "map_of (om_erase k m) = (map_of m)(k := None)"
  by (induction m) (auto simp: om_erase_def fun_eq_iff)

lemma set_om_erase: "set (om_erase k m) = {p \<in> set m. fst p \<noteq> k}"
  by (auto simp: om_erase_def)

lemma om_ok_eqI:
  assumes "om_ok m" "om_ok m'" "map_of m = map_of m'"
  shows "m = m'"
proof (rule map_sorted_distinct_set_unique)
  have eq: "set m = set m'"
    using assms by (auto simp flip: om_ok_Some_iff)
  show "set m = set m'"
    by (rule eq)
  show "inj_on fst (set m \<union> set m')"
    using om_ok_distinct [OF assms(1)] eq by (simp add: distinct_map)
  show "sorted (map fst m)" "distinct (map fst m)" "sorted (map fst m')" "distinct (map fst m')"
    using assms(1,2) by (simp_all add: om_ok_def strict_sorted_iff)
qed

interpretation stdmap: finite_map_spec om_ok map_of om_set om_erase "[]"
  by unfold_locales (auto intro: om_ok_eqI)

lemma om_ok_filter: "om_ok m \<Longrightarrow> om_ok (filter P m)"
  by (auto simp: om_ok_def sorted_wrt_map intro: sorted_wrt_filter)

lemma om_lower_filter: "om_ok m \<Longrightarrow> om_lower k m = filter (\<lambda>p. k \<le> fst p) m"
proof (induction m)
  case (Cons p m)
  then show ?case
    by (auto simp: om_lower_def not_less intro!: filter_True [symmetric] less_imp_le
        dest: le_less_trans)
qed (simp add: om_lower_def)

lemma om_upper_filter: "om_ok m \<Longrightarrow> om_upper k m = filter (\<lambda>p. k < fst p) m"
proof (induction m)
  case (Cons p m)
  then show ?case
    by (auto simp: om_upper_def not_le intro!: filter_True [symmetric] dest: less_trans)
qed (simp add: om_upper_def)

lemma om_emplace_new:
  "om_ok m \<Longrightarrow> map_of m k = None \<Longrightarrow> om_emplace k v m = (True, om_set k v m)"
  by (simp add: om_emplace_def)

lemma om_emplace_cases:
  "om_emplace k v m = (b, m') \<longleftrightarrow>
     (if map_of m k = None then b \<and> m' = om_set k v m else \<not> b \<and> m' = m)"
  by (auto simp: om_emplace_def split: option.splits)

lemma om_set_end: "\<lbrakk> om_ok m; \<forall>p\<in>set m. fst p < k \<rbrakk> \<Longrightarrow> om_set k v m = m @ [(k, v)]"
  by (induction m) auto

lemma length_om_set: "om_ok m \<Longrightarrow> length (om_set k v m) = (if map_of m k = None then Suc (length m) else length m)"
proof (induction k v m rule: om_set.induct)
  case (2 k v k' v' m)
  have "k < k' \<Longrightarrow> map_of m k = None"
    using 2 by (intro map_of_None_above) (auto dest: less_trans)
  then show ?case
    using 2 by auto
qed simp

lemma length_om_erase: "length (om_erase k m) \<le> length m"
  by (simp add: om_erase_def)

lemma om_set_middle:
  "\<lbrakk> \<forall>p\<in>set xs. fst p < k; \<forall>p\<in>set ys. k < fst p \<rbrakk> \<Longrightarrow> om_set k v (xs @ ys) = xs @ (k, v) # ys"
proof (induction xs)
  case Nil
  then show ?case
    by (cases ys) auto
qed auto

lemma om_erase_middle:
  "\<lbrakk> \<forall>p\<in>set xs. fst p < k; \<forall>p\<in>set ys. k < fst p \<rbrakk> \<Longrightarrow> om_erase k (xs @ (k, v) # ys) = xs @ ys"
proof -
  assume "\<forall>p\<in>set xs. fst p < k" "\<forall>p\<in>set ys. k < fst p"
  then have "filter (\<lambda>p. fst p \<noteq> k) xs = xs" "filter (\<lambda>p. fst p \<noteq> k) ys = ys"
    by (auto simp: filter_id_conv)
  then show ?thesis
    by (simp add: om_erase_def)
qed

lemma om_lower_split:
  "\<lbrakk> \<forall>p\<in>set xs. fst p < k; \<forall>p\<in>set ys. k \<le> fst p \<rbrakk> \<Longrightarrow> om_lower k (xs @ ys) = ys"
  by (cases ys) (auto simp: om_lower_def dropWhile_append not_less)

lemma map_of_None_outside:
  "\<lbrakk> \<forall>p\<in>set xs. fst p < (k :: _::linorder); \<forall>p\<in>set ys. k < fst p \<rbrakk> \<Longrightarrow> map_of (xs @ ys) k = None"
  by (auto simp: map_of_eq_None_iff)

end
