(* ===== verification/Inode_Base.thy ===== *)
theory Inode_Base
  imports Common Ordered_Map
begin

text \<open>
  The \<open>SwordFsInode\<close> record of \<open>metadata/types/Inode.{hpp,cpp}\<close> with the member functions that the
  ACL code needs: construction, \<open>Touch\<close>, the type tests and the sticky-bit check. Extended
  attributes are an ordered map from names to values.
\<close>

record SwordFsInode =
  i_ino :: u64
  i_attr :: SwordFsAttr
  i_parent_ino :: u64
  i_symlink_target :: bytes
  i_xattrs :: "(bytes, bytes) omap"

definition new_inode :: "u64 \<Rightarrow> SwordFsAttr \<Rightarrow> u64 \<Rightarrow> bytes \<Rightarrow> SwordFsInode" where
  "new_inode ino attr parent_ino symlink_target =
     \<lparr> i_ino = ino, i_attr = attr, i_parent_ino = parent_ino, i_symlink_target = symlink_target,
       i_xattrs = [] \<rparr>"

text \<open>\<open>inode.attr.mode = ...\<close>\<close>

definition set_mode :: "u32 \<Rightarrow> SwordFsInode \<Rightarrow> SwordFsInode" where
  "set_mode m i = i \<lparr> i_attr := (i_attr i) \<lparr> a_mode := m \<rparr> \<rparr>"

abbreviation i_mode :: "SwordFsInode \<Rightarrow> u32" where
  "i_mode i \<equiv> a_mode (i_attr i)"

definition Touch :: "i64 \<Rightarrow> u32 \<Rightarrow> SwordFsInode \<Rightarrow> SwordFsInode" where
  "Touch now fs i =
    (let a = i_attr i;
         a = (if HasSetAttrField fs fAtime then a \<lparr> a_atime := now, a_atime_nsec := 0 \<rparr> else a);
         a = (if HasSetAttrField fs fMtime then a \<lparr> a_mtime := now, a_mtime_nsec := 0 \<rparr> else a);
         a = (if HasSetAttrField fs fCtime then a \<lparr> a_ctime := now, a_ctime_nsec := 0 \<rparr> else a)
     in i \<lparr> i_attr := a \<rparr>)"

definition IsDir :: "SwordFsInode \<Rightarrow> bool" where "IsDir i \<longleftrightarrow> S_ISDIR (i_mode i)"
definition IsRegular :: "SwordFsInode \<Rightarrow> bool" where "IsRegular i \<longleftrightarrow> S_ISREG (i_mode i)"
definition IsSymlink :: "SwordFsInode \<Rightarrow> bool" where "IsSymlink i \<longleftrightarrow> S_ISLNK (i_mode i)"

definition CheckStickyDelete :: "SwordFsInode \<Rightarrow> u64 \<Rightarrow> SwordFsInode \<Rightarrow> bool" where
  "CheckStickyDelete dir uid target \<longleftrightarrow>
     (if i_mode dir AND S_ISVTX = 0 then True
      else uid = 0 \<or> uid = a_uid (i_attr dir) \<or> uid = a_uid (i_attr target))"

lemma Touch_other [simp]:
  "i_ino (Touch now f i) = i_ino i"
  "i_parent_ino (Touch now f i) = i_parent_ino i"
  "i_symlink_target (Touch now f i) = i_symlink_target i"
  "i_xattrs (Touch now f i) = i_xattrs i"
  by (simp_all add: Touch_def Let_def)

lemma Touch_attr_other [simp]:
  "a_ino (i_attr (Touch now f i)) = a_ino (i_attr i)"
  "a_mode (i_attr (Touch now f i)) = a_mode (i_attr i)"
  "a_nlink (i_attr (Touch now f i)) = a_nlink (i_attr i)"
  "a_uid (i_attr (Touch now f i)) = a_uid (i_attr i)"
  "a_gid (i_attr (Touch now f i)) = a_gid (i_attr i)"
  "a_size (i_attr (Touch now f i)) = a_size (i_attr i)"
  "a_inode_flags (i_attr (Touch now f i)) = a_inode_flags (i_attr i)"
  "a_btime (i_attr (Touch now f i)) = a_btime (i_attr i)"
  "a_btime_nsec (i_attr (Touch now f i)) = a_btime_nsec (i_attr i)"
  by (simp_all add: Touch_def Let_def)

lemma Touch_nsec:
  "a_atime_nsec (i_attr (Touch now f i)) \<in> {0, a_atime_nsec (i_attr i)}"
  "a_mtime_nsec (i_attr (Touch now f i)) \<in> {0, a_mtime_nsec (i_attr i)}"
  "a_ctime_nsec (i_attr (Touch now f i)) \<in> {0, a_ctime_nsec (i_attr i)}"
  by (simp_all add: Touch_def Let_def)

lemma set_mode_simps [simp]:
  "i_ino (set_mode m i) = i_ino i" "i_parent_ino (set_mode m i) = i_parent_ino i"
  "i_symlink_target (set_mode m i) = i_symlink_target i" "i_xattrs (set_mode m i) = i_xattrs i"
  "i_attr (set_mode m i) = (i_attr i) \<lparr> a_mode := m \<rparr>"
  by (simp_all add: set_mode_def)

lemma Is_Touch [simp]:
  "IsDir (Touch now f i) = IsDir i" "IsRegular (Touch now f i) = IsRegular i"
  "IsSymlink (Touch now f i) = IsSymlink i"
  by (simp_all add: IsDir_def IsRegular_def IsSymlink_def)

text \<open>The type bits survive a change of the permission bits.\<close>

lemma type_bits_perm [simp]:
  fixes m p :: u32
  assumes "p AND NOT 0x1FF = 0"
  shows "((m AND NOT 0x1FF) OR p) AND S_IFMT = m AND S_IFMT"
proof -
  have m: "(0x1FF :: u32) = mask 9" "(0xF000 :: u32) = push_bit 12 (mask 4)"
    by (simp_all add: mask_eq_exp_minus_1)
  have "\<not> bit p n \<or> n < 9" for n
    using assms bit_imp_le_length [of p n] unfolding m by (auto simp: bit_eq_iff bit_simps)
  then show ?thesis
    unfolding S_IFMT_def m by (intro bit_word_eqI) (fastforce simp: bit_simps)
qed

end
