(* ===== verification/PosixAcl.thy ===== *)
theory PosixAcl
  imports Inode_Base
begin

text \<open>
  \<open>metadata/PosixAcl.{hpp,cpp}\<close>: the Linux POSIX ACL xattr format, its validation automaton, the
  projection between an ACL and the permission bits of a mode, and the four inode transitions
  built on them (set, remove, chmod synchronisation, create-time inheritance).

  An ACL is the vector \<open>entries_\<close>. \<open>Find\<close> returns the first entry with a tag; where the source
  dereferences the result of \<open>Find\<close> for a mandatory tag, the model reads permission \<open>0\<close> for a null
  pointer, and \<open>validated_acl_has_objects\<close> shows that this case never arises on a parsed ACL.
\<close>

record AclEntry =
  acl_tag :: u16
  acl_perm :: u16
  acl_id :: u32

definition kAclXattrVersion :: u32 where [flag_defs]: "kAclXattrVersion = 2"
definition kAclUserObj :: u16 where [flag_defs]: "kAclUserObj = 1"
definition kAclUser :: u16 where [flag_defs]: "kAclUser = 2"
definition kAclGroupObj :: u16 where [flag_defs]: "kAclGroupObj = 4"
definition kAclGroup :: u16 where [flag_defs]: "kAclGroup = 8"
definition kAclMask :: u16 where [flag_defs]: "kAclMask = 16"
definition kAclOther :: u16 where [flag_defs]: "kAclOther = 32"
definition kAclUndefinedId :: u32 where [flag_defs]: "kAclUndefinedId = 0xFFFFFFFF"
definition kAclHeaderSize :: nat where [flag_defs]: "kAclHeaderSize = 4"
definition kAclEntrySize :: nat where [flag_defs]: "kAclEntrySize = 8"

definition kPosixAclAccessXAttr :: bytes where "kPosixAclAccessXAttr = ascii ''system.posix_acl_access''"
definition kPosixAclDefaultXAttr :: bytes where "kPosixAclDefaultXAttr = ascii ''system.posix_acl_default''"

section \<open>Wire format\<close>

definition ReadLe16 :: "bytes \<Rightarrow> nat \<Rightarrow> u16" where
  "ReadLe16 data off = ucast (data ! off) OR push_bit 8 (ucast (data ! (off + 1)))"

definition ReadLe32 :: "bytes \<Rightarrow> nat \<Rightarrow> u32" where
  "ReadLe32 data off = ucast (data ! off) OR push_bit 8 (ucast (data ! (off + 1)))
     OR push_bit 16 (ucast (data ! (off + 2))) OR push_bit 24 (ucast (data ! (off + 3)))"

definition AppendLe16 :: "u16 \<Rightarrow> bytes" where
  "AppendLe16 v = [ucast (v AND 0xff), ucast (drop_bit 8 v AND 0xff)]"

definition AppendLe32 :: "u32 \<Rightarrow> bytes" where
  "AppendLe32 v = [ucast (v AND 0xff), ucast (drop_bit 8 v AND 0xff),
     ucast (drop_bit 16 v AND 0xff), ucast (drop_bit 24 v AND 0xff)]"

section \<open>PosixAcl::Validate\<close>

datatype acl_state = stUserObj | stUsers | stGroupObj | stGroups | stMask | stOther | stDone

record acl_scan =
  as_state :: acl_state
  as_user_ids :: "u32 list"
  as_group_ids :: "u32 list"
  as_has_named :: bool
  as_has_mask :: bool

definition validate_entry :: "AclEntry \<Rightarrow> acl_scan \<Rightarrow> acl_scan res" where
  "validate_entry e s =
    (let tag = acl_tag e; id = acl_id e; named = (tag = kAclUser \<or> tag = kAclGroup) in
     if acl_perm e AND NOT 7 \<noteq> 0 then Inl kInvalidArgument
     else if named \<and> id = kAclUndefinedId then Inl kInvalidArgument
     else if \<not> named \<and> id \<noteq> kAclUndefinedId then Inl kInvalidArgument
     else if tag = kAclUserObj then
       (if as_state s \<noteq> stUserObj then Inl kInvalidArgument else Inr (s \<lparr> as_state := stUsers \<rparr>))
     else if tag = kAclUser then
       (if as_state s \<noteq> stUsers then Inl kInvalidArgument
        else if id \<in> set (as_user_ids s) then Inl kInvalidArgument
        else Inr (s \<lparr> as_user_ids := id # as_user_ids s, as_has_named := True \<rparr>))
     else if tag = kAclGroupObj then
       (if as_state s \<noteq> stUsers then Inl kInvalidArgument else Inr (s \<lparr> as_state := stGroups \<rparr>))
     else if tag = kAclGroup then
       (if as_state s \<noteq> stGroups then Inl kInvalidArgument
        else if id \<in> set (as_group_ids s) then Inl kInvalidArgument
        else Inr (s \<lparr> as_group_ids := id # as_group_ids s, as_has_named := True \<rparr>))
     else if tag = kAclMask then
       (if as_state s \<noteq> stGroups then Inl kInvalidArgument
        else Inr (s \<lparr> as_has_mask := True, as_state := stOther \<rparr>))
     else if tag = kAclOther then
       (if as_state s \<noteq> stGroups \<and> as_state s \<noteq> stOther then Inl kInvalidArgument
        else Inr (s \<lparr> as_state := stDone \<rparr>))
     else Inl kInvalidArgument)"

fun validate_entries :: "AclEntry list \<Rightarrow> acl_scan \<Rightarrow> acl_scan res" where
  "validate_entries [] s = Inr s"
| "validate_entries (e # es) s = chk (validate_entry e s) (validate_entries es)"

definition acl_scan0 :: acl_scan where
  "acl_scan0 = \<lparr> as_state = stUserObj, as_user_ids = [], as_group_ids = [], as_has_named = False,
     as_has_mask = False \<rparr>"

definition Validate :: "AclEntry list \<Rightarrow> unit res" where
  "Validate es =
    (if length es < 3 then Inl kInvalidArgument
     else chk (validate_entries es acl_scan0) (\<lambda>s.
       if as_state s \<noteq> stDone then Inl kInvalidArgument
       else if as_has_named s \<and> \<not> as_has_mask s then Inl kInvalidArgument
       else Inr ()))"

section \<open>Parse, Serialize and the mode projections\<close>

definition acl_entry_at :: "bytes \<Rightarrow> nat \<Rightarrow> AclEntry" where
  "acl_entry_at data i =
    (let off = kAclHeaderSize + i * kAclEntrySize
     in \<lparr> acl_tag = ReadLe16 data off, acl_perm = ReadLe16 data (off + 2), acl_id = ReadLe32 data (off + 4) \<rparr>)"

definition Parse :: "bytes \<Rightarrow> AclEntry list res" where
  "Parse data =
    (if length data < kAclHeaderSize \<or> (length data - kAclHeaderSize) mod kAclEntrySize \<noteq> 0
     then Inl kInvalidArgument
     else if ReadLe32 data 0 \<noteq> kAclXattrVersion then Inl kInvalidArgument
     else let count = (length data - kAclHeaderSize) div kAclEntrySize;
              parsed = map (acl_entry_at data) [0..<count]
          in chk (Validate parsed) (\<lambda>_. Inr parsed))"

definition ser_entry :: "AclEntry \<Rightarrow> bytes" where
  "ser_entry e = AppendLe16 (acl_tag e) @ AppendLe16 (acl_perm e) @ AppendLe32 (acl_id e)"

definition Serialize :: "AclEntry list \<Rightarrow> bytes" where
  "Serialize es = AppendLe32 kAclXattrVersion @ concat (map ser_entry es)"

definition IsMinimal :: "AclEntry list \<Rightarrow> bool" where
  "IsMinimal es \<longleftrightarrow> length es = 3 \<and> acl_tag (es ! 0) = kAclUserObj
     \<and> acl_tag (es ! 1) = kAclGroupObj \<and> acl_tag (es ! 2) = kAclOther"

fun Find :: "u16 \<Rightarrow> AclEntry list \<Rightarrow> AclEntry option" where
  "Find tag [] = None"
| "Find tag (e # es) = (if acl_tag e = tag then Some e else Find tag es)"

text \<open>Assignment through the pointer returned by \<open>FindMutable\<close>.\<close>

fun upd_first :: "u16 \<Rightarrow> (u16 \<Rightarrow> u16) \<Rightarrow> AclEntry list \<Rightarrow> AclEntry list" where
  "upd_first tag f [] = []"
| "upd_first tag f (e # es) =
     (if acl_tag e = tag then e \<lparr> acl_perm := f (acl_perm e) \<rparr> # es else e # upd_first tag f es)"

definition perm_at :: "u16 \<Rightarrow> AclEntry list \<Rightarrow> u16" where
  "perm_at tag es = (case Find tag es of Some e \<Rightarrow> acl_perm e | None \<Rightarrow> 0)"

definition group_class :: "AclEntry list \<Rightarrow> u16" where
  "group_class es = (if Find kAclMask es = None then kAclGroupObj else kAclMask)"

definition PermissionsMode :: "AclEntry list \<Rightarrow> u32" where
  "PermissionsMode es =
     push_bit 6 (ucast (perm_at kAclUserObj es)) OR push_bit 3 (ucast (perm_at (group_class es) es))
     OR ucast (perm_at kAclOther es)"

definition ApplyMode :: "u32 \<Rightarrow> AclEntry list \<Rightarrow> AclEntry list" where
  "ApplyMode mode es =
    (let es = upd_first kAclUserObj (\<lambda>_. ucast (drop_bit 6 mode AND 7)) es;
         es = upd_first (group_class es) (\<lambda>_. ucast (drop_bit 3 mode AND 7)) es
     in upd_first kAclOther (\<lambda>_. ucast (mode AND 7)) es)"

definition RestrictToMode :: "u32 \<Rightarrow> AclEntry list \<Rightarrow> AclEntry list" where
  "RestrictToMode mode es =
    (let es = upd_first kAclUserObj (\<lambda>p. p AND ucast (drop_bit 6 mode AND 7)) es;
         es = upd_first (group_class es) (\<lambda>p. p AND ucast (drop_bit 3 mode AND 7)) es
     in upd_first kAclOther (\<lambda>p. p AND ucast (mode AND 7)) es)"

section \<open>Inode transitions\<close>

definition CheckSetMode :: "SwordFsInode \<Rightarrow> bytes \<Rightarrow> XAttrSetMode \<Rightarrow> unit res" where
  "CheckSetMode inode name mode =
    (let exists = (map_of (i_xattrs inode) name \<noteq> None) in
     case mode of
       kUpsert \<Rightarrow> Inr ()
     | kCreateOnly \<Rightarrow> if exists then Inl kAlreadyExists else Inr ()
     | kReplaceOnly \<Rightarrow> if exists then Inr () else Inl kNoData)"

definition list_bytes :: "bytes \<Rightarrow> (bytes, bytes) omap \<Rightarrow> nat" where
  "list_bytes name xs = foldl (\<lambda>acc p. acc + (length (fst p) + 1)) (length name + 1) xs"

definition CheckInsertListSize :: "SwordFsInode \<Rightarrow> bytes \<Rightarrow> unit res" where
  "CheckInsertListSize inode name =
    (if map_of (i_xattrs inode) name \<noteq> None then Inr ()
     else if list_bytes name (i_xattrs inode) > kMaxXAttrListSize then Inl kRange
     else Inr ())"

definition ParseStoredAcl :: "bytes \<Rightarrow> AclEntry list res" where
  "ParseStoredAcl v = (case Parse v of Inl _ \<Rightarrow> Inl kMalformed | Inr acl \<Rightarrow> Inr acl)"

definition IsPosixAclXAttrName :: "bytes \<Rightarrow> bool" where
  "IsPosixAclXAttrName name \<longleftrightarrow> name = kPosixAclAccessXAttr \<or> name = kPosixAclDefaultXAttr"

definition SetPosixAclXAttr ::
    "i64 \<Rightarrow> SwordFsInode \<Rightarrow> bytes \<Rightarrow> bytes \<Rightarrow> XAttrSetMode \<Rightarrow> SwordFsInode res" where
  "SetPosixAclXAttr now inode name v mode =
    (if \<not> IsPosixAclXAttrName name then Inl kInvalidArgument
     else if IsSymlink inode then Inl kOperationNotSupported
     else if name = kPosixAclDefaultXAttr \<and> \<not> IsDir inode then Inl kPermission
     else if length v > kMaxXAttrValueSize then Inl kRange
     else chk (CheckSetMode inode name mode) (\<lambda>_.
       chk (Parse v) (\<lambda>acl.
       chk (if name = kPosixAclDefaultXAttr \<or> \<not> IsMinimal acl then CheckInsertListSize inode name
            else Inr ()) (\<lambda>_.
         let inode =
           (if name = kPosixAclAccessXAttr then
              let inode = set_mode ((i_mode inode AND NOT 0x1FF) OR PermissionsMode acl) inode
              in if IsMinimal acl then inode \<lparr> i_xattrs := om_erase name (i_xattrs inode) \<rparr>
                 else inode \<lparr> i_xattrs := om_set name (Serialize acl) (i_xattrs inode) \<rparr>
            else inode \<lparr> i_xattrs := om_set name (Serialize acl) (i_xattrs inode) \<rparr>)
         in Inr (Touch now fCtime inode)))))"

definition RemovePosixAclXAttr :: "i64 \<Rightarrow> SwordFsInode \<Rightarrow> bytes \<Rightarrow> SwordFsInode res" where
  "RemovePosixAclXAttr now inode name =
    (if \<not> IsPosixAclXAttrName name then Inl kInvalidArgument
     else if IsSymlink inode then Inl kOperationNotSupported
     else if name = kPosixAclDefaultXAttr \<and> \<not> IsDir inode then Inl kPermission
     else if map_of (i_xattrs inode) name = None then Inl kNoData
     else Inr (Touch now fCtime (inode \<lparr> i_xattrs := om_erase name (i_xattrs inode) \<rparr>)))"

definition SyncPosixAccessAclForMode :: "SwordFsInode \<Rightarrow> u32 \<Rightarrow> SwordFsInode res" where
  "SyncPosixAccessAclForMode inode mode =
    (case map_of (i_xattrs inode) kPosixAclAccessXAttr of
       None \<Rightarrow> Inr inode
     | Some v \<Rightarrow> chk (ParseStoredAcl v) (\<lambda>acl.
         Inr (inode \<lparr> i_xattrs :=
           om_set kPosixAclAccessXAttr (Serialize (ApplyMode mode acl)) (i_xattrs inode) \<rparr>)))"

definition ApplyPosixAclCreateInheritance ::
    "SwordFsInode \<Rightarrow> u32 \<Rightarrow> SwordFsInode \<Rightarrow> SwordFsInode res" where
  "ApplyPosixAclCreateInheritance parent umask child =
    (if IsSymlink child then Inr child
     else case map_of (i_xattrs parent) kPosixAclDefaultXAttr of
       None \<Rightarrow> Inr (set_mode ((i_mode child AND NOT 0x1FF) OR ((i_mode child AND 0x1FF) AND NOT umask)) child)
     | Some v \<Rightarrow>
         (case Parse v of
            Inl _ \<Rightarrow> Inl kMalformed
          | Inr acl0 \<Rightarrow>
              let acl = RestrictToMode (i_mode child) acl0;
                  child = set_mode ((i_mode child AND NOT 0x1FF) OR PermissionsMode acl) child;
                  child = (if \<not> IsMinimal acl
                    then child \<lparr> i_xattrs := om_set kPosixAclAccessXAttr (Serialize acl) (i_xattrs child) \<rparr>
                    else child);
                  child = (if IsDir child
                    then child \<lparr> i_xattrs := om_set kPosixAclDefaultXAttr v (i_xattrs child) \<rparr>
                    else child)
              in Inr child))"

section \<open>Lemmas: the wire format\<close>

lemma low_byte: "(0xff :: 'a::len word) = mask 8"
  by (simp add: mask_eq_exp_minus_1)

lemma bit8_ge [simp]: "8 \<le> n \<Longrightarrow> \<not> bit (a :: u8) n"
  using bit_imp_le_length [of a n] by auto

lemma take2_drop: "off + 2 \<le> length xs \<Longrightarrow> take 2 (drop off xs) = [xs ! off, xs ! (off + 1)]"
  by (simp add: numeral_2_eq_2 Cons_nth_drop_Suc [symmetric])

lemma take4_drop:
  "off + 4 \<le> length xs \<Longrightarrow> take 4 (drop off xs) = [xs ! off, xs ! (off + 1), xs ! (off + 2), xs ! (off + 3)]"
  by (simp add: numeral_eq_Suc Cons_nth_drop_Suc [symmetric])

lemma Le16_of_bytes: "AppendLe16 (ucast (a :: u8) OR push_bit 8 (ucast b)) = [a, b]"
  unfolding AppendLe16_def low_byte by (auto intro!: bit_word_eqI simp: bit_simps)

lemma Le32_of_bytes:
  "AppendLe32 (ucast (a :: u8) OR push_bit 8 (ucast b) OR push_bit 16 (ucast c) OR push_bit 24 (ucast d)) = [a, b, c, d]"
  unfolding AppendLe32_def low_byte by (auto intro!: bit_word_eqI simp: bit_simps)

lemma ReadLe_list:
  "ReadLe16 [a, b] 0 = ucast a OR push_bit 8 (ucast b)"
  "ReadLe32 [a, b, c, d] 0 = ucast a OR push_bit 8 (ucast b) OR push_bit 16 (ucast c) OR push_bit 24 (ucast d)"
  by (simp_all add: ReadLe16_def ReadLe32_def)

lemma ReadLe16_Append: "ReadLe16 (AppendLe16 v) 0 = v"
  unfolding AppendLe16_def low_byte ReadLe_list by (auto intro!: bit_word_eqI simp: bit_simps)

lemma ReadLe32_Append: "ReadLe32 (AppendLe32 v) 0 = v"
proof (rule bit_word_eqI)
  fix n
  assume "n < LENGTH(32)"
  then consider "n < 8" | "8 \<le> n" "n < 16" | "16 \<le> n" "n < 24" | "24 \<le> n" "n < 32"
    by fastforce
  then show "bit (ReadLe32 (AppendLe32 v) 0) n = bit v n"
    unfolding AppendLe32_def low_byte ReadLe_list
    by cases (auto simp: bit_simps less_diff_conv2)
qed

lemma AppendLe_inject:
  "AppendLe16 v = AppendLe16 w \<longleftrightarrow> v = w" "AppendLe32 x = AppendLe32 y \<longleftrightarrow> x = y"
  using ReadLe16_Append ReadLe32_Append by metis+

lemma length_Append [simp]: "length (AppendLe16 v) = 2" "length (AppendLe32 w) = 4" "length (ser_entry e) = 8"
  by (simp_all add: AppendLe16_def AppendLe32_def ser_entry_def)

lemma Append_ReadLe16: "off + 2 \<le> length data \<Longrightarrow> AppendLe16 (ReadLe16 data off) = take 2 (drop off data)"
  by (simp add: ReadLe16_def Le16_of_bytes take2_drop)

lemma Append_ReadLe32: "off + 4 \<le> length data \<Longrightarrow> AppendLe32 (ReadLe32 data off) = take 4 (drop off data)"
  by (simp add: ReadLe32_def Le32_of_bytes take4_drop)

lemma ser_entry_at:
  assumes "kAclHeaderSize + Suc i * kAclEntrySize \<le> length data"
  shows "ser_entry (acl_entry_at data i) = take 8 (drop (4 + 8 * i) data)"
proof -
  let ?d = "drop (4 + 8 * i) data"
  have "take 8 ?d = take 2 ?d @ take 2 (drop 2 ?d) @ take 4 (drop 4 ?d)"
    using take_add [of 2 6 ?d] take_add [of 2 4 "drop 2 ?d"] by simp
  also have "\<dots> = ser_entry (acl_entry_at data i)"
    using assms
    by (simp add: ser_entry_def acl_entry_at_def Let_def flag_defs Append_ReadLe16 Append_ReadLe32 ac_simps)
  finally show ?thesis ..
qed

lemma ser_entry_inject: "ser_entry e = ser_entry e' \<Longrightarrow> e = e'"
  by (auto simp: ser_entry_def AppendLe_inject)

lemma concat_slices:
  "4 + 8 * n \<le> length data \<Longrightarrow>
     concat (map (\<lambda>i. take 8 (drop (4 + 8 * i) data)) [0..<n]) = take (8 * n) (drop 4 data)"
proof (induction n)
  case (Suc n)
  then show ?case
    using take_add [of "8 * n" 8 "drop 4 data"] by (simp add: add.commute)
qed simp

lemma concat_uniform_slice:
  "\<lbrakk> i < length xs; \<And>x. x \<in> set xs \<Longrightarrow> length (f x) = 8 \<rbrakk> \<Longrightarrow>
     take 8 (drop (8 * i) (concat (map f xs))) = f (xs ! i)"
proof (induction xs arbitrary: i)
  case (Cons x xs)
  then show ?case
    by (cases i) simp_all
qed simp

lemma length_Serialize [simp]: "length (Serialize es) = 4 + 8 * length es"
  by (simp add: Serialize_def length_concat comp_def sum_list_triv)

lemma Serialize_entry_at: "i < length es \<Longrightarrow> acl_entry_at (Serialize es) i = es ! i"
proof (rule ser_entry_inject)
  assume i: "i < length es"
  have "ser_entry (acl_entry_at (Serialize es) i) = take 8 (drop (4 + 8 * i) (Serialize es))"
    using i by (intro ser_entry_at) (simp add: flag_defs)
  also have "\<dots> = ser_entry (es ! i)"
    using concat_uniform_slice [of i es ser_entry] i by (simp add: Serialize_def)
  finally show "ser_entry (acl_entry_at (Serialize es) i) = ser_entry (es ! i)" .
qed

lemma ReadLe32_prefix: "ReadLe32 (AppendLe32 v @ xs) 0 = v"
  using ReadLe32_Append [of v] by (simp add: ReadLe32_def AppendLe32_def)

lemma Parse_Serialize_acl: "Validate es = Inr () \<Longrightarrow> Parse (Serialize es) = Inr es"
proof -
  assume "Validate es = Inr ()"
  moreover have "map (acl_entry_at (Serialize es)) [0..<length es] = es"
    using Serialize_entry_at by (intro nth_equalityI) simp_all
  moreover have "ReadLe32 (Serialize es) 0 = kAclXattrVersion"
    by (simp add: Serialize_def ReadLe32_prefix)
  ultimately show ?thesis
    by (simp add: Parse_def Let_def kAclHeaderSize_def kAclEntrySize_def)
qed

lemma Parse_InrD:
  assumes "Parse data = Inr es"
  shows "Validate es = Inr ()" and "Serialize es = data"
proof -
  let ?n = "(length data - 4) div 8"
  have len: "4 \<le> length data" "(length data - 4) mod 8 = 0" and ver: "ReadLe32 data 0 = kAclXattrVersion"
    and es: "es = map (acl_entry_at data) [0..<?n]" and val: "Validate es = Inr ()"
    using assms by (auto simp: Parse_def Let_def flag_defs chk_Inr_iff split: if_splits)
  show "Validate es = Inr ()"
    by (rule val)
  have n: "4 + 8 * ?n = length data"
    using len by (metis div_mult_mod_eq add.right_neutral mult.commute le_add_diff_inverse)
  have "concat (map ser_entry es) = concat (map (\<lambda>i. take 8 (drop (4 + 8 * i) data)) [0..<?n])"
    unfolding es using n by (intro arg_cong [where f=concat]) (simp add: ser_entry_at flag_defs)
  also have "\<dots> = drop 4 data"
    using concat_slices [of ?n data] n by simp
  finally have "Serialize es = take 4 data @ drop 4 data"
    using Append_ReadLe32 [of 0 data] len by (simp add: Serialize_def flip: ver)
  then show "Serialize es = data"
    by simp
qed

section \<open>Lemmas: validation\<close>

text \<open>Validation looks at a permission field only through its three bits.\<close>

lemma validate_entry_perm:
  "p AND NOT 7 = 0 \<Longrightarrow> acl_perm e AND NOT 7 = 0 \<Longrightarrow>
     validate_entry (e \<lparr> acl_perm := p \<rparr>) s = validate_entry e s"
  by (simp add: validate_entry_def Let_def)

lemma validate_entry_InrD: "validate_entry e s = Inr s' \<Longrightarrow> acl_perm e AND NOT 7 = 0"
  by (auto simp: validate_entry_def Let_def split: if_splits)

lemma validate_entries_upd_first:
  assumes "\<And>p. p AND NOT 7 = 0 \<Longrightarrow> f p AND NOT 7 = 0"
  shows "validate_entries es s = Inr s' \<Longrightarrow> validate_entries (upd_first tag f es) s = Inr s'"
proof (induction es arbitrary: s)
  case (Cons e es)
  then obtain s1 where s1: "validate_entry e s = Inr s1" and es: "validate_entries es s1 = Inr s'"
    by (auto simp: chk_Inr_iff)
  have "validate_entry (e \<lparr> acl_perm := f (acl_perm e) \<rparr>) s = Inr s1"
    using s1 validate_entry_perm [OF assms, of "acl_perm e" e s] validate_entry_InrD [OF s1] by simp
  then show ?case
    using s1 es Cons.IH by simp
qed simp

lemma length_upd_first [simp]: "length (upd_first tag f es) = length es"
  by (induction es) auto

lemma Validate_upd_first:
  assumes "\<And>p. p AND NOT 7 = 0 \<Longrightarrow> f p AND NOT 7 = 0" and "Validate es = Inr ()"
  shows "Validate (upd_first tag f es) = Inr ()"
  using assms(2) validate_entries_upd_first [where f=f and es=es and s=acl_scan0 and tag=tag, OF assms(1)]
  by (auto simp: Validate_def chk_Inr_iff split: if_splits)

lemma upd_first_nth_tag [simp]:
  "i < length es \<Longrightarrow> acl_tag (upd_first tag f es ! i) = acl_tag (es ! i)"
  by (induction es arbitrary: i) (auto simp: nth_Cons split: nat.splits)

lemma IsMinimal_upd_first [simp]: "IsMinimal (upd_first tag f es) = IsMinimal es"
  by (auto simp: IsMinimal_def)

lemma Find_upd_first:
  "Find t (upd_first tag f es) =
     (if t = tag then map_option (\<lambda>e. e \<lparr> acl_perm := f (acl_perm e) \<rparr>) (Find t es) else Find t es)"
  by (induction es) auto

lemma group_class_upd_first [simp]: "group_class (upd_first tag f es) = group_class es"
proof -
  have "Find kAclMask (upd_first tag f es) = None \<longleftrightarrow> Find kAclMask es = None"
    by (simp add: Find_upd_first)
  then show ?thesis
    by (simp only: group_class_def)
qed

lemma group_class_ne [simp]: "group_class es \<noteq> kAclUserObj" "group_class es \<noteq> kAclOther"
  "kAclUserObj \<noteq> group_class es" "kAclOther \<noteq> group_class es"
  by (auto simp: group_class_def flag_defs)

text \<open>The transitions of the scan.\<close>

lemma validate_entry_step:
  assumes "validate_entry e s = Inr s'"
  shows "(acl_tag e, as_state s, as_state s') \<in>
    {(kAclUserObj, stUserObj, stUsers), (kAclUser, stUsers, stUsers), (kAclGroupObj, stUsers, stGroups),
     (kAclGroup, stGroups, stGroups), (kAclMask, stGroups, stOther), (kAclOther, stGroups, stDone),
     (kAclOther, stOther, stDone)}"
  using assms unfolding validate_entry_def Let_def
  by (simp split: if_splits; fastforce)

text \<open>The scan reaches \<open>kDone\<close> only through the mandatory entries.\<close>

lemma validate_entries_objects:
  "\<lbrakk> validate_entries es s = Inr s'; as_state s' = stDone \<rbrakk> \<Longrightarrow>
     (as_state s = stUserObj \<longrightarrow> Find kAclUserObj es \<noteq> None)
   \<and> (as_state s \<in> {stUserObj, stUsers} \<longrightarrow> Find kAclGroupObj es \<noteq> None)
   \<and> (as_state s \<noteq> stDone \<longrightarrow> Find kAclOther es \<noteq> None)"
proof (induction es arbitrary: s)
  case (Cons e es)
  then obtain s1 where s1: "validate_entry e s = Inr s1" and "validate_entries es s1 = Inr s'"
    by (auto simp: chk_Inr_iff)
  with Cons have IH: "(as_state s1 = stUserObj \<longrightarrow> Find kAclUserObj es \<noteq> None)
     \<and> (as_state s1 \<in> {stUserObj, stUsers} \<longrightarrow> Find kAclGroupObj es \<noteq> None)
     \<and> (as_state s1 \<noteq> stDone \<longrightarrow> Find kAclOther es \<noteq> None)"
    by blast
  show ?case
    using validate_entry_step [OF s1] IH by (simp; elim disjE; simp)
qed simp

lemma validated_acl_has_objects:
  assumes "Validate es = Inr ()"
  shows "Find kAclUserObj es \<noteq> None" "Find kAclGroupObj es \<noteq> None" "Find kAclOther es \<noteq> None"
  using assms validate_entries_objects [of es acl_scan0]
  by (auto simp: Validate_def chk_Inr_iff acl_scan0_def split: if_splits)

lemma validate_entries_perm:
  "\<lbrakk> validate_entries es s = Inr s'; Find tag es = Some e \<rbrakk> \<Longrightarrow> acl_perm e AND NOT 7 = 0"
  by (induction es arbitrary: s) (auto simp: chk_Inr_iff dest: validate_entry_InrD split: if_splits)

lemma Validate_perm_at: "Validate es = Inr () \<Longrightarrow> perm_at tag es AND NOT 7 = 0"
  by (auto simp: perm_at_def Validate_def chk_Inr_iff split: option.splits if_splits
      dest: validate_entries_perm)

section \<open>Lemmas: mode projections\<close>

lemma mask_values: "(7 :: 'a::len word) = mask 3" "(0x1FF :: 'a word) = mask 9"
  by (simp_all add: mask_eq_exp_minus_1)

lemma perm_bits: "(p :: u16) AND NOT 7 = 0 \<longleftrightarrow> (\<forall>n. bit p n \<longrightarrow> n < 3)"
proof -
  have "(\<forall>n<16. bit p n \<longrightarrow> n < 3) \<longleftrightarrow> (\<forall>n. bit p n \<longrightarrow> n < 3)"
    using bit_imp_le_length [of p] by auto
  then show ?thesis
    unfolding mask_values by (auto simp: bit_eq_iff bit_simps)
qed

text \<open>The three permission classes of a mode, as \<open>PermissionsMode\<close> packs them.\<close>

definition pack_mode :: "u16 \<Rightarrow> u16 \<Rightarrow> u16 \<Rightarrow> u32" where
  "pack_mode u g t = push_bit 6 (ucast u) OR push_bit 3 (ucast g) OR ucast t"

lemma bit_pack_mode:
  assumes "u AND NOT 7 = 0" "g AND NOT 7 = 0" "t AND NOT 7 = 0"
  shows "bit (pack_mode u g t) n \<longleftrightarrow>
    (if n < 3 then bit t n else if n < 6 then bit g (n - 3) else n < 9 \<and> bit u (n - 6))"
proof -
  have b: "bit u k \<Longrightarrow> k < 3" "bit g k \<Longrightarrow> k < 3" "bit t k \<Longrightarrow> k < 3" for k
    using assms unfolding perm_bits by blast+
  show ?thesis
    using b(1) [of "n - 6"] b(2) [of "n - 3"] b(3) [of n]
    by (auto simp: pack_mode_def bit_simps)
qed

lemma pack_mode_of_mode:
  "pack_mode (ucast (drop_bit 6 m AND 7)) (ucast (drop_bit 3 m AND 7)) (ucast (m AND 7)) = m AND 0x1FF"
proof (rule bit_word_eqI)
  fix n
  have p: "(ucast (x AND 7 :: u32) :: u16) AND NOT 7 = 0" for x
    unfolding perm_bits unfolding mask_values by (simp add: bit_simps)
  show "bit (pack_mode (ucast (drop_bit 6 m AND 7)) (ucast (drop_bit 3 m AND 7)) (ucast (m AND 7))) n = bit (m AND 0x1FF) n"
    unfolding bit_pack_mode [OF p p p] unfolding mask_values
    by (auto simp: bit_simps less_diff_conv2)
qed

lemma pack_mode_and:
  assumes "u AND NOT 7 = 0" "g AND NOT 7 = 0" "t AND NOT 7 = 0"
  shows "pack_mode (u AND ucast (drop_bit 6 m AND 7)) (g AND ucast (drop_bit 3 m AND 7)) (t AND ucast (m AND 7))
    = pack_mode u g t AND m"
proof (rule bit_word_eqI)
  fix n
  have p': "(p AND x) AND NOT 7 = 0" if "p AND NOT 7 = 0" for p x :: u16
    using that unfolding perm_bits by (simp add: bit_simps)
  show "bit (pack_mode (u AND ucast (drop_bit 6 m AND 7)) (g AND ucast (drop_bit 3 m AND 7)) (t AND ucast (m AND 7))) n
     = bit (pack_mode u g t AND m) n"
    unfolding bit_pack_mode [OF p' [OF assms(1)] p' [OF assms(2)] p' [OF assms(3)]] bit_and_iff
      bit_pack_mode [OF assms]
    unfolding mask_values by (auto simp: bit_simps less_diff_conv2)
qed

lemma pack_mode_bound:
  assumes "u AND NOT 7 = 0" "g AND NOT 7 = 0" "t AND NOT 7 = 0"
  shows "pack_mode u g t AND NOT 0x1FF = 0"
  unfolding mask_values by (rule bit_word_eqI) (simp add: bit_simps bit_pack_mode [OF assms, unfolded mask_values])

lemma PermissionsMode_pack:
  "PermissionsMode es = pack_mode (perm_at kAclUserObj es) (perm_at (group_class es) es) (perm_at kAclOther es)"
  by (simp add: PermissionsMode_def pack_mode_def)

lemma obj_tags_distinct: "kAclUserObj \<noteq> kAclOther" "kAclOther \<noteq> kAclUserObj"
  by (simp_all add: flag_defs)

lemma perm_at_upd_first:
  "perm_at t (upd_first tag f es) =
     (if t = tag \<and> Find t es \<noteq> None then f (perm_at t es) else perm_at t es)"
  by (auto simp: perm_at_def Find_upd_first split: option.splits)

lemma Find_None_upd_first [simp]: "Find t (upd_first tag f es) = None \<longleftrightarrow> Find t es = None"
  by (simp add: Find_upd_first)

lemma Find_group_class: "Validate es = Inr () \<Longrightarrow> Find (group_class es) es \<noteq> None"
  using validated_acl_has_objects(2) by (auto simp: group_class_def)

lemma PermissionsMode_ApplyMode:
  assumes "Validate es = Inr ()"
  shows "PermissionsMode (ApplyMode m es) = m AND 0x1FF"
  using validated_acl_has_objects [OF assms] Find_group_class [OF assms]
  by (simp add: PermissionsMode_pack ApplyMode_def Let_def perm_at_upd_first pack_mode_of_mode
      obj_tags_distinct del: not_None_eq)

lemma PermissionsMode_RestrictToMode:
  assumes "Validate es = Inr ()"
  shows "PermissionsMode (RestrictToMode m es) = PermissionsMode es AND m"
  using validated_acl_has_objects [OF assms] Find_group_class [OF assms]
  by (simp add: PermissionsMode_pack RestrictToMode_def Let_def perm_at_upd_first obj_tags_distinct
      pack_mode_and [OF Validate_perm_at [OF assms] Validate_perm_at [OF assms] Validate_perm_at [OF assms]]
      del: not_None_eq)

lemma PermissionsMode_bound: "Validate es = Inr () \<Longrightarrow> PermissionsMode es AND NOT 0x1FF = 0"
  unfolding PermissionsMode_pack by (intro pack_mode_bound Validate_perm_at)

lemma and_mask_id:
  fixes p k :: u32
  assumes "p AND NOT k = 0"
  shows "p AND k = p"
proof -
  have "p AND k = (p AND k) OR (p AND NOT k)"
    by (simp only: assms or.right_neutral)
  also have "\<dots> = p"
    by (rule bit_word_eqI) (auto simp: bit_simps)
  finally show ?thesis .
qed

lemma PermissionsMode_masked [simp]: "Validate es = Inr () \<Longrightarrow> PermissionsMode es AND 0x1FF = PermissionsMode es"
  by (rule and_mask_id [OF PermissionsMode_bound])

lemma perm_and_mask: "(ucast (x AND 7 :: u32) :: u16) AND NOT 7 = 0" "(p :: u16) AND NOT 7 = 0 \<Longrightarrow> (p AND q) AND NOT 7 = 0"
  unfolding perm_bits unfolding mask_values by (simp_all add: bit_simps)

lemma Validate_ApplyMode: "Validate es = Inr () \<Longrightarrow> Validate (ApplyMode m es) = Inr ()"
  unfolding ApplyMode_def Let_def by (intro Validate_upd_first perm_and_mask)

lemma Validate_RestrictToMode: "Validate es = Inr () \<Longrightarrow> Validate (RestrictToMode m es) = Inr ()"
  unfolding RestrictToMode_def Let_def by (intro Validate_upd_first perm_and_mask)

lemma IsMinimal_mode [simp]:
  "IsMinimal (ApplyMode m es) = IsMinimal es" "IsMinimal (RestrictToMode m es) = IsMinimal es"
  by (simp_all add: ApplyMode_def RestrictToMode_def Let_def)

lemma mode_replace_low [simp]:
  fixes m p :: u32
  assumes "p AND NOT 0x1FF = 0"
  shows "((m AND NOT 0x1FF) OR p) AND 0x1FF = p"
proof -
  have "((m AND NOT 0x1FF) OR p) AND 0x1FF = p AND 0x1FF"
    unfolding mask_values by (rule bit_word_eqI) (auto simp: bit_simps)
  also have "\<dots> = p"
    by (rule and_mask_id [OF assms])
  finally show ?thesis .
qed

section \<open>The ACL invariant of an inode\<close>

text \<open>
  A stored access ACL is valid, extended (a minimal one is never stored) and agrees with the nine
  permission bits of the mode; a stored default ACL is valid and belongs to a directory.
\<close>

definition access_acl_ok :: "SwordFsInode \<Rightarrow> bool" where
  "access_acl_ok i \<longleftrightarrow> (case map_of (i_xattrs i) kPosixAclAccessXAttr of
      None \<Rightarrow> True
    | Some v \<Rightarrow> (case Parse v of Inl _ \<Rightarrow> False
        | Inr acl \<Rightarrow> \<not> IsMinimal acl \<and> PermissionsMode acl = i_mode i AND 0x1FF))"

definition default_acl_ok :: "SwordFsInode \<Rightarrow> bool" where
  "default_acl_ok i \<longleftrightarrow> (case map_of (i_xattrs i) kPosixAclDefaultXAttr of
      None \<Rightarrow> True
    | Some v \<Rightarrow> ok (Parse v) \<and> IsDir i)"

definition acl_inv :: "SwordFsInode \<Rightarrow> bool" where
  "acl_inv i \<longleftrightarrow> om_ok (i_xattrs i) \<and> access_acl_ok i \<and> default_acl_ok i"

lemma acl_names_distinct [simp]: "kPosixAclAccessXAttr \<noteq> kPosixAclDefaultXAttr" "kPosixAclDefaultXAttr \<noteq> kPosixAclAccessXAttr"
  by (simp_all add: kPosixAclAccessXAttr_def kPosixAclDefaultXAttr_def)

lemma acl_inv_Touch [simp]: "acl_inv (Touch now f i) = acl_inv i"
  by (auto simp: acl_inv_def access_acl_ok_def default_acl_ok_def split: option.splits sum.splits)

lemma IsDir_set_perm:
  assumes "p AND NOT 0x1FF = 0"
  shows "IsDir (set_mode ((i_mode i AND NOT 0x1FF) OR p) i) = IsDir i"
  using type_bits_perm [OF assms, of "i_mode i"] by (simp add: IsDir_def S_ISDIR_def)

lemma access_acl_okI:
  "\<lbrakk> Validate acl = Inr (); \<not> IsMinimal acl; map_of (i_xattrs i) kPosixAclAccessXAttr = Some (Serialize acl);
     PermissionsMode acl = i_mode i AND 0x1FF \<rbrakk> \<Longrightarrow> access_acl_ok i"
  by (simp add: access_acl_ok_def Parse_Serialize_acl)

lemma access_acl_ok_cong:
  "\<lbrakk> map_of (i_xattrs i) kPosixAclAccessXAttr = map_of (i_xattrs j) kPosixAclAccessXAttr;
     i_mode i AND 0x1FF = i_mode j AND 0x1FF \<rbrakk> \<Longrightarrow> access_acl_ok i = access_acl_ok j"
  by (simp add: access_acl_ok_def split: option.splits sum.splits)

lemma default_acl_ok_cong:
  "\<lbrakk> map_of (i_xattrs i) kPosixAclDefaultXAttr = map_of (i_xattrs j) kPosixAclDefaultXAttr; IsDir i = IsDir j \<rbrakk>
     \<Longrightarrow> default_acl_ok i = default_acl_ok j"
  by (simp add: default_acl_ok_def split: option.splits)

lemma access_acl_none: "map_of (i_xattrs i) kPosixAclAccessXAttr = None \<Longrightarrow> access_acl_ok i"
  by (simp add: access_acl_ok_def)

text \<open>The state change of a successful access ACL update, up to the new ctime.\<close>

definition put_access_acl :: "AclEntry list \<Rightarrow> SwordFsInode \<Rightarrow> SwordFsInode" where
  "put_access_acl acl i = (set_mode ((i_mode i AND NOT 0x1FF) OR PermissionsMode acl) i)
     \<lparr> i_xattrs := if IsMinimal acl then om_erase kPosixAclAccessXAttr (i_xattrs i)
            else om_set kPosixAclAccessXAttr (Serialize acl) (i_xattrs i) \<rparr>"

lemma put_access_acl_mode: "i_mode (put_access_acl acl i) = (i_mode i AND NOT 0x1FF) OR PermissionsMode acl"
  by (simp add: put_access_acl_def)

lemma put_access_acl_inv:
  assumes inv: "acl_inv i" and val: "Validate acl = Inr ()"
  shows "acl_inv (put_access_acl acl i)" (is "acl_inv ?k")
proof -
  have d: "IsDir ?k = IsDir i"
    using IsDir_set_perm [OF PermissionsMode_bound [OF val], of i] by (simp add: put_access_acl_def IsDir_def)
  have mode: "i_mode ?k AND 0x1FF = PermissionsMode acl"
    using mode_replace_low [OF PermissionsMode_bound [OF val], of "i_mode i"] by (simp add: put_access_acl_def)
  have "om_ok (i_xattrs ?k)"
    using inv by (simp add: acl_inv_def put_access_acl_def)
  moreover have "access_acl_ok ?k"
  proof (cases "IsMinimal acl")
    case True
    then show ?thesis
      by (intro access_acl_none) (simp add: put_access_acl_def)
  next
    case False
    then show ?thesis
      using inv mode by (intro access_acl_okI [OF val False]) (simp_all add: put_access_acl_def acl_inv_def)
  qed
  moreover have "default_acl_ok ?k = default_acl_ok i"
    using inv by (intro default_acl_ok_cong d) (simp add: put_access_acl_def acl_inv_def)
  ultimately show ?thesis
    using inv by (simp add: acl_inv_def)
qed

lemma set_default_acl_inv:
  assumes inv: "acl_inv i" and val: "ok (Parse v)" and d: "IsDir i"
  shows "acl_inv (i \<lparr> i_xattrs := om_set kPosixAclDefaultXAttr v (i_xattrs i) \<rparr>)" (is "acl_inv ?k")
proof -
  have "access_acl_ok ?k = access_acl_ok i"
    using inv by (intro access_acl_ok_cong) (simp_all add: acl_inv_def)
  moreover have "default_acl_ok ?k"
    using inv val d by (simp add: default_acl_ok_def acl_inv_def IsDir_def)
  ultimately show ?thesis
    using inv by (simp add: acl_inv_def)
qed

lemma SetPosixAclXAttr_cases:
  assumes "SetPosixAclXAttr now i name v md = Inr i'"
  obtains (access) acl where "name = kPosixAclAccessXAttr" "Parse v = Inr acl"
      "i' = Touch now fCtime (put_access_acl acl i)"
  | (default) acl where "name = kPosixAclDefaultXAttr" "Parse v = Inr acl" "IsDir i"
      "i' = Touch now fCtime (i \<lparr> i_xattrs := om_set kPosixAclDefaultXAttr (Serialize acl) (i_xattrs i) \<rparr>)"
  using assms
  by (cases "name = kPosixAclAccessXAttr")
    (auto simp: SetPosixAclXAttr_def chk_Inr_iff Let_def IsPosixAclXAttrName_def put_access_acl_def
      split: if_splits)

lemma remove_acl_inv:
  assumes "acl_inv i" "RemovePosixAclXAttr now i name = Inr i'"
  shows "acl_inv i'"
proof -
  let ?k = "i \<lparr> i_xattrs := om_erase name (i_xattrs i) \<rparr>"
  have i': "i' = Touch now fCtime ?k"
    using assms(2) by (auto simp: RemovePosixAclXAttr_def split: if_splits)
  have "access_acl_ok ?k"
  proof (cases "name = kPosixAclAccessXAttr")
    case True
    then show ?thesis
      by (intro access_acl_none) simp
  next
    case False
    then have "access_acl_ok ?k = access_acl_ok i"
      by (intro access_acl_ok_cong) simp_all
    then show ?thesis
      using assms(1) by (simp add: acl_inv_def)
  qed
  moreover have "default_acl_ok ?k"
    using assms(1) by (auto simp: acl_inv_def default_acl_ok_def IsDir_def split: option.splits)
  ultimately have "acl_inv ?k"
    using assms(1) by (simp add: acl_inv_def)
  then show ?thesis
    by (simp add: i')
qed

lemma sync_acl_inv:
  assumes inv: "acl_inv i" and type: "m AND S_IFMT = i_mode i AND S_IFMT"
  shows "\<exists>i'. SyncPosixAccessAclForMode (set_mode m i) m = Inr i' \<and> acl_inv i'
    \<and> i' = (set_mode m i) \<lparr> i_xattrs := i_xattrs i' \<rparr>
    \<and> (\<forall>n. n \<noteq> kPosixAclAccessXAttr \<longrightarrow> map_of (i_xattrs i') n = map_of (i_xattrs i) n)"
proof (cases "map_of (i_xattrs i) kPosixAclAccessXAttr")
  case None
  then have "access_acl_ok (set_mode m i)"
    by (intro access_acl_none) simp
  moreover have "default_acl_ok (set_mode m i) = default_acl_ok i"
    using type by (intro default_acl_ok_cong) (simp_all add: IsDir_def S_ISDIR_def)
  ultimately show ?thesis
    using None inv by (simp add: SyncPosixAccessAclForMode_def acl_inv_def)
next
  case (Some v)
  then obtain acl where acl: "Parse v = Inr acl" "\<not> IsMinimal acl"
    using inv by (auto simp: acl_inv_def access_acl_ok_def split: sum.splits)
  note val = Validate_ApplyMode [OF Parse_InrD(1) [OF acl(1)], of m]
  let ?k = "(set_mode m i) \<lparr> i_xattrs := om_set kPosixAclAccessXAttr (Serialize (ApplyMode m acl)) (i_xattrs i) \<rparr>"
  have "access_acl_ok ?k"
    using inv acl(2) PermissionsMode_ApplyMode [OF Parse_InrD(1) [OF acl(1)], of m]
    by (intro access_acl_okI [OF val]) (simp_all add: acl_inv_def)
  moreover have "default_acl_ok ?k = default_acl_ok i"
    using inv type by (intro default_acl_ok_cong) (simp_all add: acl_inv_def IsDir_def S_ISDIR_def)
  ultimately show ?thesis
    using Some inv acl by (simp add: SyncPosixAccessAclForMode_def ParseStoredAcl_def acl_inv_def)
qed

section \<open>Properties\<close>

text \<open>C28: \<open>PosixAcl::Parse\<close> and \<open>Serialize\<close> are inverse bijections between the xattr byte strings
  that \<open>Parse\<close> accepts and the entry lists that \<open>Validate\<close> accepts: a byte string parses to an ACL
  exactly when the ACL is valid and the byte string is its serialization.\<close>

theorem acl_parse_serialize_bijection:
  "Parse data = Inr acl \<longleftrightarrow> Validate acl = Inr () \<and> data = Serialize acl"
  using Parse_InrD Parse_Serialize_acl by blast

text \<open>C26: setting an ACL xattr keeps the ACL invariant of the inode (stored access ACL valid, extended
  and in agreement with the mode; stored default ACL valid and on a directory), and for the access ACL
  the permission bits of the new mode are exactly those of the ACL while all other mode bits stay.\<close>

theorem set_acl_keeps_invariant:
  assumes "acl_inv i" "SetPosixAclXAttr now i name v md = Inr i'"
  shows "acl_inv i' \<and> i_mode i' AND NOT 0x1FF = i_mode i AND NOT 0x1FF
    \<and> (if name = kPosixAclAccessXAttr then \<exists>acl. Parse v = Inr acl \<and> i_mode i' AND 0x1FF = PermissionsMode acl
       else i_mode i' = i_mode i)"
  using assms(2)
proof (cases rule: SetPosixAclXAttr_cases)
  case (access acl)
  note val = Parse_InrD(1) [OF access(2)]
  have "((i_mode i AND NOT 0x1FF) OR PermissionsMode acl) AND NOT 0x1FF = i_mode i AND NOT 0x1FF"
    using PermissionsMode_bound [OF val] by (simp add: bit.conj_disj_distrib2)
  then show ?thesis
    using access put_access_acl_inv [OF assms(1) val] mode_replace_low [OF PermissionsMode_bound [OF val], of "i_mode i"]
    by (simp add: put_access_acl_mode)
next
  case (default acl)
  then show ?thesis
    using set_default_acl_inv [OF assms(1)] Parse_Serialize_acl [OF Parse_InrD(1) [OF default(2)]] by simp
qed

text \<open>A file with mode \<open>0644\<close> and an ACL that gives the named user 1000 read and write access under a
  mask.\<close>

definition ex_file :: SwordFsInode where
  "ex_file = new_inode 5 (new_attr 100 5 0x81A4 0 0) 1 []"

definition ex_acl :: "AclEntry list" where
  "ex_acl = [\<lparr> acl_tag = kAclUserObj, acl_perm = 6, acl_id = kAclUndefinedId \<rparr>,
     \<lparr> acl_tag = kAclUser, acl_perm = 6, acl_id = 1000 \<rparr>,
     \<lparr> acl_tag = kAclGroupObj, acl_perm = 4, acl_id = kAclUndefinedId \<rparr>,
     \<lparr> acl_tag = kAclMask, acl_perm = 6, acl_id = kAclUndefinedId \<rparr>,
     \<lparr> acl_tag = kAclOther, acl_perm = 4, acl_id = kAclUndefinedId \<rparr>]"

theorem set_acl_keeps_invariant_witness:
  "\<exists>i'. acl_inv ex_file \<and> SetPosixAclXAttr 7 ex_file kPosixAclAccessXAttr (Serialize ex_acl) kUpsert = Inr i'
     \<and> acl_inv i' \<and> i_xattrs i' \<noteq> []"
proof -
  have inv: "acl_inv ex_file" and v: "Validate ex_acl = Inr ()" and s: "\<not> IsSymlink ex_file"
    and m: "\<not> IsMinimal ex_acl" "length ex_acl = 5" and n: "length kPosixAclAccessXAttr = 23"
    by code_simp+
  have x: "i_xattrs ex_file = []"
    by (simp add: ex_file_def new_inode_def)
  have "\<exists>i'. SetPosixAclXAttr 7 ex_file kPosixAclAccessXAttr (Serialize ex_acl) kUpsert = Inr i' \<and> i_xattrs i' \<noteq> []"
    using s m n x by (simp add: SetPosixAclXAttr_def IsPosixAclXAttrName_def Parse_Serialize_acl [OF v]
        CheckSetMode_def Let_def kMaxXAttrValueSize_def CheckInsertListSize_def list_bytes_def kMaxXAttrListSize_def)
  then show ?thesis
    using set_acl_keeps_invariant [OF inv] inv by blast
qed

text \<open>C27: a chmod of an inode that satisfies the ACL invariant always synchronises. For a new mode with the
  same file type, \<open>SyncPosixAccessAclForMode\<close> succeeds, the invariant holds again (a stored access ACL now
  projects to the permission bits of the new mode), and nothing but the mode and the ACL value changes.\<close>

theorem chmod_sync_keeps_invariant:
  assumes "acl_inv i" "m AND S_IFMT = i_mode i AND S_IFMT"
  shows "\<exists>i'. SyncPosixAccessAclForMode (set_mode m i) m = Inr i' \<and> acl_inv i'
    \<and> i' = (set_mode m i) \<lparr> i_xattrs := i_xattrs i' \<rparr>
    \<and> (\<forall>n. n \<noteq> kPosixAclAccessXAttr \<longrightarrow> map_of (i_xattrs i') n = map_of (i_xattrs i) n)"
  using sync_acl_inv [OF assms] .

definition ex_acl_file :: SwordFsInode where
  "ex_acl_file = put_access_acl ex_acl ex_file"

lemma ex_acl_file_inv: "acl_inv ex_acl_file"
proof -
  have "acl_inv ex_file" "Validate ex_acl = Inr ()"
    by code_simp+
  then show ?thesis
    unfolding ex_acl_file_def by (rule put_access_acl_inv)
qed

theorem chmod_sync_keeps_invariant_witness:
  "acl_inv ex_acl_file \<and> (0x81C0 :: u32) AND S_IFMT = i_mode ex_acl_file AND S_IFMT
   \<and> (\<exists>i'. SyncPosixAccessAclForMode (set_mode 0x81C0 ex_acl_file) 0x81C0 = Inr i' \<and> acl_inv i' \<and> i_mode i' = 0x81C0)"
proof -
  have t: "(0x81C0 :: u32) AND S_IFMT = i_mode ex_acl_file AND S_IFMT"
    by code_simp
  obtain i' where i': "SyncPosixAccessAclForMode (set_mode 0x81C0 ex_acl_file) 0x81C0 = Inr i'" "acl_inv i'"
    and eq: "i' = (set_mode 0x81C0 ex_acl_file) \<lparr> i_xattrs := i_xattrs i' \<rparr>"
    using chmod_sync_keeps_invariant [OF ex_acl_file_inv t] by blast
  have "i_mode i' = 0x81C0"
    by (subst eq) simp
  with i' show ?thesis
    using ex_acl_file_inv t by blast
qed

lemma no_acl_inv: "i_xattrs i = [] \<Longrightarrow> acl_inv i"
  by (simp add: acl_inv_def access_acl_ok_def default_acl_ok_def)

lemma mode_without_new_bits:
  fixes m p :: u32
  shows "p AND NOT 0x1FF = 0 \<Longrightarrow> ((m AND NOT 0x1FF) OR p) AND NOT 0x1FF = m AND NOT 0x1FF"
    and "((m AND NOT 0x1FF) OR (p AND m)) AND NOT m = 0"
proof -
  assume p: "p AND NOT 0x1FF = 0"
  have "((m AND NOT 0x1FF) OR p) AND NOT 0x1FF = (m AND NOT 0x1FF) OR (p AND NOT 0x1FF)"
    unfolding mask_values by (rule bit_word_eqI) (auto simp: bit_simps)
  then show "((m AND NOT 0x1FF) OR p) AND NOT 0x1FF = m AND NOT 0x1FF"
    by (simp only: p or.right_neutral)
next
  show "((m AND NOT 0x1FF) OR (p AND m)) AND NOT m = 0"
    unfolding mask_values by (rule bit_word_eqI) (auto simp: bit_simps)
qed

lemma create_inheritance:
  assumes "acl_inv parent" "i_xattrs child = []"
  shows "\<exists>c. ApplyPosixAclCreateInheritance parent umask child = Inr c \<and> acl_inv c
    \<and> i_mode c AND NOT 0x1FF = i_mode child AND NOT 0x1FF
    \<and> i_mode c AND NOT (i_mode child) = 0
    \<and> (IsDir child \<and> map_of (i_xattrs parent) kPosixAclDefaultXAttr \<noteq> None \<longrightarrow>
         map_of (i_xattrs c) kPosixAclDefaultXAttr = map_of (i_xattrs parent) kPosixAclDefaultXAttr)"
proof (cases "IsSymlink child \<or> map_of (i_xattrs parent) kPosixAclDefaultXAttr = None")
  case True
  let ?p = "(i_mode child AND 0x1FF) AND NOT umask"
  have "?p AND NOT 0x1FF = 0" "?p = (0x1FF AND NOT umask) AND i_mode child"
    unfolding mask_values by (auto intro!: bit_word_eqI simp: bit_simps)
  then show ?thesis
    using True assms(2) mode_without_new_bits(1) [of ?p "i_mode child"]
      mode_without_new_bits(2) [of "i_mode child" "0x1FF AND NOT umask"]
    by (auto simp: ApplyPosixAclCreateInheritance_def no_acl_inv IsDir_def S_ISDIR_def IsSymlink_def S_ISLNK_def
        S_IFDIR_def S_IFLNK_def)
next
  case False
  then obtain v acl0 where v: "map_of (i_xattrs parent) kPosixAclDefaultXAttr = Some v" and p: "Parse v = Inr acl0"
    using assms(1) by (auto simp: acl_inv_def default_acl_ok_def ok_def split: sum.splits)
  let ?acl = "RestrictToMode (i_mode child) acl0" and ?def = "\<lambda>i. i \<lparr> i_xattrs := om_set kPosixAclDefaultXAttr v (i_xattrs i) \<rparr>"
  note val = Validate_RestrictToMode [OF Parse_InrD(1) [OF p], of "i_mode child"]
  let ?k = "put_access_acl ?acl child"
  have inv: "acl_inv ?k"
    using val assms(2) by (intro put_access_acl_inv no_acl_inv) simp_all
  have eq: "ApplyPosixAclCreateInheritance parent umask child = Inr (if IsDir ?k then ?def ?k else ?k)"
    using False v p assms(2)
    by (simp add: ApplyPosixAclCreateInheritance_def Let_def put_access_acl_def om_erase_def IsDir_def)
  have mode: "i_mode ?k = (i_mode child AND NOT 0x1FF) OR (PermissionsMode acl0 AND i_mode child)"
    by (simp add: put_access_acl_mode PermissionsMode_RestrictToMode [OF Parse_InrD(1) [OF p]])
  have "i_mode ?k AND NOT 0x1FF = i_mode child AND NOT 0x1FF"
    unfolding put_access_acl_mode by (rule mode_without_new_bits(1) [OF PermissionsMode_bound [OF val]])
  moreover have "i_mode ?k AND NOT (i_mode child) = 0"
    unfolding mode by (rule mode_without_new_bits(2))
  moreover have dir: "IsDir ?k = IsDir child"
    using IsDir_set_perm [OF PermissionsMode_bound [OF val], of child] by (simp add: put_access_acl_def IsDir_def)
  moreover have "om_ok (i_xattrs ?k)"
    using inv by (simp add: acl_inv_def)
  ultimately show ?thesis
    using eq set_default_acl_inv [OF inv, of v] inv p v by auto
qed

text \<open>C25: create-time inheritance. If the parent satisfies the ACL invariant, a new inode without xattrs
  always gets its permissions resolved: the result satisfies the invariant, keeps every mode bit outside
  the nine permission bits, never gains a permission the caller did not request, and a directory created
  under a default ACL inherits exactly that default ACL.\<close>

theorem create_inheritance_sound:
  assumes "acl_inv parent" "i_xattrs child = []"
  shows "\<exists>c. ApplyPosixAclCreateInheritance parent umask child = Inr c \<and> acl_inv c
    \<and> i_mode c AND NOT 0x1FF = i_mode child AND NOT 0x1FF
    \<and> i_mode c AND NOT (i_mode child) = 0
    \<and> (IsDir child \<and> map_of (i_xattrs parent) kPosixAclDefaultXAttr \<noteq> None \<longrightarrow>
         map_of (i_xattrs c) kPosixAclDefaultXAttr = map_of (i_xattrs parent) kPosixAclDefaultXAttr)"
  by (rule create_inheritance [OF assms])

definition ex_dir :: SwordFsInode where
  "ex_dir = (new_inode 2 (new_attr 100 2 0x41ED 0 0) 1 []) \<lparr> i_xattrs := [(kPosixAclDefaultXAttr, Serialize ex_acl)] \<rparr>"

theorem create_inheritance_sound_witness:
  "acl_inv ex_dir \<and> i_xattrs ex_file = [] \<and>
   (\<exists>c. ApplyPosixAclCreateInheritance ex_dir 0x12 ex_file = Inr c \<and> acl_inv c \<and> i_mode c AND NOT (i_mode ex_file) = 0)"
proof -
  have "Parse (Serialize ex_acl) = Inr ex_acl"
    by (rule Parse_Serialize_acl) code_simp
  moreover have "IsDir ex_dir"
    by code_simp
  ultimately have d: "acl_inv ex_dir"
    by (simp add: acl_inv_def access_acl_ok_def default_acl_ok_def ex_dir_def)
  have x: "i_xattrs ex_file = []"
    by (simp add: ex_file_def new_inode_def)
  show ?thesis
    using create_inheritance_sound [OF d x, of "0x12"] d x by blast
qed

end
