(* ===== verification/Inode.thy ===== *)
theory Inode
  imports BufCodec PosixAcl
begin

text \<open>
  The operations of \<open>SwordFsInode\<close> (\<open>metadata/types/Inode.cpp\<close>): extended attributes and the persisted
  form of the record. \<open>inode_ok\<close> is the well-formedness predicate of a persisted inode; the xattr
  operations keep it and \<open>SerializeTo\<close>/\<open>ParseFrom\<close> are inverse on it. The locale \<open>record_store\<close> is the
  contract that every persisted record type of the repository offers; it is reused by the theory
  \<open>Records\<close>.
\<close>

section \<open>Extended attributes\<close>

definition SetXAttr :: "i64 \<Rightarrow> SwordFsInode \<Rightarrow> bytes \<Rightarrow> bytes \<Rightarrow> XAttrSetMode \<Rightarrow> SwordFsInode res" where
  "SetXAttr now inode name v mode =
    (if IsPosixAclXAttrName name then SetPosixAclXAttr now inode name v mode
     else if name = [] then Inl kInvalidArgument
     else if length name > kMaxXAttrNameLength then Inl kRange
     else if length v > kMaxXAttrValueSize then Inl kRange
     else let found = (map_of (i_xattrs inode) name \<noteq> None) in
       if mode = kCreateOnly \<and> found then Inl kAlreadyExists
       else if mode = kReplaceOnly \<and> \<not> found then Inl kNoData
       else if \<not> found \<and> list_bytes name (i_xattrs inode) > kMaxXAttrListSize then Inl kRange
       else Inr (Touch now fCtime (inode \<lparr> i_xattrs := om_set name v (i_xattrs inode) \<rparr>)))"

definition GetXAttr :: "SwordFsInode \<Rightarrow> bytes \<Rightarrow> bytes res" where
  "GetXAttr inode name =
    (if length name > kMaxXAttrNameLength then Inl kRange
     else case map_of (i_xattrs inode) name of None \<Rightarrow> Inl kNoData | Some v \<Rightarrow> Inr v)"

definition ListXAttrs :: "SwordFsInode \<Rightarrow> bytes list res" where
  "ListXAttrs inode = Inr (map fst (i_xattrs inode))"

definition RemoveXAttr :: "i64 \<Rightarrow> SwordFsInode \<Rightarrow> bytes \<Rightarrow> SwordFsInode res" where
  "RemoveXAttr now inode name =
    (if IsPosixAclXAttrName name then RemovePosixAclXAttr now inode name
     else if length name > kMaxXAttrNameLength then Inl kRange
     else if map_of (i_xattrs inode) name = None then Inl kNoData
     else Inr (Touch now fCtime (inode \<lparr> i_xattrs := om_erase name (i_xattrs inode) \<rparr>)))"

section \<open>The persisted record\<close>

definition enc_xattrs :: "folly_io \<Rightarrow> (bytes, bytes) omap \<Rightarrow> bytes" where
  "enc_xattrs F xs = concat (map (\<lambda>p. enc_String F (fst p) @ enc_String F (snd p)) xs)"

definition inode_SerializeTo :: "folly_io \<Rightarrow> SwordFsInode \<Rightarrow> bytes res" where
  "inode_SerializeTo F i =
    (if i_ino i = 0 then Inl kInvalidArgument
     else Inr (enc_Header F rtInode @ enc_U64 F (i_ino i) @ enc_Attr F (i_attr i) @ enc_U64 F (i_parent_ino i)
       @ enc_String F (i_symlink_target i) @ enc_U64 F (of_nat (length (i_xattrs i)))
       @ enc_xattrs F (i_xattrs i)))"

text \<open>The loop over \<open>xattr_count\<close>; the first argument is the number of iterations left.\<close>

fun parse_xattrs :: "folly_io \<Rightarrow> nat \<Rightarrow> (bytes, bytes) omap \<Rightarrow> decoder \<Rightarrow> ((bytes, bytes) omap \<times> decoder) res" where
  "parse_xattrs F 0 m d = Inr (m, d)"
| "parse_xattrs F (Suc n) m d =
    (case dec_String F d of
       (None, _) \<Rightarrow> Inl kMalformed
     | (Some name, d) \<Rightarrow>
         (case dec_String F d of
            (None, _) \<Rightarrow> Inl kMalformed
          | (Some v, d) \<Rightarrow>
              if name = [] then Inl kMalformed
              else (case om_emplace name v m of
                  (inserted, m) \<Rightarrow> if \<not> inserted then Inl kMalformed else parse_xattrs F n m d)))"

text \<open>Reads whose result is ignored keep a default-constructed value; the sticky flag decides.\<close>

definition inode_ParseFrom :: "folly_io \<Rightarrow> bytes \<Rightarrow> SwordFsInode res" where
  "inode_ParseFrom F data =
    (let d = snd (dec_Header F rtInode (new_decoder data));
         (ino, d) = into 0 (dec_U64 F d);
         (attr, d) = into attr0 (dec_Attr F d);
         (parent_ino, d) = into 0 (dec_U64 F d);
         (symlink_target, d) = into [] (dec_String F d);
         (xattr_count, d) = into 0 (dec_U64 F d)
     in chk (parse_xattrs F (unat xattr_count) [] d) (\<lambda>(xattrs, d).
          if failed d \<or> ino = 0 then Inl kMalformed
          else if \<not> Done F d then Inl kMalformed
          else if a_ino attr \<noteq> ino then Inl kMalformed
          else Inr \<lparr> i_ino = ino, i_attr = attr, i_parent_ino = parent_ino,
                 i_symlink_target = symlink_target, i_xattrs = xattrs \<rparr>))"

section \<open>Well-formedness\<close>

definition xattrs_ok :: "(bytes, bytes) omap \<Rightarrow> bool" where
  "xattrs_ok xs \<longleftrightarrow> om_ok xs \<and> length xs < 2 ^ 64
     \<and> (\<forall>p\<in>set xs. fst p \<noteq> [] \<and> string_ok (fst p) \<and> string_ok (snd p))"

definition inode_ok :: "SwordFsInode \<Rightarrow> bool" where
  "inode_ok i \<longleftrightarrow> i_ino i \<noteq> 0 \<and> a_ino (i_attr i) = i_ino i \<and> attr_ok (i_attr i)
     \<and> string_ok (i_symlink_target i) \<and> xattrs_ok (i_xattrs i)"

section \<open>The contract of a persisted record type\<close>

locale record_store =
  fixes ser :: "'r \<Rightarrow> bytes res"
    and parse :: "bytes \<Rightarrow> 'r res"
    and wf :: "'r \<Rightarrow> bool"
  assumes parse_ser: "wf r \<Longrightarrow> \<exists>b. ser r = Inr b \<and> parse b = Inr r"
    and parse_wf: "parse b = Inr r \<Longrightarrow> wf r"
    and parse_err: "parse b = Inl e \<Longrightarrow> e = kMalformed"
begin

lemma ser_inj: "\<lbrakk> wf r; wf s; ser r = ser s \<rbrakk> \<Longrightarrow> r = s"
  using parse_ser [of r] parse_ser [of s] by auto

lemma reparse: "parse b = Inr r \<Longrightarrow> \<exists>b'. ser r = Inr b' \<and> parse b' = Inr r"
  using parse_ser parse_wf by blast

lemma ser_parse: "\<lbrakk> wf r; ser r = Inr b \<rbrakk> \<Longrightarrow> parse b = Inr r"
  using parse_ser by fastforce

end

section \<open>Lemmas: codec of the record\<close>

context folly_cursor
begin

lemma hdr_step [codec_simps]:
  "snd (dec_Header F t \<lparr> rest = enc_Header F t @ r, failed = b \<rparr>) = \<lparr> rest = r, failed = b \<rparr>"
  using hdr.dec_enc [where t=t and v="()" and r=r and b=b] by simp

lemma hdr_not_failed:
  assumes "\<not> failed (snd (dec_Header F t d))"
  shows "rest d = enc_Header F t @ rest (snd (dec_Header F t d)) \<and> \<not> failed d"
proof (cases "dec_Header F t d")
  case (Pair x d')
  then show ?thesis
    using hdr.dec_not_failed [OF Pair] assms by auto
qed

lemma parse_xattrs_iff:
  assumes "om_ok m"
  shows "parse_xattrs F n m d = Inr (m', d') \<longleftrightarrow> (\<exists>xs. length xs = n \<and> rest d = enc_xattrs F xs @ rest d' \<and> failed d' = failed d
     \<and> distinct (map fst xs) \<and> (\<forall>p\<in>set xs. fst p \<noteq> [] \<and> string_ok (fst p) \<and> string_ok (snd p) \<and> map_of m (fst p) = None)
     \<and> om_ok m' \<and> set m' = set m \<union> set xs)"
  using assms
proof (induction n arbitrary: m d)
  case 0
  have "m' = m" if "om_ok m'" "set m' = set m"
  proof (rule om_ok_eqI [OF that(1) 0])
    have "map_of m' k = Some v \<longleftrightarrow> map_of m k = Some v" for k v
      using that 0 by (simp add: om_ok_Some_iff)
    then show "map_of m' = map_of m"
      by (metis ext not_None_eq)
  qed
  then show ?case
    using 0 by (cases d; cases d') (auto simp: enc_xattrs_def)
next
  case (Suc n)
  have new: "map_of (om_set k v m) = (map_of m)(k \<mapsto> v)" "om_ok (om_set k v m)" for k v
    using Suc.prems by simp_all
  have ins: "set (om_set k v m) = insert (k, v) (set m)" if "map_of m k = None" for k v
    using that Suc.prems by (auto simp: set_om_set map_of_eq_None_iff)
  have "parse_xattrs F (Suc n) m d = Inr (m', d') \<longleftrightarrow> (\<exists>name v d1 d2. dec_String F d = (Some name, d1) \<and> dec_String F d1 = (Some v, d2)
      \<and> name \<noteq> [] \<and> map_of m name = None \<and> parse_xattrs F n (om_set name v m) d2 = Inr (m', d'))"
    by (auto simp: om_emplace_def split: prod.splits option.splits if_splits)
  also have "\<dots> \<longleftrightarrow> (\<exists>name v xs. length xs = n \<and> rest d = enc_xattrs F ((name, v) # xs) @ rest d' \<and> failed d' = failed d
      \<and> distinct (map fst ((name, v) # xs)) \<and> (\<forall>p\<in>set ((name, v) # xs). fst p \<noteq> [] \<and> string_ok (fst p) \<and> string_ok (snd p) \<and> map_of m (fst p) = None)
      \<and> om_ok m' \<and> set m' = set m \<union> set ((name, v) # xs))" (is "?L \<longleftrightarrow> ?R")
  proof
    assume ?L
    then show ?R
      unfolding str.dec_Some_iff
      by (elim exE conjE) (simp add: Suc.IH [OF new(2)] new(1) ins, elim exE conjE, intro exI conjI, auto simp: enc_xattrs_def split: if_splits)
  next
    assume ?R
    then obtain name v xs where x: "length xs = n" "rest d = enc_String F name @ enc_String F v @ enc_xattrs F xs @ rest d'" "failed d' = failed d"
        "name \<notin> fst ` set xs" "distinct (map fst xs)" "name \<noteq> []" "string_ok name" "string_ok v" "map_of m name = None"
        "\<forall>p\<in>set xs. fst p \<noteq> [] \<and> string_ok (fst p) \<and> string_ok (snd p) \<and> map_of m (fst p) = None" "om_ok m'" "set m' = insert (name, v) (set m \<union> set xs)"
      by (auto simp: enc_xattrs_def)
    let ?d1 = "\<lparr>rest = enc_String F v @ enc_xattrs F xs @ rest d', failed = failed d\<rparr>" and ?d2 = "\<lparr>rest = enc_xattrs F xs @ rest d', failed = failed d\<rparr>"
    have "parse_xattrs F n (om_set name v m) ?d2 = Inr (m', d')"
      unfolding Suc.IH [OF new(2)] new(1) ins [OF x(9)] using x by (intro exI [of _ xs]) auto
    moreover have "dec_String F d = (Some name, ?d1)" "dec_String F ?d1 = (Some v, ?d2)"
      using x by (simp_all add: str.dec_Some_iff)
    ultimately show ?L
      using x(6,9) by (intro exI [of _ name] exI [of _ v] exI [of _ ?d1] exI [of _ ?d2] conjI)
  qed
  also have "\<dots> \<longleftrightarrow> (\<exists>xs. length xs = Suc n \<and> rest d = enc_xattrs F xs @ rest d' \<and> failed d' = failed d
     \<and> distinct (map fst xs) \<and> (\<forall>p\<in>set xs. fst p \<noteq> [] \<and> string_ok (fst p) \<and> string_ok (snd p) \<and> map_of m (fst p) = None)
     \<and> om_ok m' \<and> set m' = set m \<union> set xs)" (is "_ \<longleftrightarrow> (\<exists>xs. ?P xs)")
  proof -
    have "(\<exists>xs. ?P xs) \<longleftrightarrow> (\<exists>name v xs. ?P ((name, v) # xs))"
    proof
      assume "\<exists>xs. ?P xs"
      then obtain xs where P: "?P xs" ..
      then obtain name v ys where "xs = (name, v) # ys"
        by (auto simp: length_Suc_conv)
      then show "\<exists>name v xs. ?P ((name, v) # xs)"
        using P by blast
    qed blast
    then show ?thesis
      by simp
  qed
  finally show ?case .
qed

text \<open>What \<open>ParseFrom\<close> accepts: the serialization of a well-formed inode, with the extended attributes in any order.\<close>

lemma inode_parse_iff:
  "inode_ParseFrom F b = Inr i \<longleftrightarrow> inode_ok i \<and> (\<exists>xs. distinct (map fst xs) \<and> set xs = set (i_xattrs i)
     \<and> inode_SerializeTo F (i\<lparr>i_xattrs := xs\<rparr>) = Inr b)"
proof
  let ?d0 = "snd (dec_Header F rtInode (new_decoder b))"
  assume "inode_ParseFrom F b = Inr i"
  then obtain ino d1 at d2 pa d3 sy d4 n d5 ys d6 where
    s: "into 0 (dec_U64 F ?d0) = (ino, d1)" "into attr0 (dec_Attr F d1) = (at, d2)"
      "into 0 (dec_U64 F d2) = (pa, d3)" "into [] (dec_String F d3) = (sy, d4)"
      "into 0 (dec_U64 F d4) = (n, d5)"
    and x: "parse_xattrs F (unat n) [] d5 = Inr (ys, d6)"
    and ok: "\<not> failed d6" "Done F d6" "ino \<noteq> 0" "a_ino at = ino"
    and i: "i = \<lparr> i_ino = ino, i_attr = at, i_parent_ino = pa, i_symlink_target = sy, i_xattrs = ys \<rparr>"
    by (auto simp: inode_ParseFrom_def Let_def chk_Inr_iff split: prod.splits if_splits)
  obtain xs where xs: "length xs = unat n" "rest d5 = enc_xattrs F xs @ rest d6" "failed d6 = failed d5" "distinct (map fst xs)"
      "\<forall>p\<in>set xs. fst p \<noteq> [] \<and> string_ok (fst p) \<and> string_ok (snd p)" "om_ok ys" "set ys = set xs"
    using x by (auto simp: parse_xattrs_iff)
  have "unat n < 2 ^ LENGTH(64)"
    by (rule unsigned_less)
  then have len: "length xs < 2 ^ 64" "length ys = length xs"
    using om_ok_distinct [OF xs(6)] xs(1,4,7) by (simp_all add: distinct_map flip: distinct_card)
  note nf = xs(3) u64.into_not_failed [OF s(5)] str.into_not_failed [OF s(4)] u64.into_not_failed [OF s(3)]
    attr.into_not_failed [OF s(2)] u64.into_not_failed [OF s(1)] hdr_not_failed [where d="new_decoder b" and t=rtInode]
  have "rest (new_decoder b) = b" "\<not> failed (new_decoder b)" "rest d6 = []"
    using ok(2) by (simp_all add: new_decoder_def Done_def atEnd_iff)
  then have "inode_ok i" "inode_SerializeTo F (i\<lparr>i_xattrs := xs\<rparr>) = Inr b"
    using ok nf xs len by (auto simp: i inode_ok_def xattrs_ok_def inode_SerializeTo_def)
  then show "inode_ok i \<and> (\<exists>xs. distinct (map fst xs) \<and> set xs = set (i_xattrs i) \<and> inode_SerializeTo F (i\<lparr>i_xattrs := xs\<rparr>) = Inr b)"
    using xs(4,7) by (auto simp: i)
next
  assume "inode_ok i \<and> (\<exists>xs. distinct (map fst xs) \<and> set xs = set (i_xattrs i) \<and> inode_SerializeTo F (i\<lparr>i_xattrs := xs\<rparr>) = Inr b)"
  then obtain xs where i: "inode_ok i" and xs: "distinct (map fst xs)" "set xs = set (i_xattrs i)" "inode_SerializeTo F (i\<lparr>i_xattrs := xs\<rparr>) = Inr b"
    by blast
  have ok: "i_ino i \<noteq> 0" "a_ino (i_attr i) = i_ino i" "attr_ok (i_attr i)" "string_ok (i_symlink_target i)"
    and x: "om_ok (i_xattrs i)" "length (i_xattrs i) < 2 ^ 64"
      "\<forall>p\<in>set (i_xattrs i). fst p \<noteq> [] \<and> string_ok (fst p) \<and> string_ok (snd p)"
    using i by (simp_all add: inode_ok_def xattrs_ok_def)
  have "length xs = length (i_xattrs i)"
    using om_ok_distinct [OF x(1)] xs(1,2) by (metis distinct_card distinct_map)
  then have n: "unat (of_nat (length xs) :: u64) = length xs"
    using x(2) by (simp add: unat_of_nat take_bit_eq_mod)
  have "parse_xattrs F (length xs) [] \<lparr>rest = enc_xattrs F xs, failed = False\<rparr> = Inr (i_xattrs i, \<lparr>rest = [], failed = False\<rparr>)"
    using xs x by (subst parse_xattrs_iff) auto
  then show "inode_ParseFrom F b = Inr i"
    using ok xs(3) by (auto simp: inode_SerializeTo_def inode_ParseFrom_def new_decoder_def codec_simps u64.into_enc
        attr.into_enc str.into_enc n Done_def atEnd_iff)
qed

lemma inode_parse_ok: "inode_ParseFrom F b = Inr i \<Longrightarrow> inode_ok i"
  by (simp add: inode_parse_iff)

lemma inode_parse_ser: "inode_ok i \<Longrightarrow> \<exists>b. inode_SerializeTo F i = Inr b \<and> inode_ParseFrom F b = Inr i"
  unfolding inode_parse_iff
  by (auto simp: inode_SerializeTo_def inode_ok_def xattrs_ok_def dest: om_ok_distinct intro!: exI [of _ "i_xattrs i"])

lemma parse_xattrs_err: "parse_xattrs F n m d = Inl e \<Longrightarrow> e = kMalformed"
  by (induction n arbitrary: m d) (auto split: prod.splits option.splits if_splits)

lemma inode_parse_err: "inode_ParseFrom F b = Inl e \<Longrightarrow> e = kMalformed"
  by (auto simp: inode_ParseFrom_def Let_def chk_Inl_iff dest: parse_xattrs_err split: prod.splits if_splits)

end

sublocale folly_cursor \<subseteq> inode_rec: record_store "inode_SerializeTo F" "inode_ParseFrom F" inode_ok
  using inode_parse_ser inode_parse_ok inode_parse_err by unfold_locales

section \<open>Lemmas: extended attributes\<close>

lemma foldl_plus_sum: "foldl (\<lambda>acc p. acc + f p) (a :: nat) xs = a + sum_list (map f xs)"
  by (induction xs arbitrary: a) simp_all

lemma list_bytes_sum: "list_bytes name xs = length name + 1 + sum_list (map (\<lambda>p. length (fst p) + 1) xs)"
  by (simp only: list_bytes_def foldl_plus_sum)

lemma length_le_list_bytes: "length xs < list_bytes name xs"
proof -
  have "length xs \<le> sum_list (map (\<lambda>p. length (fst p) + 1) xs)"
    by (induction xs) simp_all
  then show ?thesis
    by (simp add: list_bytes_sum)
qed

lemma xattrs_ok_set:
  assumes "xattrs_ok xs" "name \<noteq> []" "string_ok name" "string_ok v"
    and "map_of xs name = None \<Longrightarrow> list_bytes name xs \<le> kMaxXAttrListSize"
  shows "xattrs_ok (om_set name v xs)"
proof -
  have "length (om_set name v xs) < 2 ^ 64"
    using assms(1,5) length_le_list_bytes [of xs name]
    by (auto simp: xattrs_ok_def length_om_set kMaxXAttrListSize_def)
  then show ?thesis
    using assms by (auto simp: xattrs_ok_def set_om_set)
qed

lemma xattrs_ok_erase: "xattrs_ok xs \<Longrightarrow> xattrs_ok (om_erase name xs)"
  using length_om_erase [of name xs] by (auto simp: xattrs_ok_def set_om_erase)

lemma attr_ok_Touch: "attr_ok (i_attr i) \<Longrightarrow> attr_ok (i_attr (Touch now f i))"
  using Touch_nsec [of now f i] by (auto simp: attr_ok_def nsec_bad_def)

lemma inode_ok_Touch: "inode_ok i \<Longrightarrow> inode_ok (Touch now f i)"
  using attr_ok_Touch by (simp add: inode_ok_def)

lemma attr_ok_mode [simp]: "attr_ok (a \<lparr> a_mode := m \<rparr>) = attr_ok a"
  by (simp add: attr_ok_def)

lemma inode_ok_update:
  "\<lbrakk> inode_ok i; xattrs_ok xs \<rbrakk> \<Longrightarrow> inode_ok (i \<lparr> i_xattrs := xs \<rparr>)"
  "inode_ok i \<Longrightarrow> inode_ok (set_mode m i)"
  by (simp_all add: inode_ok_def)

lemma string_ok_small: "length s \<le> 64 * 1024 \<Longrightarrow> string_ok s"
  by (simp add: string_ok_def)

lemma acl_names_ok: "IsPosixAclXAttrName name \<Longrightarrow> name \<noteq> [] \<and> string_ok name"
  by (auto simp: IsPosixAclXAttrName_def kPosixAclAccessXAttr_def kPosixAclDefaultXAttr_def intro!: string_ok_small)

lemma SetPosixAclXAttr_ok:
  assumes i: "inode_ok i" and set: "SetPosixAclXAttr now i name v md = Inr i'"
  shows "inode_ok i'"
proof -
  have n: "IsPosixAclXAttrName name" and v: "length v \<le> kMaxXAttrValueSize"
    using set by (auto simp: SetPosixAclXAttr_def split: if_splits)
  have room: "xattrs_ok (om_set name v (i_xattrs i))"
    if "map_of (i_xattrs i) name = None \<Longrightarrow> list_bytes name (i_xattrs i) \<le> kMaxXAttrListSize"
    using i v acl_names_ok [OF n] that
    by (intro xattrs_ok_set) (auto simp: inode_ok_def kMaxXAttrValueSize_def intro: string_ok_small)
  show ?thesis
    using set
  proof (cases rule: SetPosixAclXAttr_cases)
    case (access acl)
    have v': "Serialize acl = v"
      by (rule Parse_InrD(2) [OF access(2)])
    have "\<not> IsMinimal acl \<Longrightarrow> xattrs_ok (om_set name v (i_xattrs i))"
      using set access(1,2) room
      by (auto simp: SetPosixAclXAttr_def CheckInsertListSize_def chk_Inr_iff Let_def split: if_splits)
    moreover have "xattrs_ok (om_erase name (i_xattrs i))"
      using i by (intro xattrs_ok_erase) (simp add: inode_ok_def)
    ultimately show ?thesis
      using i access v' unfolding put_access_acl_def
      by (auto intro!: inode_ok_Touch inode_ok_update)
  next
    case (default acl)
    have v': "Serialize acl = v"
      by (rule Parse_InrD(2) [OF default(2)])
    have "xattrs_ok (om_set name v (i_xattrs i))"
      using set default(1,2) room
      by (auto simp: SetPosixAclXAttr_def CheckInsertListSize_def chk_Inr_iff Let_def split: if_splits)
    then show ?thesis
      using i default v' by (auto intro!: inode_ok_Touch inode_ok_update)
  qed
qed

lemma SetXAttr_plain:
  assumes "SetXAttr now i name v md = Inr i'" "\<not> IsPosixAclXAttrName name"
  shows "i' = Touch now fCtime (i \<lparr> i_xattrs := om_set name v (i_xattrs i) \<rparr>)" "name \<noteq> []"
    "length name \<le> kMaxXAttrNameLength" "length v \<le> kMaxXAttrValueSize"
    "map_of (i_xattrs i) name = None \<Longrightarrow> list_bytes name (i_xattrs i) \<le> kMaxXAttrListSize"
    "md = kCreateOnly \<Longrightarrow> map_of (i_xattrs i) name = None"
    "md = kReplaceOnly \<Longrightarrow> map_of (i_xattrs i) name \<noteq> None"
  using assms by (auto simp: SetXAttr_def Let_def split: if_splits)

lemma SetXAttr_ok:
  assumes "inode_ok i" "SetXAttr now i name v md = Inr i'"
  shows "inode_ok i'"
proof (cases "IsPosixAclXAttrName name")
  case True
  then show ?thesis
    using assms SetPosixAclXAttr_ok by (auto simp: SetXAttr_def)
next
  case False
  note p = SetXAttr_plain [OF assms(2) False]
  have "xattrs_ok (om_set name v (i_xattrs i))"
    using p assms(1)
    by (intro xattrs_ok_set) (auto simp: inode_ok_def kMaxXAttrNameLength_def kMaxXAttrValueSize_def intro: string_ok_small)
  then show ?thesis
    unfolding p(1) using assms(1) by (intro inode_ok_Touch inode_ok_update)
qed

lemma RemoveXAttr_ok:
  assumes "inode_ok i" "RemoveXAttr now i name = Inr i'"
  shows "inode_ok i'"
proof -
  have "i' = Touch now fCtime (i \<lparr> i_xattrs := om_erase name (i_xattrs i) \<rparr>)"
    using assms(2) by (auto simp: RemoveXAttr_def RemovePosixAclXAttr_def split: if_splits)
  moreover have "xattrs_ok (om_erase name (i_xattrs i))"
    using assms(1) by (intro xattrs_ok_erase) (simp add: inode_ok_def)
  ultimately show ?thesis
    using assms(1) by (auto intro: inode_ok_Touch inode_ok_update)
qed

lemma acl_inv_xattrs:
  assumes inv: "acl_inv i" and "om_ok xs"
    and "map_of xs kPosixAclAccessXAttr = map_of (i_xattrs i) kPosixAclAccessXAttr"
    and "map_of xs kPosixAclDefaultXAttr = map_of (i_xattrs i) kPosixAclDefaultXAttr"
  shows "acl_inv (i \<lparr> i_xattrs := xs \<rparr>)" (is "acl_inv ?k")
proof -
  have "access_acl_ok ?k = access_acl_ok i" "default_acl_ok ?k = default_acl_ok i"
    using assms by (auto intro!: access_acl_ok_cong default_acl_ok_cong simp: IsDir_def)
  then show ?thesis
    using assms by (simp add: acl_inv_def)
qed

lemma SetXAttr_acl_inv:
  assumes "acl_inv i" "SetXAttr now i name v md = Inr i'"
  shows "acl_inv i'"
proof (cases "IsPosixAclXAttrName name")
  case True
  then have set: "SetPosixAclXAttr now i name v md = Inr i'"
    using assms(2) by (simp add: SetXAttr_def)
  then show ?thesis
  proof (cases rule: SetPosixAclXAttr_cases)
    case (access acl)
    then show ?thesis
      using put_access_acl_inv [OF assms(1) Parse_InrD(1) [OF access(2)]] by simp
  next
    case (default acl)
    then show ?thesis
      using set_default_acl_inv [OF assms(1)] Parse_Serialize_acl [OF Parse_InrD(1) [OF default(2)]] by simp
  qed
next
  case False
  then have "name \<noteq> kPosixAclAccessXAttr" "name \<noteq> kPosixAclDefaultXAttr"
    by (auto simp: IsPosixAclXAttrName_def)
  then have "acl_inv (i \<lparr> i_xattrs := om_set name v (i_xattrs i) \<rparr>)"
    using assms(1) by (intro acl_inv_xattrs) (simp_all add: acl_inv_def)
  then show ?thesis
    by (simp add: SetXAttr_plain(1) [OF assms(2) False])
qed

lemma RemoveXAttr_acl_inv:
  assumes "acl_inv i" "RemoveXAttr now i name = Inr i'"
  shows "acl_inv i'"
proof (cases "IsPosixAclXAttrName name")
  case True
  then show ?thesis
    using assms remove_acl_inv by (auto simp: RemoveXAttr_def)
next
  case False
  then have "name \<noteq> kPosixAclAccessXAttr" "name \<noteq> kPosixAclDefaultXAttr"
    by (auto simp: IsPosixAclXAttrName_def)
  then have "acl_inv (i \<lparr> i_xattrs := om_erase name (i_xattrs i) \<rparr>)"
    using assms(1) by (intro acl_inv_xattrs) (simp_all add: acl_inv_def)
  moreover have "i' = Touch now fCtime (i \<lparr> i_xattrs := om_erase name (i_xattrs i) \<rparr>)"
    using assms(2) False by (auto simp: RemoveXAttr_def split: if_splits)
  ultimately show ?thesis
    by simp
qed

section \<open>Properties\<close>

text \<open>C10: round trip of the persisted inode. For every byte-level codec that meets the folly contract and
  every well-formed inode (non-zero number, matching attribute block, canonical nanoseconds, supported
  flags, well-formed xattrs), \<open>SerializeTo\<close> succeeds and \<open>ParseFrom\<close> returns the same inode.\<close>

theorem inode_roundtrip:
  assumes "folly_cursor F" "inode_ok i"
  shows "\<exists>b. inode_SerializeTo F i = Inr b \<and> inode_ParseFrom F b = Inr i"
  using folly_cursor.inode_parse_ser [OF assms] .

lemma ex_file_ok: "inode_ok ex_file"
  by (simp add: inode_ok_def ex_file_def new_inode_def new_attr_def attr0_def attr_ok_def nsec_bad_def
      string_ok_def xattrs_ok_def HasOnlySupportedInodeFlags_def)

theorem inode_roundtrip_witness:
  "folly_cursor le_io \<and> inode_ok ex_file
   \<and> (\<exists>b. inode_SerializeTo le_io ex_file = Inr b \<and> inode_ParseFrom le_io b = Inr ex_file)"
  using inode_roundtrip [OF le.folly_cursor_axioms ex_file_ok] le.folly_cursor_axioms ex_file_ok by blast

text \<open>C20: \<open>ParseFrom\<close> accepts exactly the well-formed encodings. A byte string parses to an inode if and only if the inode is well-formed
  (non-zero number, matching attribute block, canonical nanoseconds, supported flags, non-empty xattr names) and the string is, to the last byte,
  its serialization, up to the order in which the distinct xattr names are written; everything else, such as a repeated xattr name or trailing bytes, is
  \<open>Malformed\<close>.\<close>

theorem inode_parse_exact:
  assumes "folly_cursor F"
  shows "(inode_ParseFrom F b = Inr i \<longleftrightarrow> inode_ok i \<and> (\<exists>xs. distinct (map fst xs) \<and> set xs = set (i_xattrs i)
       \<and> inode_SerializeTo F (i\<lparr>i_xattrs := xs\<rparr>) = Inr b))
     \<and> (inode_ParseFrom F b = Inl e \<longrightarrow> e = kMalformed)"
  using folly_cursor.inode_parse_iff [OF assms] folly_cursor.inode_parse_err [OF assms] by blast

text \<open>Two attributes in the wrong order are accepted and sorted; a byte too many is not.\<close>

definition ex_attrs :: "SwordFsInode" where
  "ex_attrs = ex_file\<lparr>i_xattrs := [(ascii ''user.a'', [1]), (ascii ''user.b'', [2])]\<rparr>"

lemma ex_attrs_ok:
  "inode_ok ex_attrs" "distinct (map fst (i_xattrs ex_attrs))"
  "\<exists>b. inode_SerializeTo le_io (ex_attrs\<lparr>i_xattrs := rev (i_xattrs ex_attrs)\<rparr>) = Inr b"
proof -
  have "om_ok (i_xattrs ex_attrs)"
    by code_simp
  then show "inode_ok ex_attrs" "distinct (map fst (i_xattrs ex_attrs))"
    using ex_file_ok by (auto simp: ex_attrs_def inode_ok_def xattrs_ok_def ascii_def intro!: string_ok_small)
  show "\<exists>b. inode_SerializeTo le_io (ex_attrs\<lparr>i_xattrs := rev (i_xattrs ex_attrs)\<rparr>) = Inr b"
    using ex_file_ok by (simp add: inode_SerializeTo_def ex_attrs_def inode_ok_def)
qed

theorem inode_parse_exact_witness:
  "let b = projr (inode_SerializeTo le_io (ex_attrs\<lparr>i_xattrs := rev (i_xattrs ex_attrs)\<rparr>))
   in inode_ParseFrom le_io b = Inr ex_attrs \<and> inode_ParseFrom le_io (b @ [0]) = Inl kMalformed"
proof -
  let ?xs = "rev (i_xattrs ex_attrs)" and ?e = "ex_attrs\<lparr>i_xattrs := rev (i_xattrs ex_attrs)\<rparr>"
  have "inode_ParseFrom le_io (projr (inode_SerializeTo le_io ?e)) = Inr ex_attrs"
    using ex_attrs_ok inode_parse_exact [OF le.folly_cursor_axioms, where i=ex_attrs and b="projr (inode_SerializeTo le_io ?e)"]
    by (auto simp: rev_map [symmetric] intro!: exI [of _ ?xs])
  moreover have "inode_ParseFrom le_io (projr (inode_SerializeTo le_io ?e) @ [0]) = Inl kMalformed"
    by code_simp
  ultimately show ?thesis
    by simp
qed

text \<open>C23: the xattr operations keep an inode persistable and its ACLs consistent: after a successful
  \<open>SetXAttr\<close> or \<open>RemoveXAttr\<close>, ACL names included, the inode is again well-formed and satisfies the ACL
  invariant.\<close>

theorem xattr_ops_keep_inode:
  assumes "inode_ok i" "acl_inv i"
    and "SetXAttr now i name v md = Inr i' \<or> RemoveXAttr now i name = Inr i'"
  shows "inode_ok i' \<and> acl_inv i'"
  using assms SetXAttr_ok RemoveXAttr_ok SetXAttr_acl_inv RemoveXAttr_acl_inv by blast

definition ex_name :: bytes where "ex_name = ascii ''user.tag''"

lemma ex_set_xattr:
  "SetXAttr 7 ex_file ex_name [1, 2] kCreateOnly = Inr (Touch 7 fCtime (ex_file \<lparr> i_xattrs := [(ex_name, [1, 2])] \<rparr>))"
proof -
  have "i_xattrs ex_file = []"
    by (simp add: ex_file_def new_inode_def)
  moreover have "\<not> IsPosixAclXAttrName ex_name" "ex_name \<noteq> []" "length ex_name = 8"
    by code_simp+
  ultimately show ?thesis
    by (simp add: SetXAttr_def flag_defs list_bytes_def)
qed

theorem xattr_ops_keep_inode_witness:
  "\<exists>i'. inode_ok ex_file \<and> acl_inv ex_file \<and> SetXAttr 7 ex_file ex_name [1, 2] kCreateOnly = Inr i'
     \<and> inode_ok i' \<and> acl_inv i'"
proof -
  have a: "acl_inv ex_file"
    by (rule no_acl_inv) (simp add: ex_file_def new_inode_def)
  show ?thesis
    using xattr_ops_keep_inode [OF ex_file_ok a disjI1 [OF ex_set_xattr]] ex_set_xattr ex_file_ok a by blast
qed

text \<open>C35: what a successful \<open>SetXAttr\<close> of an ordinary name does: the value is readable under that name and
  listed, every other name reads as before, the create-only and replace-only modes were respected, and
  only the xattrs and the ctime of the inode changed.\<close>

theorem set_then_get_xattr:
  assumes "xattrs_ok (i_xattrs i)" "\<not> IsPosixAclXAttrName name" "SetXAttr now i name v md = Inr i'"
  shows "GetXAttr i' name = Inr v \<and> (\<forall>n. n \<noteq> name \<longrightarrow> GetXAttr i' n = GetXAttr i n)
    \<and> (\<exists>ns. ListXAttrs i' = Inr ns \<and> set ns = insert name (fst ` set (i_xattrs i)) \<and> distinct ns)
    \<and> (md = kCreateOnly \<longrightarrow> GetXAttr i name = Inl kNoData) \<and> (md = kReplaceOnly \<longrightarrow> ok (GetXAttr i name))
    \<and> i' \<lparr> i_xattrs := i_xattrs i \<rparr> = Touch now fCtime i"
proof -
  note p = SetXAttr_plain [OF assms(3,2)]
  have ok: "om_ok (i_xattrs i)"
    using assms(1) by (simp add: xattrs_ok_def)
  have "fst ` set (om_set name v (i_xattrs i)) = insert name (fst ` set (i_xattrs i))"
    using set_om_set [OF ok] by (auto simp: image_iff)
  moreover have "distinct (map fst (om_set name v (i_xattrs i)))"
    by (rule om_ok_distinct [OF om_ok_set [OF ok]])
  moreover have "i' \<lparr> i_xattrs := i_xattrs i \<rparr> = Touch now fCtime i"
    by (simp add: p(1) Touch_def Let_def)
  ultimately show ?thesis
    using p(3,6,7) by (auto simp: p(1) GetXAttr_def ListXAttrs_def ok)
qed

theorem set_then_get_xattr_witness:
  "\<exists>i'. SetXAttr 7 ex_file ex_name [1, 2] kCreateOnly = Inr i' \<and> GetXAttr i' ex_name = Inr [1, 2]"
proof -
  have "xattrs_ok (i_xattrs ex_file)" "\<not> IsPosixAclXAttrName ex_name"
    using ex_file_ok by (auto simp: inode_ok_def ex_name_def IsPosixAclXAttrName_def kPosixAclAccessXAttr_def kPosixAclDefaultXAttr_def)
  then show ?thesis
    using set_then_get_xattr [OF _ _ ex_set_xattr] ex_set_xattr by blast
qed

end
