(* ===== verification/Decimal.thy ===== *)
theory Decimal
  imports Prelude
begin

text \<open>
  Decimal text of the C++ standard library: \<open>std::to_string\<close> on unsigned integers and the unsigned
  \<open>std::from_chars\<close>, which takes the longest prefix of digits and fails when there is none or when the
  number does not fit the type.
\<close>

fun to_string :: "nat \<Rightarrow> bytes" where
  "to_string n = (if n < 10 then [of_nat (48 + n)] else to_string (n div 10) @ [of_nat (48 + n mod 10)])"

declare to_string.simps [simp del]

definition is_digit :: "u8 \<Rightarrow> bool" where
  "is_digit c \<longleftrightarrow> 48 \<le> c \<and> c \<le> 57"

definition dec_value :: "bytes \<Rightarrow> nat" where
  "dec_value s = foldl (\<lambda>acc c. acc * 10 + (unat c - 48)) 0 s"

text \<open>Result: \<^const>\<open>None\<close> for \<open>invalid_argument\<close> and \<open>result_out_of_range\<close>, otherwise the value and the
  characters from \<open>ptr\<close> on. \<open>bound\<close> is the largest value of the integer type.\<close>

definition from_chars :: "nat \<Rightarrow> bytes \<Rightarrow> (nat \<times> bytes) option" where
  "from_chars bound s =
    (let ds = takeWhile is_digit s; v = dec_value ds
     in if ds = [] then None else if v > bound then None else Some (v, dropWhile is_digit s))"

lemma dec_value_append: "dec_value (s @ [c]) = dec_value s * 10 + (unat c - 48)"
  by (simp add: dec_value_def)

lemma unat_digit: "d < 10 \<Longrightarrow> unat (of_nat (48 + d) :: u8) = 48 + d"
  by (simp only: unat_of_nat) simp

lemma is_digit_of_nat: "d < 10 \<Longrightarrow> is_digit (of_nat (48 + d))"
  unfolding is_digit_def word_le_nat_alt by (simp only: unat_digit) simp

lemma to_string_digits: "c \<in> set (to_string n) \<Longrightarrow> is_digit c"
proof (induction n rule: to_string.induct)
  case (1 n)
  then show ?case
    using is_digit_of_nat [of n] is_digit_of_nat [of "n mod 10"]
    by (subst (asm) (2) to_string.simps) (auto split: if_splits simp del: of_nat_add)
qed

lemma to_string_ne [simp]: "to_string n \<noteq> []"
  by (subst to_string.simps) simp

lemma dec_value_to_string [simp]: "dec_value (to_string n) = n"
proof (induction n rule: to_string.induct)
  case (1 n)
  show ?case
  proof (cases "n < 10")
    case True
    then show ?thesis
      using unat_digit [of n] by (subst to_string.simps) (simp add: dec_value_def)
  next
    case False
    then show ?thesis
      using 1 unat_digit [of "n mod 10"]
      by (subst to_string.simps) (simp add: dec_value_append del: of_nat_add)
  qed
qed

lemma to_string_inject [simp]: "to_string m = to_string n \<longleftrightarrow> m = n"
  by (metis dec_value_to_string)

lemma takeWhile_to_string:
  assumes "s = [] \<or> \<not> is_digit (hd s)"
  shows "takeWhile is_digit (to_string n @ s) = to_string n" "dropWhile is_digit (to_string n @ s) = s"
  using assms to_string_digits [of _ n]
  by (cases s; simp add: takeWhile_append dropWhile_append)+

lemma from_chars_to_string:
  assumes "n \<le> bound" "s = [] \<or> \<not> is_digit (hd s)"
  shows "from_chars bound (to_string n @ s) = Some (n, s)"
  using assms takeWhile_to_string [OF assms(2), of n] by (simp add: from_chars_def)

lemma from_chars_bound: "from_chars bound s = Some (n, r) \<Longrightarrow> n \<le> bound"
  by (auto simp: from_chars_def Let_def split: if_splits)

lemma to_string_append_inject:
  assumes "s = [] \<or> \<not> is_digit (hd s)" "t = [] \<or> \<not> is_digit (hd t)"
  shows "to_string m @ s = to_string n @ t \<longleftrightarrow> m = n \<and> s = t"
  using takeWhile_to_string [OF assms(1), of m] takeWhile_to_string [OF assms(2), of n]
  by (metis to_string_inject)

end
