(* ===== verification/Records.thy ===== *)
theory Records
  imports Inode Decimal
begin

text \<open>
  The other persisted records of \<open>metadata/types\<close>: directory entries (\<open>Entry.cpp\<close>), reclaim work and
  pending deletes (\<open>Reclaim.cpp\<close>) and the volume record with its chunk type (\<open>Volume.cpp\<close>). Each is an
  instance of the \<open>record_store\<close> contract of theory \<open>Inode\<close>; for these records the encoding is
  moreover canonical: the bytes that parse to a record are exactly its serialization.
\<close>

section \<open>SwordFsEntry\<close>

record SwordFsEntry =
  e_name :: bytes
  e_type :: u32
  e_ino :: u64

definition entry_SerializeTo :: "folly_io \<Rightarrow> SwordFsEntry \<Rightarrow> bytes res" where
  "entry_SerializeTo F e =
    (if e_name e = [] \<or> e_ino e = 0 then Inl kInvalidArgument
     else Inr (enc_Header F rtEntry @ enc_String F (e_name e) @ enc_U32 F (e_type e) @ enc_U64 F (e_ino e)))"

definition entry_ParseFrom :: "folly_io \<Rightarrow> bytes \<Rightarrow> SwordFsEntry res" where
  "entry_ParseFrom F data =
    (let d = snd (dec_Header F rtEntry (new_decoder data));
         (name, d) = into [] (dec_String F d);
         (type, d) = into 0 (dec_U32 F d);
         (ino, d) = into 0 (dec_U64 F d)
     in if failed d \<or> name = [] \<or> ino = 0 \<or> \<not> Done F d then Inl kMalformed
        else Inr \<lparr> e_name = name, e_type = type, e_ino = ino \<rparr>)"

section \<open>ReclaimWork and PendingDelete\<close>

record ReclaimWork =
  rw_ino :: u64
  rw_payload :: bytes

definition reclaim_SerializeTo :: "folly_io \<Rightarrow> ReclaimWork \<Rightarrow> bytes res" where
  "reclaim_SerializeTo F w =
    (if rw_ino w = 0 \<or> rw_payload w = [] then Inl kInvalidArgument
     else Inr (enc_Header F rtReclaim @ enc_U64 F (rw_ino w) @ enc_String F (rw_payload w)))"

definition reclaim_ParseFrom :: "folly_io \<Rightarrow> bytes \<Rightarrow> ReclaimWork res" where
  "reclaim_ParseFrom F data =
    (let d = snd (dec_Header F rtReclaim (new_decoder data));
         (ino, d) = into 0 (dec_U64 F d);
         (payload, d) = into [] (dec_String F d)
     in if failed d \<or> \<not> Done F d \<or> ino = 0 \<or> payload = [] then Inl kMalformed
        else Inr \<lparr> rw_ino = ino, rw_payload = payload \<rparr>)"

record PendingDelete =
  pd_id :: bytes
  pd_payload :: bytes

definition pending_SerializeTo :: "folly_io \<Rightarrow> PendingDelete \<Rightarrow> bytes res" where
  "pending_SerializeTo F p =
    (if pd_id p = [] \<or> pd_payload p = [] then Inl kInvalidArgument
     else Inr (enc_Header F rtPendingDelete @ enc_String F (pd_id p) @ enc_String F (pd_payload p)))"

definition pending_ParseFrom :: "folly_io \<Rightarrow> bytes \<Rightarrow> PendingDelete res" where
  "pending_ParseFrom F data =
    (let d = snd (dec_Header F rtPendingDelete (new_decoder data));
         (id, d) = into [] (dec_String F d);
         (payload, d) = into [] (dec_String F d)
     in if failed d \<or> \<not> Done F d \<or> id = [] \<or> payload = [] then Inl kMalformed
        else Inr \<lparr> pd_id = id, pd_payload = payload \<rparr>)"

section \<open>SwordFsVolume\<close>

text \<open>\<open>enum class ChunkType : uint32_t\<close>; a decoded value may be outside the enumerators.\<close>

definition kCow :: u32 where [flag_defs]: "kCow = 1"
definition kChunkSlice :: u32 where [flag_defs]: "kChunkSlice = 2"
definition kRedisCache :: u32 where [flag_defs]: "kRedisCache = 3"

definition IsKnownChunkType :: "u32 \<Rightarrow> bool" where
  "IsKnownChunkType t \<longleftrightarrow> t = kCow \<or> t = kChunkSlice \<or> t = kRedisCache"

definition ChunkTypeName :: "u32 \<Rightarrow> bytes" where
  "ChunkTypeName t = (if t = kCow then ascii ''cow'' else if t = kChunkSlice then ascii ''chunk_slice''
     else if t = kRedisCache then ascii ''redis_cache'' else [])"

definition ChunkTypeKey :: "u32 \<Rightarrow> bytes" where
  "ChunkTypeKey t = to_string (unat t)"

fun first_with_name :: "bytes \<Rightarrow> u32 list \<Rightarrow> u32 res" where
  "first_with_name name [] = Inl kInvalidArgument"
| "first_with_name name (t # ts) = (if name = ChunkTypeName t then Inr t else first_with_name name ts)"

definition ParseChunkType :: "bytes \<Rightarrow> u32 res" where
  "ParseChunkType name = first_with_name name [kCow, kChunkSlice, kRedisCache]"

record SwordFsVolume =
  v_name :: bytes
  v_storage :: bytes
  v_bucket :: bytes
  v_region :: bytes
  v_chunk_size :: u64
  v_chunk_type :: u32
  v_enable_posix_acl :: bool

definition volume_SerializeTo :: "folly_io \<Rightarrow> SwordFsVolume \<Rightarrow> bytes" where
  "volume_SerializeTo F v = enc_Header F rtVolume @ enc_String F (v_name v) @ enc_String F (v_storage v)
     @ enc_String F (v_bucket v) @ enc_String F (v_region v) @ enc_U64 F (v_chunk_size v)
     @ enc_U32 F (v_chunk_type v) @ enc_U32 F (if v_enable_posix_acl v then 1 else 0)"

definition volume_ParseFrom :: "folly_io \<Rightarrow> bytes \<Rightarrow> SwordFsVolume res" where
  "volume_ParseFrom F data =
    (let d = snd (dec_Header F rtVolume (new_decoder data));
         (name, d) = into [] (dec_String F d);
         (storage, d) = into [] (dec_String F d);
         (bucket, d) = into [] (dec_String F d);
         (region, d) = into [] (dec_String F d);
         (chunk_size, d) = into (64 * 1024 * 1024) (dec_U64 F d);
         (chunk_type, d) = into 0 (dec_U32 F d);
         (enable_posix_acl, d) = into 0 (dec_U32 F d)
     in if failed d \<or> name = [] \<or> chunk_size = 0 \<or> \<not> IsKnownChunkType chunk_type
          \<or> enable_posix_acl > 1 \<or> \<not> Done F d then Inl kMalformed
        else if (storage \<noteq> []) \<noteq> (bucket \<noteq> []) then Inl kMalformed
        else Inr \<lparr> v_name = name, v_storage = storage, v_bucket = bucket, v_region = region,
               v_chunk_size = chunk_size, v_chunk_type = chunk_type,
               v_enable_posix_acl = (enable_posix_acl \<noteq> 0) \<rparr>)"

section \<open>Well-formed records\<close>

definition entry_ok :: "SwordFsEntry \<Rightarrow> bool" where
  "entry_ok e \<longleftrightarrow> e_name e \<noteq> [] \<and> string_ok (e_name e) \<and> e_ino e \<noteq> 0"

definition reclaim_ok :: "ReclaimWork \<Rightarrow> bool" where
  "reclaim_ok w \<longleftrightarrow> rw_ino w \<noteq> 0 \<and> rw_payload w \<noteq> [] \<and> string_ok (rw_payload w)"

definition pending_ok :: "PendingDelete \<Rightarrow> bool" where
  "pending_ok p \<longleftrightarrow> pd_id p \<noteq> [] \<and> pd_payload p \<noteq> [] \<and> string_ok (pd_id p) \<and> string_ok (pd_payload p)"

definition volume_ok :: "SwordFsVolume \<Rightarrow> bool" where
  "volume_ok v \<longleftrightarrow> v_name v \<noteq> [] \<and> string_ok (v_name v) \<and> string_ok (v_storage v) \<and> string_ok (v_bucket v)
     \<and> string_ok (v_region v) \<and> v_chunk_size v \<noteq> 0 \<and> IsKnownChunkType (v_chunk_type v)
     \<and> (v_storage v = [] \<longleftrightarrow> v_bucket v = [])"

section \<open>Canonical records\<close>

locale canonical_record = record_store +
  assumes parse_canonical: "parse b = Inr r \<Longrightarrow> ser r = Inr b"
begin

lemma parse_iff: "parse b = Inr r \<longleftrightarrow> wf r \<and> ser r = Inr b"
  using parse_canonical parse_wf ser_parse by blast

lemma parse_inj: "\<lbrakk> parse b = Inr r; parse c = Inr r \<rbrakk> \<Longrightarrow> b = c"
  using parse_canonical [of b r] parse_canonical [of c r] by simp

end

context folly_cursor
begin

lemma fresh_not_failed [simp]: "rest (new_decoder b) = b" "\<not> failed (new_decoder b)"
  by (simp_all add: new_decoder_def)

lemmas step_simps = codec_simps u64.into_enc u32.into_enc str.into_enc
  u64.into_enc_end u32.into_enc_end str.into_enc_end new_decoder_def Done_def atEnd_iff

lemma Done_rest: "Done F d \<Longrightarrow> rest d = [] \<and> \<not> failed d"
  by (simp add: Done_def atEnd_iff)

lemma entry_canonical: "canonical_record (entry_SerializeTo F) (entry_ParseFrom F) entry_ok"
proof
  fix r
  assume "entry_ok r"
  then show "\<exists>b. entry_SerializeTo F r = Inr b \<and> entry_ParseFrom F b = Inr r"
    by (simp add: entry_ok_def entry_SerializeTo_def entry_ParseFrom_def step_simps)
next
  fix b r
  assume "entry_ParseFrom F b = Inr r"
  then obtain name d1 type d2 ino d3 where
    s: "into [] (dec_String F (snd (dec_Header F rtEntry (new_decoder b)))) = (name, d1)"
      "into 0 (dec_U32 F d1) = (type, d2)" "into 0 (dec_U64 F d2) = (ino, d3)"
    and ok: "name \<noteq> []" "ino \<noteq> 0" "Done F d3" and r: "r = \<lparr> e_name = name, e_type = type, e_ino = ino \<rparr>"
    by (auto simp: entry_ParseFrom_def Let_def split: prod.splits if_splits)
  note d3 = Done_rest [OF ok(3)]
  note a = u64.into_not_failed [OF s(3)]
  note b = u32.into_not_failed [OF s(2)]
  note c = str.into_not_failed [OF s(1)]
  note d = hdr_not_failed [where d="new_decoder b" and t=rtEntry]
  show "entry_ok r" "entry_SerializeTo F r = Inr b"
    using ok d3 a b c d by (auto simp: r entry_ok_def entry_SerializeTo_def)
qed (auto simp: entry_ParseFrom_def Let_def split: prod.splits if_splits)

lemma reclaim_canonical: "canonical_record (reclaim_SerializeTo F) (reclaim_ParseFrom F) reclaim_ok"
proof
  fix r
  assume "reclaim_ok r"
  then show "\<exists>b. reclaim_SerializeTo F r = Inr b \<and> reclaim_ParseFrom F b = Inr r"
    by (simp add: reclaim_ok_def reclaim_SerializeTo_def reclaim_ParseFrom_def step_simps)
next
  fix b r
  assume "reclaim_ParseFrom F b = Inr r"
  then obtain ino d1 payload d2 where
    s: "into 0 (dec_U64 F (snd (dec_Header F rtReclaim (new_decoder b)))) = (ino, d1)"
      "into [] (dec_String F d1) = (payload, d2)"
    and ok: "payload \<noteq> []" "ino \<noteq> 0" "Done F d2" and r: "r = \<lparr> rw_ino = ino, rw_payload = payload \<rparr>"
    by (auto simp: reclaim_ParseFrom_def Let_def split: prod.splits if_splits)
  note a = str.into_not_failed [OF s(2)]
  note b = u64.into_not_failed [OF s(1)]
  note c = hdr_not_failed [where d="new_decoder b" and t=rtReclaim]
  show "reclaim_ok r" "reclaim_SerializeTo F r = Inr b"
    using ok Done_rest [OF ok(3)] a b c by (auto simp: r reclaim_ok_def reclaim_SerializeTo_def)
qed (auto simp: reclaim_ParseFrom_def Let_def split: prod.splits if_splits)

lemma pending_canonical: "canonical_record (pending_SerializeTo F) (pending_ParseFrom F) pending_ok"
proof
  fix r
  assume "pending_ok r"
  then show "\<exists>b. pending_SerializeTo F r = Inr b \<and> pending_ParseFrom F b = Inr r"
    by (simp add: pending_ok_def pending_SerializeTo_def pending_ParseFrom_def step_simps)
next
  fix b r
  assume "pending_ParseFrom F b = Inr r"
  then obtain id d1 payload d2 where
    s: "into [] (dec_String F (snd (dec_Header F rtPendingDelete (new_decoder b)))) = (id, d1)"
      "into [] (dec_String F d1) = (payload, d2)"
    and ok: "payload \<noteq> []" "id \<noteq> []" "Done F d2" and r: "r = \<lparr> pd_id = id, pd_payload = payload \<rparr>"
    by (auto simp: pending_ParseFrom_def Let_def split: prod.splits if_splits)
  note a = str.into_not_failed [OF s(2)]
  note b = str.into_not_failed [OF s(1)]
  note c = hdr_not_failed [where d="new_decoder b" and t=rtPendingDelete]
  show "pending_ok r" "pending_SerializeTo F r = Inr b"
    using ok Done_rest [OF ok(3)] a b c by (auto simp: r pending_ok_def pending_SerializeTo_def)
qed (auto simp: pending_ParseFrom_def Let_def split: prod.splits if_splits)

lemma volume_canonical: "canonical_record (\<lambda>v. Inr (volume_SerializeTo F v)) (volume_ParseFrom F) volume_ok"
proof
  fix r
  assume "volume_ok r"
  then show "\<exists>b. Inr (volume_SerializeTo F r) = Inr b \<and> volume_ParseFrom F b = Inr r"
    by (simp add: volume_ok_def volume_SerializeTo_def volume_ParseFrom_def step_simps)
next
  fix b r
  assume "volume_ParseFrom F b = Inr r"
  then obtain nm d1 st d2 bu d3 re d4 cs d5 ct d6 ac d7 where
    s: "into [] (dec_String F (snd (dec_Header F rtVolume (new_decoder b)))) = (nm, d1)"
      "into [] (dec_String F d1) = (st, d2)" "into [] (dec_String F d2) = (bu, d3)"
      "into [] (dec_String F d3) = (re, d4)" "into (64 * 1024 * 1024) (dec_U64 F d4) = (cs, d5)"
      "into 0 (dec_U32 F d5) = (ct, d6)" "into 0 (dec_U32 F d6) = (ac, d7)"
    and ok: "nm \<noteq> []" "cs \<noteq> 0" "IsKnownChunkType ct" "ac \<le> 1" "Done F d7" "(st = []) = (bu = [])"
    and r: "r = \<lparr> v_name = nm, v_storage = st, v_bucket = bu, v_region = re, v_chunk_size = cs,
        v_chunk_type = ct, v_enable_posix_acl = (ac \<noteq> 0) \<rparr>"
    by (auto simp: volume_ParseFrom_def Let_def split: prod.splits if_splits)
  have "ac = 0 \<or> ac = 1"
    using ok(4) by (auto simp: word_le_nat_alt word_unat_eq_iff)
  moreover note Done_rest [OF ok(5)] u32.into_not_failed [OF s(7)] u32.into_not_failed [OF s(6)]
    u64.into_not_failed [OF s(5)] str.into_not_failed [OF s(4)] str.into_not_failed [OF s(3)]
    str.into_not_failed [OF s(2)] str.into_not_failed [OF s(1)]
    hdr_not_failed [where d="new_decoder b" and t=rtVolume]
  ultimately show "volume_ok r" "Inr (volume_SerializeTo F r) = Inr b"
    using ok by (auto simp: r volume_ok_def volume_SerializeTo_def)
qed (auto simp: volume_ParseFrom_def Let_def split: prod.splits if_splits)

end

sublocale folly_cursor \<subseteq> entry_rec: canonical_record "entry_SerializeTo F" "entry_ParseFrom F" entry_ok
  by (rule entry_canonical)

sublocale folly_cursor \<subseteq> reclaim_rec: canonical_record "reclaim_SerializeTo F" "reclaim_ParseFrom F" reclaim_ok
  by (rule reclaim_canonical)

sublocale folly_cursor \<subseteq> pending_rec: canonical_record "pending_SerializeTo F" "pending_ParseFrom F" pending_ok
  by (rule pending_canonical)

sublocale folly_cursor \<subseteq> volume_rec: canonical_record "\<lambda>v. Inr (volume_SerializeTo F v)" "volume_ParseFrom F" volume_ok
  by (rule volume_canonical)

section \<open>Properties\<close>

text \<open>C36: the directory entry, reclaim work and pending delete records are stored canonically. For every
  codec that meets the folly contract, a byte string parses to a record exactly when the record is
  well-formed and the byte string is what \<open>SerializeTo\<close> writes for it.\<close>

theorem queue_records_canonical:
  assumes "folly_cursor F"
  shows "(entry_ParseFrom F b = Inr e \<longleftrightarrow> entry_ok e \<and> entry_SerializeTo F e = Inr b)
    \<and> (reclaim_ParseFrom F b = Inr w \<longleftrightarrow> reclaim_ok w \<and> reclaim_SerializeTo F w = Inr b)
    \<and> (pending_ParseFrom F b = Inr p \<longleftrightarrow> pending_ok p \<and> pending_SerializeTo F p = Inr b)"
  using canonical_record.parse_iff [OF folly_cursor.entry_canonical [OF assms]]
    canonical_record.parse_iff [OF folly_cursor.reclaim_canonical [OF assms]]
    canonical_record.parse_iff [OF folly_cursor.pending_canonical [OF assms]] by blast

theorem queue_records_canonical_witness:
  "folly_cursor le_io \<and> (\<exists>b. pending_SerializeTo le_io \<lparr> pd_id = [7], pd_payload = [1, 2] \<rparr> = Inr b
      \<and> pending_ParseFrom le_io b = Inr \<lparr> pd_id = [7], pd_payload = [1, 2] \<rparr>)"
proof -
  have ok: "pending_ok \<lparr> pd_id = [7], pd_payload = [1, 2] \<rparr>"
    by (simp add: pending_ok_def string_ok_def)
  then obtain b where "pending_SerializeTo le_io \<lparr> pd_id = [7], pd_payload = [1, 2] \<rparr> = Inr b"
    by (simp add: pending_SerializeTo_def)
  then show ?thesis
    using queue_records_canonical [OF le.folly_cursor_axioms, of b undefined undefined "\<lparr> pd_id = [7], pd_payload = [1, 2] \<rparr>"]
      ok le.folly_cursor_axioms by blast
qed

text \<open>C37: the volume record. \<open>ParseFrom\<close> accepts exactly the serializations of volumes that have a name, a
  non-zero chunk size, a known chunk type and a bucket exactly when they have a storage engine, and it
  returns the volume that was written; every other input is \<open>Malformed\<close>.\<close>

theorem volume_record_canonical:
  assumes "folly_cursor F"
  shows "(volume_ParseFrom F b = Inr v \<longleftrightarrow> volume_ok v \<and> b = volume_SerializeTo F v)
    \<and> (volume_ParseFrom F b = Inl err \<longrightarrow> err = kMalformed)"
proof -
  note c = folly_cursor.volume_canonical [OF assms]
  have "record_store (\<lambda>v. Inr (volume_SerializeTo F v)) (volume_ParseFrom F) volume_ok"
    using c by (simp add: canonical_record_def)
  from canonical_record.parse_iff [OF c] record_store.parse_err [OF this] show ?thesis
    by auto
qed

definition ex_volume :: SwordFsVolume where
  "ex_volume = \<lparr> v_name = ascii ''vol'', v_storage = ascii ''s3'', v_bucket = ascii ''b'', v_region = [],
     v_chunk_size = 0x4000000, v_chunk_type = kChunkSlice, v_enable_posix_acl = True \<rparr>"

theorem volume_record_canonical_witness:
  "folly_cursor le_io \<and> volume_ok ex_volume \<and> volume_ParseFrom le_io (volume_SerializeTo le_io ex_volume) = Inr ex_volume"
proof -
  have "volume_ok ex_volume"
    by (simp add: volume_ok_def ex_volume_def string_ok_def IsKnownChunkType_def)
  then show ?thesis
    using volume_record_canonical [OF le.folly_cursor_axioms, of _ ex_volume undefined] le.folly_cursor_axioms by blast
qed

text \<open>chunk type names. \<open>ParseChunkType\<close> inverts \<open>ChunkTypeName\<close> on the known types and accepts no
  other name.\<close>

theorem chunk_type_names:
  "ParseChunkType name = Inr t \<longleftrightarrow> IsKnownChunkType t \<and> name = ChunkTypeName t"
  by (auto simp: ParseChunkType_def IsKnownChunkType_def ChunkTypeName_def flag_defs split: if_splits)

end
