(* ===== verification/Chunk_Geometry.thy ===== *)
theory Chunk_Geometry
  imports Prelude
begin

text \<open>
  \<open>metadata/types/Chunk.{hpp,cpp}\<close>: the arithmetic that maps a file offset to a chunk. \<open>off_t\<close> arguments
  are words read with \<^const>\<open>sint\<close>; all products and sums are the wrapping ones of the source, and the
  lemmas show when they do not wrap.
\<close>

definition kMaxSupportedFileSize :: u64 where
  "kMaxSupportedFileSize = 0x7FFFFFFFFFFFFFFF"

record ChunkPosition =
  cp_index :: u64
  cp_start_offset :: u64
  cp_offset_in_chunk :: u64

definition CalculateChunkPosition :: "i64 \<Rightarrow> u64 \<Rightarrow> ChunkPosition res" where
  "CalculateChunkPosition file_offset chunk_size =
    (if sint file_offset < 0 \<or> chunk_size = 0 then Inl kInvalidArgument
     else let offset = file_offset; index = offset div chunk_size; start_offset = index * chunk_size
       in Inr \<lparr> cp_index = index, cp_start_offset = start_offset, cp_offset_in_chunk = offset - start_offset \<rparr>)"

definition CalculateFileRangeEnd :: "i64 \<Rightarrow> u64 \<Rightarrow> u64 res" where
  "CalculateFileRangeEnd file_offset len =
    (if sint file_offset < 0 then Inl kInvalidArgument
     else let start = file_offset in
       if len > kMaxSupportedFileSize - start then Inl kInvalidArgument
       else Inr (start + len))"

definition CalculateChunkStartOffset :: "u64 \<Rightarrow> u64 \<Rightarrow> u64 res" where
  "CalculateChunkStartOffset index chunk_size =
    (if chunk_size = 0 then Inl kInvalidArgument
     else if index \<noteq> 0 \<and> chunk_size > kMaxSupportedFileSize div index then Inl kInvalidArgument
     else Inr (index * chunk_size))"

section \<open>Lemmas\<close>

lemma unat_kMax: "unat kMaxSupportedFileSize = 2 ^ 63 - 1"
  by (simp add: kMaxSupportedFileSize_def)

lemma nonneg_off: "0 \<le> sint (x :: i64) \<longleftrightarrow> x \<le> kMaxSupportedFileSize"
proof -
  have "bit (uint x) 63 \<longleftrightarrow> 2 ^ 63 \<le> uint x"
  proof (cases "uint x < 2 ^ 63")
    case True
    then show ?thesis
      by (simp add: bit_iff_odd)
  next
    case False
    moreover have "uint x < 2 ^ 64"
      using unsigned_less [where 'b=64 and 'a=int, of x] by simp
    ultimately have "uint x div 2 ^ 63 = 1"
      by (intro int_div_pos_eq [where r="uint x - 2 ^ 63"]) simp_all
    with False show ?thesis
      by (simp add: bit_iff_odd)
  qed
  moreover have "0 \<le> sint x \<longleftrightarrow> \<not> bit (uint x) 63"
    unfolding sint_uint by simp
  ultimately show ?thesis
    by (simp add: word_le_def kMaxSupportedFileSize_def not_le) linarith
qed

lemma neg_off: "sint (x :: i64) < 0 \<longleftrightarrow> kMaxSupportedFileSize < x"
  using nonneg_off [of x] by (simp flip: not_le)

lemma unat_mult_nowrap: "unat (a :: u64) * unat b < 2 ^ 64 \<Longrightarrow> unat (a * b) = unat a * unat b"
  by (simp add: unat_word_ariths)

lemma unat_div_mult: "unat ((a :: u64) div b * b) = unat a div unat b * unat b"
proof -
  have "unat (a div b) * unat b \<le> unat a"
    by (simp add: unat_div)
  also have "unat a < 2 ^ 64"
    using unsigned_less [where 'b=64 and 'a=nat, of a] by simp
  finally show ?thesis
    by (simp only: unat_mult_nowrap unat_div)
qed

lemma unat_sub_div_mult: "unat ((a :: u64) - a div b * b) = unat a mod unat b"
proof -
  have "a div b * b \<le> a"
    by (simp add: word_le_nat_alt unat_div_mult)
  then have "unat (a - a div b * b) = unat a - unat (a div b * b)"
    by (rule unat_sub)
  also have "\<dots> = unat a mod unat b"
    by (simp only: unat_div_mult minus_div_mult_eq_mod)
  finally show ?thesis .
qed

text \<open>The overflow test \<open>chunk_size > kMax / index\<close> is exact.\<close>

lemma start_offset_test:
  assumes "index \<noteq> 0"
  shows "chunk_size \<le> kMaxSupportedFileSize div index \<longleftrightarrow> unat index * unat chunk_size \<le> unat kMaxSupportedFileSize"
  using assms by (simp add: word_le_nat_alt unat_div less_eq_div_iff_mult_less_eq unat_gt_0 mult.commute)

lemma CalculateChunkStartOffset_Inr_iff:
  "CalculateChunkStartOffset index chunk_size = Inr s \<longleftrightarrow>
     chunk_size \<noteq> 0 \<and> unat index * unat chunk_size \<le> unat kMaxSupportedFileSize \<and> s = index * chunk_size"
  using start_offset_test [of index chunk_size]
  by (cases "index = 0") (auto simp: CalculateChunkStartOffset_def simp flip: not_le)

lemma start_offset_value:
  "CalculateChunkStartOffset index chunk_size = Inr s \<Longrightarrow> unat s = unat index * unat chunk_size"
  by (auto simp: CalculateChunkStartOffset_Inr_iff unat_kMax intro!: unat_mult_nowrap)

section \<open>Properties\<close>

text \<open>\<open>CalculateChunkPosition\<close> is the exact division of a non-negative offset: the call succeeds exactly
  for a non-negative offset and a non-zero chunk size; then the chunk index and the offset in the chunk
  are quotient and remainder, the start offset is their product without wrap-around, and the offset lies
  inside the chunk.\<close>

theorem chunk_position_exact:
  "case CalculateChunkPosition off cs of
     Inl e \<Rightarrow> e = kInvalidArgument \<and> (sint off < 0 \<or> cs = 0)
   | Inr p \<Rightarrow> 0 \<le> sint off \<and> cs \<noteq> 0 \<and> unat (cp_index p) = unat off div unat cs
       \<and> unat (cp_start_offset p) = unat (cp_index p) * unat cs
       \<and> unat (cp_offset_in_chunk p) = unat off mod unat cs \<and> cp_offset_in_chunk p < cs"
proof -
  have "cs \<noteq> 0 \<Longrightarrow> off - off div cs * cs < cs"
    unfolding word_less_nat_alt unat_sub_div_mult by (simp add: unat_gt_0)
  then show ?thesis
    by (auto simp: CalculateChunkPosition_def Let_def unat_div unat_div_mult unat_sub_div_mult
        simp del: minus_div_mult_eq_mod)
qed

text \<open>C33: \<open>CalculateFileRangeEnd\<close> accepts exactly the ranges that end within the largest supported file
  size and returns the end without wrap-around; a rejected range is \<open>InvalidArgument\<close>.\<close>

theorem file_range_end_exact:
  "case CalculateFileRangeEnd off len of
     Inl e \<Rightarrow> e = kInvalidArgument \<and> (sint off < 0 \<or> unat off + unat len > unat kMaxSupportedFileSize)
   | Inr r \<Rightarrow> 0 \<le> sint off \<and> unat r = unat off + unat len \<and> r \<le> kMaxSupportedFileSize"
proof (cases "0 \<le> sint off \<and> len \<le> kMaxSupportedFileSize - off")
  case True
  then have "off \<le> kMaxSupportedFileSize"
    by (simp add: nonneg_off)
  with True show ?thesis
    using unat_plus_le [of len kMaxSupportedFileSize off] plus_le_word [of len kMaxSupportedFileSize off]
    by (auto simp: CalculateFileRangeEnd_def Let_def)
next
  case False
  then have "off \<le> kMaxSupportedFileSize \<Longrightarrow> unat off + unat len > unat kMaxSupportedFileSize"
    by (auto simp: nonneg_off word_le_nat_alt unat_sub)
  with False show ?thesis
    by (auto simp: CalculateFileRangeEnd_def Let_def nonneg_off neg_off not_le)
qed

end
