(* ===== verification/ChunkSizePlan.thy ===== *)
theory ChunkSizePlan
  imports Chunk_Geometry "HOL-Library.Multiset"
begin

text \<open>
  \<open>metadata/ChunkSizePlan.{hpp,cpp}\<close>: planning of a file size change over the chunk mappings of a file,
  and the re-validation of a plan at commit time. \<open>std::sort\<close> by index is \<^const>\<open>sort_key\<close>: the plan
  is only built when the indices are distinct, and then every sorting algorithm gives the same list.
  A \<open>ChunkID\<close> is its \<open>uint64_t\<close> value.
\<close>

definition kMaxChunkIDValue :: u64 where "kMaxChunkIDValue = 0x7FFFFFFFFFFFFFFF"

record ChunkSizeBoundary =
  sb_index :: u64
  sb_visible_prefix :: u64

record ChunkSizeLayout =
  sl_first_detached_index :: u64
  sl_boundary :: "ChunkSizeBoundary option"

record ChunkMapping =
  cm_index :: u64
  cm_chunk_id :: u64

record ChunkBoundarySnapshot =
  bs_index :: u64
  bs_chunk_id :: "u64 option"
  bs_visible_prefix :: u64

record RetainedChunkBoundary =
  rb_index :: u64
  rb_chunk_id :: u64
  rb_visible_prefix :: u64

record FileSizePrecondition =
  fp_eof :: u64
  fp_boundary :: "ChunkBoundarySnapshot option"

record ChunkSizePlan =
  pl_target_eof :: u64
  pl_expected_old_state :: FileSizePrecondition
  pl_boundary :: "RetainedChunkBoundary option"
  pl_detached_chunk_ids :: "u64 list"

definition ShouldDetach :: "ChunkSizeLayout \<Rightarrow> u64 \<Rightarrow> bool" where
  "ShouldDetach layout index \<longleftrightarrow> index \<ge> sl_first_detached_index layout"

definition IsValidChunkID :: "u64 \<Rightarrow> bool" where
  "IsValidChunkID cid \<longleftrightarrow> cid \<noteq> 0 \<and> cid \<le> kMaxChunkIDValue"

text \<open>The validation loop of \<open>NormalizeMappings\<close>; \<open>prev\<close> is the index of the element before.\<close>

fun check_mappings :: "u64 \<Rightarrow> u64 option \<Rightarrow> ChunkMapping list \<Rightarrow> unit res" where
  "check_mappings cs prev [] = Inr ()"
| "check_mappings cs prev (m # ms) =
    (if \<not> IsValidChunkID (cm_chunk_id m) then Inl kInvalidArgument
     else chk (CalculateChunkStartOffset (cm_index m) cs) (\<lambda>_.
       if prev = Some (cm_index m) then Inl kMalformed
       else check_mappings cs (Some (cm_index m)) ms))"

text \<open>\<open>std::sort\<close> leaves the order of elements with equal keys open; \<open>sort_key\<close> keeps it. The two agree on a list with
  distinct indices, and a list with a repeated index is refused in either case; only the error it is refused with may differ.\<close>

definition NormalizeMappings :: "u64 \<Rightarrow> ChunkMapping list \<Rightarrow> ChunkMapping list res" where
  "NormalizeMappings cs mappings =
    (let sorted = sort_key cm_index mappings in chk (check_mappings cs None sorted) (\<lambda>_. Inr sorted))"

definition FindChunkID :: "ChunkMapping list \<Rightarrow> u64 \<Rightarrow> u64 option" where
  "FindChunkID mappings index =
    (case dropWhile (\<lambda>m. cm_index m < index) mappings of
       [] \<Rightarrow> None
     | m # _ \<Rightarrow> if cm_index m \<noteq> index then None else Some (cm_chunk_id m))"

definition MakeBoundarySnapshot ::
    "ChunkSizeBoundary option \<Rightarrow> ChunkMapping list \<Rightarrow> ChunkBoundarySnapshot option" where
  "MakeBoundarySnapshot boundary mappings =
    (case boundary of None \<Rightarrow> None
     | Some b \<Rightarrow> Some \<lparr> bs_index = sb_index b, bs_chunk_id = FindChunkID mappings (sb_index b),
         bs_visible_prefix = sb_visible_prefix b \<rparr>)"

definition MakeRetainedBoundary ::
    "ChunkSizeBoundary option \<Rightarrow> ChunkMapping list \<Rightarrow> RetainedChunkBoundary option" where
  "MakeRetainedBoundary boundary mappings =
    (case MakeBoundarySnapshot boundary mappings of None \<Rightarrow> None
     | Some s \<Rightarrow> (case bs_chunk_id s of None \<Rightarrow> None
         | Some cid \<Rightarrow> Some \<lparr> rb_index = bs_index s, rb_chunk_id = cid, rb_visible_prefix = bs_visible_prefix s \<rparr>))"

definition ValidateFileChunkWrite :: "u64 \<Rightarrow> u64 \<Rightarrow> u64 \<Rightarrow> u64 \<Rightarrow> unit res" where
  "ValidateFileChunkWrite index chunk_id end_off chunk_size =
    (if \<not> IsValidChunkID chunk_id \<or> chunk_size = 0 \<or> end_off > kMaxSupportedFileSize then Inl kInvalidArgument
     else case CalculateChunkStartOffset index chunk_size of
       Inl _ \<Rightarrow> Inl kInvalidArgument
     | Inr start_offset \<Rightarrow>
         if end_off \<le> start_offset \<or> end_off - start_offset > chunk_size then Inl kInvalidArgument else Inr ())"

definition PlanChunkSizeLayout :: "u64 \<Rightarrow> u64 \<Rightarrow> ChunkSizeLayout res" where
  "PlanChunkSizeLayout target_eof chunk_size =
    (if chunk_size = 0 \<or> target_eof > kMaxSupportedFileSize then Inl kInvalidArgument
     else let visible_prefix = target_eof mod chunk_size; boundary_index = target_eof div chunk_size
       in Inr \<lparr> sl_first_detached_index = boundary_index + (if visible_prefix = 0 then 0 else 1),
            sl_boundary = (if visible_prefix = 0 then None
              else Some \<lparr> sb_index = boundary_index, sb_visible_prefix = visible_prefix \<rparr>) \<rparr>)"

definition ValidateFileSizePrecondition :: "FileSizePrecondition \<Rightarrow> u64 \<Rightarrow> unit res" where
  "ValidateFileSizePrecondition expected chunk_size =
    chk (PlanChunkSizeLayout (fp_eof expected) chunk_size) (\<lambda>layout.
      case (sl_boundary layout, fp_boundary expected) of
        (None, None) \<Rightarrow> Inr ()
      | (Some l, Some b) \<Rightarrow>
          if bs_index b \<noteq> sb_index l \<or> bs_visible_prefix b \<noteq> sb_visible_prefix l
            \<or> (case bs_chunk_id b of None \<Rightarrow> False | Some cid \<Rightarrow> \<not> IsValidChunkID cid)
          then Inl kInvalidArgument else Inr ()
      | _ \<Rightarrow> Inl kInvalidArgument)"

definition PlanChunkSizeChangeImpl ::
    "u64 \<Rightarrow> u64 \<Rightarrow> u64 \<Rightarrow> ChunkMapping list \<Rightarrow> ChunkSizePlan res" where
  "PlanChunkSizeChangeImpl old_size new_size chunk_size mappings =
    (if chunk_size = 0 \<or> old_size > kMaxSupportedFileSize \<or> new_size > kMaxSupportedFileSize
     then Inl kInvalidArgument
     else chk (NormalizeMappings chunk_size mappings) (\<lambda>sorted.
       chk (PlanChunkSizeLayout old_size chunk_size) (\<lambda>old_layout.
         let plan = \<lparr> pl_target_eof = new_size,
               pl_expected_old_state = \<lparr> fp_eof = old_size,
                 fp_boundary = MakeBoundarySnapshot (sl_boundary old_layout) sorted \<rparr>,
               pl_boundary = None, pl_detached_chunk_ids = [] \<rparr>
         in if new_size < old_size then
              chk (PlanChunkSizeLayout new_size chunk_size) (\<lambda>new_layout.
                Inr (plan \<lparr> pl_boundary := MakeRetainedBoundary (sl_boundary new_layout) sorted,
                  pl_detached_chunk_ids :=
                    map cm_chunk_id (filter (\<lambda>m. ShouldDetach new_layout (cm_index m)) sorted) \<rparr>))
            else if new_size > old_size then
              Inr (plan \<lparr> pl_boundary := MakeRetainedBoundary (sl_boundary old_layout) sorted \<rparr>)
            else Inr plan)))"

definition ValidateSizeCommitPlan ::
    "ChunkSizePlan \<Rightarrow> u64 \<Rightarrow> u64 \<Rightarrow> ChunkMapping list \<Rightarrow> bool \<Rightarrow> ChunkSizePlan res" where
  "ValidateSizeCommitPlan requested actual_eof chunk_size mappings is_shrink =
    (let old = pl_expected_old_state requested in
     if (if is_shrink then pl_target_eof requested \<ge> fp_eof old else pl_target_eof requested \<le> fp_eof old)
     then Inl kInvalidArgument
     else chk (ValidateFileSizePrecondition old chunk_size) (\<lambda>_.
       if actual_eof \<noteq> fp_eof old then Inl kAlreadyExists
       else chk (PlanChunkSizeChangeImpl actual_eof (pl_target_eof requested) chunk_size mappings) (\<lambda>current.
         case (fp_boundary old, fp_boundary (pl_expected_old_state current)) of
           (None, None) \<Rightarrow> Inr current
         | (Some e, Some a) \<Rightarrow>
             if bs_index e \<noteq> bs_index a \<or> bs_chunk_id e \<noteq> bs_chunk_id a \<or> bs_visible_prefix e \<noteq> bs_visible_prefix a
             then Inl kAlreadyExists else Inr current
         | _ \<Rightarrow> Inl kAlreadyExists)))"

section \<open>Specification\<close>

text \<open>The byte range of a mapping starts at \<open>index * chunk_size\<close>; a mapping is beyond an EOF when no byte of
  it is below the EOF. \<open>attached ms\<close> reads the mappings as a partial function.\<close>

definition beyond :: "u64 \<Rightarrow> u64 \<Rightarrow> ChunkMapping \<Rightarrow> bool" where
  "beyond eof cs m \<longleftrightarrow> unat eof \<le> unat (cm_index m) * unat cs"

definition attached :: "ChunkMapping list \<Rightarrow> u64 \<Rightarrow> u64 option" where
  "attached ms = map_of (map (\<lambda>m. (cm_index m, cm_chunk_id m)) ms)"

definition mappings_ok :: "u64 \<Rightarrow> ChunkMapping list \<Rightarrow> bool" where
  "mappings_ok cs ms \<longleftrightarrow> cs \<noteq> 0 \<and> distinct (map cm_index ms)
     \<and> (\<forall>m\<in>set ms. IsValidChunkID (cm_chunk_id m) \<and> unat (cm_index m) * unat cs \<le> unat kMaxSupportedFileSize)"

text \<open>The interior boundary of an EOF: the chunk the EOF cuts, and how much of it stays visible.\<close>

definition interior :: "u64 \<Rightarrow> u64 \<Rightarrow> ChunkSizeBoundary option" where
  "interior eof cs = (if eof mod cs = 0 then None else Some \<lparr> sb_index = eof div cs, sb_visible_prefix = eof mod cs \<rparr>)"

section \<open>Lemmas\<close>

lemma check_mappings_Inr_iff:
  assumes "sorted (map cm_index ms)" "cs \<noteq> 0" "\<forall>i. prev = Some i \<longrightarrow> (\<forall>m\<in>set ms. i \<le> cm_index m)"
  shows "check_mappings cs prev ms = Inr () \<longleftrightarrow> mappings_ok cs ms \<and> (\<forall>i. prev = Some i \<longrightarrow> i \<notin> cm_index ` set ms)"
  using assms
proof (induction ms arbitrary: prev)
  case Nil
  then show ?case
    by (simp add: mappings_ok_def)
next
  case (Cons m ms)
  have step: "check_mappings cs prev (m # ms) = Inr () \<longleftrightarrow>
      IsValidChunkID (cm_chunk_id m) \<and> unat (cm_index m) * unat cs \<le> unat kMaxSupportedFileSize
      \<and> prev \<noteq> Some (cm_index m) \<and> check_mappings cs (Some (cm_index m)) ms = Inr ()"
    using Cons.prems(2) by (auto simp: chk_Inr_iff CalculateChunkStartOffset_Inr_iff)
  have rec: "check_mappings cs (Some (cm_index m)) ms = Inr () \<longleftrightarrow> mappings_ok cs ms \<and> cm_index m \<notin> cm_index ` set ms"
    using Cons.prems by (subst Cons.IH) auto
  have "i = cm_index m" if "prev = Some i" "i \<in> cm_index ` set ms" for i
    using that Cons.prems(1,3) by (auto intro: order.antisym)
  then have "(\<forall>i. prev = Some i \<longrightarrow> i \<notin> cm_index ` set (m # ms)) \<longleftrightarrow> prev \<noteq> Some (cm_index m)"
    by auto
  moreover have "mappings_ok cs (m # ms) \<longleftrightarrow> IsValidChunkID (cm_chunk_id m) \<and> mappings_ok cs ms
      \<and> unat (cm_index m) * unat cs \<le> unat kMaxSupportedFileSize \<and> cm_index m \<notin> cm_index ` set ms"
    by (auto simp: mappings_ok_def)
  ultimately show ?case
    unfolding step rec by blast
qed

lemma mappings_ok_mset: "mset ms = mset ms' \<Longrightarrow> mappings_ok cs ms = mappings_ok cs ms'"
proof -
  assume eq: "mset ms = mset ms'"
  then have "mset (map cm_index ms) = mset (map cm_index ms')"
    by simp
  then have "distinct (map cm_index ms) = distinct (map cm_index ms')"
    by (rule mset_eq_imp_distinct_iff)
  then show ?thesis
    using mset_eq_setD [OF eq] by (simp add: mappings_ok_def)
qed

lemma NormalizeMappings_Inr_iff:
  assumes "cs \<noteq> 0"
  shows "NormalizeMappings cs ms = Inr srt \<longleftrightarrow> mappings_ok cs ms \<and> srt = sort_key cm_index ms"
proof -
  have "check_mappings cs None (sort_key cm_index ms) = Inr () \<longleftrightarrow> mappings_ok cs (sort_key cm_index ms)"
    using assms by (subst check_mappings_Inr_iff) simp_all
  also have "\<dots> \<longleftrightarrow> mappings_ok cs ms"
    by (rule mappings_ok_mset) simp
  finally show ?thesis
    by (auto simp: NormalizeMappings_def Let_def chk_Inr_iff)
qed

lemma FindChunkID_attached:
  "sorted (map cm_index ms) \<Longrightarrow> FindChunkID ms i = attached ms i"
proof (induction ms)
  case (Cons m ms)
  have "cm_index m > i \<Longrightarrow> attached ms i = None"
    using Cons.prems by (force simp: attached_def map_of_eq_None_iff)
  then show ?case
    using Cons by (auto simp: FindChunkID_def attached_def)
qed (simp add: FindChunkID_def attached_def)

lemma attached_mset:
  assumes "mset ms = mset ms'" "distinct (map cm_index ms)"
  shows "attached ms = attached ms'"
proof -
  let ?f = "\<lambda>m. (cm_index m, cm_chunk_id m)"
  have "mset (map cm_index ms) = mset (map cm_index ms')"
    using assms(1) by simp
  then have "distinct (map cm_index ms')"
    using assms(2) mset_eq_imp_distinct_iff by blast
  moreover have "map fst (map ?f xs) = map cm_index xs" for xs
    by simp
  ultimately show ?thesis
    unfolding attached_def using assms mset_eq_setD [OF assms(1)] by (subst map_of_inject_set) (simp_all add: comp_def)
qed

lemma PlanChunkSizeLayout_Inr_iff:
  "PlanChunkSizeLayout eof cs = Inr l \<longleftrightarrow> cs \<noteq> 0 \<and> eof \<le> kMaxSupportedFileSize
     \<and> l = \<lparr> sl_first_detached_index = eof div cs + (if eof mod cs = 0 then 0 else 1), sl_boundary = interior eof cs \<rparr>"
  by (auto simp: PlanChunkSizeLayout_def interior_def Let_def not_le)

lemma round_up_le_iff:
  assumes "0 < (c :: nat)"
  shows "n div c + (if n mod c = 0 then 0 else 1) \<le> i \<longleftrightarrow> n \<le> i * c"
proof (cases "n mod c = 0")
  case True
  then have "n = n div c * c"
    by (simp add: mod_0_imp_dvd)
  then show ?thesis
    using assms True by (metis add.right_neutral mult_le_cancel2 neq0_conv)
next
  case False
  then have "n \<noteq> i * c"
    by auto
  moreover have "Suc (n div c) \<le> i \<longleftrightarrow> n < i * c"
    using assms by (simp add: Suc_le_eq div_less_iff_less_mult)
  ultimately show ?thesis
    using False by auto
qed

text \<open>The first detached index is the rounded-up quotient: exactly the mappings beyond the EOF detach.\<close>

lemma detach_iff_beyond:
  assumes "cs \<noteq> 0" "eof \<le> kMaxSupportedFileSize"
  shows "eof div cs + (if eof mod cs = 0 then 0 else 1) \<le> i \<longleftrightarrow> unat eof \<le> unat i * unat cs"
proof -
  have cs: "0 < unat cs"
    using assms(1) by (simp add: unat_gt_0)
  have "unat eof div unat cs \<le> unat eof"
    by simp
  also have "\<dots> \<le> 2 ^ 63 - 1"
    using assms(2) by (simp add: word_le_nat_alt unat_kMax)
  finally have small: "unat eof div unat cs + 1 < 2 ^ 64"
    by simp
  have "unat (eof div cs + (if eof mod cs = 0 then 0 else 1)) = unat eof div unat cs + (if unat eof mod unat cs = 0 then 0 else 1)"
  proof -
    have "eof mod cs = 0 \<longleftrightarrow> unat eof mod unat cs = 0"
      using unat_mod [of eof cs] unat_eq_zero [of "eof mod cs"] by simp
    then show ?thesis
      using small by (simp add: unat_word_ariths(1) unat_div)
  qed
  moreover have "unat eof div unat cs + (if unat eof mod unat cs = 0 then 0 else 1) \<le> unat i \<longleftrightarrow> unat eof \<le> unat i * unat cs"
    by (rule round_up_le_iff [OF cs])
  ultimately show ?thesis
    by (simp add: word_le_nat_alt)
qed

lemma ShouldDetach_beyond:
  "PlanChunkSizeLayout eof cs = Inr l \<Longrightarrow> ShouldDetach l (cm_index m) \<longleftrightarrow> beyond eof cs m"
  using detach_iff_beyond [of cs eof "cm_index m"]
  by (auto simp: PlanChunkSizeLayout_Inr_iff ShouldDetach_def beyond_def)

text \<open>The boundaries of a plan, read off the mappings as a partial function.\<close>

definition snapshot_of :: "u64 \<Rightarrow> u64 \<Rightarrow> ChunkMapping list \<Rightarrow> ChunkBoundarySnapshot option" where
  "snapshot_of eof cs ms = map_option (\<lambda>b. \<lparr> bs_index = sb_index b, bs_chunk_id = attached ms (sb_index b),
     bs_visible_prefix = sb_visible_prefix b \<rparr>) (interior eof cs)"

definition retained_of :: "u64 \<Rightarrow> u64 \<Rightarrow> ChunkMapping list \<Rightarrow> RetainedChunkBoundary option" where
  "retained_of eof cs ms = (case interior eof cs of None \<Rightarrow> None | Some b \<Rightarrow>
     map_option (\<lambda>cid. \<lparr> rb_index = sb_index b, rb_chunk_id = cid, rb_visible_prefix = sb_visible_prefix b \<rparr>)
       (attached ms (sb_index b)))"

lemma attached_sort: "mappings_ok cs ms \<Longrightarrow> attached (sort_key cm_index ms) = attached ms"
  by (rule attached_mset [symmetric]) (simp_all add: mappings_ok_def)

lemma snapshot_of_sort:
  "mappings_ok cs ms \<Longrightarrow> MakeBoundarySnapshot (interior eof cs) (sort_key cm_index ms) = snapshot_of eof cs ms"
  by (auto simp: MakeBoundarySnapshot_def snapshot_of_def FindChunkID_attached attached_sort split: option.splits)

lemma retained_of_sort:
  "mappings_ok cs ms \<Longrightarrow> MakeRetainedBoundary (interior eof cs) (sort_key cm_index ms) = retained_of eof cs ms"
  by (auto simp: MakeRetainedBoundary_def MakeBoundarySnapshot_def retained_of_def FindChunkID_attached
      attached_sort split: option.splits)

lemma Plan_Inr_iff:
  "PlanChunkSizeChangeImpl old new cs ms = Inr plan \<longleftrightarrow>
     old \<le> kMaxSupportedFileSize \<and> new \<le> kMaxSupportedFileSize \<and> mappings_ok cs ms
     \<and> plan = \<lparr> pl_target_eof = new,
         pl_expected_old_state = \<lparr> fp_eof = old, fp_boundary = snapshot_of old cs ms \<rparr>,
         pl_boundary = (if new < old then retained_of new cs ms else if old < new then retained_of old cs ms else None),
         pl_detached_chunk_ids = (if new < old then map cm_chunk_id (filter (beyond new cs) (sort_key cm_index ms)) else []) \<rparr>"
proof (cases "cs \<noteq> 0 \<and> old \<le> kMaxSupportedFileSize \<and> new \<le> kMaxSupportedFileSize \<and> mappings_ok cs ms")
  case True
  then obtain lo ln where lo: "PlanChunkSizeLayout old cs = Inr lo" "sl_boundary lo = interior old cs"
    and ln: "PlanChunkSizeLayout new cs = Inr ln" "sl_boundary ln = interior new cs"
    by (simp add: PlanChunkSizeLayout_Inr_iff)
  have "NormalizeMappings cs ms = Inr (sort_key cm_index ms)"
    using True by (simp add: NormalizeMappings_Inr_iff)
  moreover have "filter (\<lambda>m. ShouldDetach ln (cm_index m)) xs = filter (beyond new cs) xs" for xs
    using ShouldDetach_beyond [OF ln(1)] by (simp cong: filter_cong)
  ultimately show ?thesis
    using True lo ln by (auto simp: PlanChunkSizeChangeImpl_def Let_def snapshot_of_sort retained_of_sort)
next
  case False
  then show ?thesis
    by (auto simp: PlanChunkSizeChangeImpl_def Let_def chk_Inr_iff NormalizeMappings_Inr_iff mappings_ok_def
        split: if_splits)
qed

lemma div_mod_bounds:
  assumes "0 < (c :: nat)"
  shows "n mod c \<noteq> 0 \<and> i = n div c \<and> v = n mod c \<longleftrightarrow> i * c < n \<and> n < (i + 1) * c \<and> v = n - i * c"
proof
  assume L: "n mod c \<noteq> 0 \<and> i = n div c \<and> v = n mod c"
  then have "n = i * c + v" "0 < v" "v < c"
    using assms div_mult_mod_eq [of n c] by simp_all
  then show "i * c < n \<and> n < (i + 1) * c \<and> v = n - i * c"
    by simp
next
  assume R: "i * c < n \<and> n < (i + 1) * c \<and> v = n - i * c"
  then have "n = i * c + v" "0 < v" "v < c"
    by auto
  then show "n mod c \<noteq> 0 \<and> i = n div c \<and> v = n mod c"
    by simp
qed

lemma interior_bounds:
  assumes "cs \<noteq> 0"
  shows "interior eof cs = Some b \<longleftrightarrow> unat (sb_index b) * unat cs < unat eof
     \<and> unat eof < (unat (sb_index b) + 1) * unat cs \<and> unat (sb_visible_prefix b) = unat eof - unat (sb_index b) * unat cs"
proof -
  have cs: "0 < unat cs"
    using assms by (simp add: unat_gt_0)
  have z: "eof mod cs = 0 \<longleftrightarrow> unat eof mod unat cs = 0"
    using unat_mod [of eof cs] unat_eq_zero [of "eof mod cs"] by simp
  have "interior eof cs = Some b \<longleftrightarrow> unat eof mod unat cs \<noteq> 0 \<and> unat (sb_index b) = unat eof div unat cs
      \<and> unat (sb_visible_prefix b) = unat eof mod unat cs"
    unfolding interior_def z by (cases b) (auto simp: word_unat_eq_iff unat_div unat_mod)
  also have "\<dots> \<longleftrightarrow> unat (sb_index b) * unat cs < unat eof \<and> unat eof < (unat (sb_index b) + 1) * unat cs
      \<and> unat (sb_visible_prefix b) = unat eof - unat (sb_index b) * unat cs"
    by (rule div_mod_bounds [OF cs])
  finally show ?thesis .
qed

lemma attached_Some_iff:
  "mappings_ok cs ms \<Longrightarrow> attached ms i = Some cid \<longleftrightarrow> (\<exists>m\<in>set ms. cm_index m = i \<and> cm_chunk_id m = cid)"
  by (auto simp: attached_def mappings_ok_def comp_def)

lemma retained_of_iff:
  assumes "mappings_ok cs ms"
  shows "retained_of eof cs ms = Some r \<longleftrightarrow> (\<exists>m\<in>set ms. rb_index r = cm_index m \<and> rb_chunk_id r = cm_chunk_id m
     \<and> unat (cm_index m) * unat cs < unat eof \<and> unat eof < (unat (cm_index m) + 1) * unat cs
     \<and> unat (rb_visible_prefix r) = unat eof - unat (cm_index m) * unat cs)"
proof -
  have cs: "cs \<noteq> 0"
    using assms by (simp add: mappings_ok_def)
  have "retained_of eof cs ms = Some r \<longleftrightarrow> (\<exists>b. interior eof cs = Some b \<and> attached ms (sb_index b) = Some (rb_chunk_id r)
      \<and> rb_index r = sb_index b \<and> rb_visible_prefix r = sb_visible_prefix b)"
    by (cases r) (auto simp: retained_of_def split: option.splits)
  also have "\<dots> \<longleftrightarrow> interior eof cs = Some \<lparr> sb_index = rb_index r, sb_visible_prefix = rb_visible_prefix r \<rparr>
      \<and> attached ms (rb_index r) = Some (rb_chunk_id r)"
    by (auto intro: exI [where x="\<lparr> sb_index = rb_index r, sb_visible_prefix = rb_visible_prefix r \<rparr>"])
  also have "\<dots> \<longleftrightarrow> (\<exists>m\<in>set ms. cm_index m = rb_index r \<and> cm_chunk_id m = rb_chunk_id r)
      \<and> unat (rb_index r) * unat cs < unat eof \<and> unat eof < (unat (rb_index r) + 1) * unat cs
      \<and> unat (rb_visible_prefix r) = unat eof - unat (rb_index r) * unat cs"
    by (auto simp: interior_bounds [OF cs] attached_Some_iff [OF assms])
  finally show ?thesis
    by metis
qed

lemma boundaries_cong:
  assumes "attached ms = attached ms'"
  shows "snapshot_of eof cs ms = snapshot_of eof cs ms'" "retained_of eof cs ms = retained_of eof cs ms'"
  unfolding snapshot_of_def retained_of_def assms by simp_all

lemma precondition_of_snapshot:
  assumes "mappings_ok cs ms" "eof \<le> kMaxSupportedFileSize"
  shows "ValidateFileSizePrecondition \<lparr> fp_eof = eof, fp_boundary = snapshot_of eof cs ms \<rparr> cs = Inr ()"
proof -
  have "attached ms i = Some cid \<Longrightarrow> IsValidChunkID cid" for i cid
    using assms(1) by (auto simp: attached_Some_iff [OF assms(1)] mappings_ok_def)
  moreover obtain l where "PlanChunkSizeLayout eof cs = Inr l" "sl_boundary l = interior eof cs"
    using assms by (simp add: PlanChunkSizeLayout_Inr_iff mappings_ok_def)
  ultimately show ?thesis
    by (auto simp: ValidateFileSizePrecondition_def snapshot_of_def split: option.splits)
qed

lemma same_boundary:
  "(case (x, y) of (None, None) \<Rightarrow> Inr c
     | (Some e, Some a) \<Rightarrow>
         if bs_index e \<noteq> bs_index a \<or> bs_chunk_id e \<noteq> bs_chunk_id a \<or> bs_visible_prefix e \<noteq> bs_visible_prefix a
         then Inl kAlreadyExists else Inr c
     | _ \<Rightarrow> Inl kAlreadyExists) = (if x = y then Inr c else Inl kAlreadyExists)"
  for x y :: "ChunkBoundarySnapshot option"
  by (auto split: option.splits intro: ChunkBoundarySnapshot.equality)

lemma commit_of_plan:
  assumes plan: "PlanChunkSizeChangeImpl old new cs ms = Inr plan" and "new \<noteq> old"
  shows "ValidateSizeCommitPlan plan eof cs ms' (new < old) =
    (if eof \<noteq> old then Inl kAlreadyExists
     else chk (PlanChunkSizeChangeImpl old new cs ms') (\<lambda>current.
       if fp_boundary (pl_expected_old_state plan) = fp_boundary (pl_expected_old_state current)
       then Inr current else Inl kAlreadyExists))"
proof -
  have ok: "mappings_ok cs ms" "old \<le> kMaxSupportedFileSize"
    and p: "pl_target_eof plan = new" "pl_expected_old_state plan = \<lparr> fp_eof = old, fp_boundary = snapshot_of old cs ms \<rparr>"
    using plan by (auto simp: Plan_Inr_iff)
  then show ?thesis
    using assms(2) precondition_of_snapshot [OF ok]
    unfolding ValidateSizeCommitPlan_def same_boundary by (auto simp: Let_def)
qed

section \<open>Properties\<close>

text \<open>C8: a shrink plan is exact. When \<open>PlanChunkSizeChange\<close> succeeds for a smaller size, the detached ids are
  those of the mappings that lie wholly beyond the new EOF, each exactly once; the retained boundary is the
  mapping the new EOF cuts, with the number of its bytes that stay visible; so every mapping is kept
  whole, clamped at the boundary, or detached.\<close>

theorem shrink_plan_exact:
  assumes "PlanChunkSizeChangeImpl old new cs ms = Inr plan" "new < old"
  shows "mset (pl_detached_chunk_ids plan) = image_mset cm_chunk_id (filter_mset (beyond new cs) (mset ms))
    \<and> (\<forall>r. pl_boundary plan = Some r \<longleftrightarrow> (\<exists>m\<in>set ms. rb_index r = cm_index m \<and> rb_chunk_id r = cm_chunk_id m
         \<and> unat (cm_index m) * unat cs < unat new \<and> unat new < (unat (cm_index m) + 1) * unat cs
         \<and> unat (rb_visible_prefix r) = unat new - unat (cm_index m) * unat cs))
    \<and> pl_target_eof plan = new"
proof -
  have ok: "mappings_ok cs ms" and plan: "pl_boundary plan = retained_of new cs ms" "pl_target_eof plan = new"
    "pl_detached_chunk_ids plan = map cm_chunk_id (filter (beyond new cs) (sort_key cm_index ms))"
    using assms by (auto simp: Plan_Inr_iff)
  show ?thesis
    using plan retained_of_iff [OF ok, of new] by (simp add: mset_filter)
qed

definition ex_mappings :: "ChunkMapping list" where
  "ex_mappings = [\<lparr> cm_index = 3, cm_chunk_id = 9 \<rparr>, \<lparr> cm_index = 0, cm_chunk_id = 7 \<rparr>, \<lparr> cm_index = 1, cm_chunk_id = 8 \<rparr>]"

definition ex_shrink :: ChunkSizePlan where
  "ex_shrink = \<lparr> pl_target_eof = 5000,
     pl_expected_old_state = \<lparr> fp_eof = 16000,
       fp_boundary = Some \<lparr> bs_index = 3, bs_chunk_id = Some 9, bs_visible_prefix = 3712 \<rparr> \<rparr>,
     pl_boundary = Some \<lparr> rb_index = 1, rb_chunk_id = 8, rb_visible_prefix = 904 \<rparr>,
     pl_detached_chunk_ids = [9] \<rparr>"

lemma ex_shrink_plan: "PlanChunkSizeChangeImpl 16000 5000 4096 ex_mappings = Inr ex_shrink"
  by code_simp

theorem shrink_plan_exact_witness:
  "PlanChunkSizeChangeImpl 16000 5000 4096 ex_mappings = Inr ex_shrink \<and> (5000 :: u64) < 16000
   \<and> mset (pl_detached_chunk_ids ex_shrink) = image_mset cm_chunk_id (filter_mset (beyond 5000 4096) (mset ex_mappings))"
proof -
  have "(5000 :: u64) < 16000"
    by simp
  then show ?thesis
    using shrink_plan_exact [OF ex_shrink_plan] ex_shrink_plan by blast
qed

text \<open>C31: a grow plan detaches nothing and asks for sanitation of exactly the mapping that the old EOF cuts.\<close>

theorem grow_plan_exact:
  assumes "PlanChunkSizeChangeImpl old new cs ms = Inr plan" "old < new"
  shows "pl_detached_chunk_ids plan = []
    \<and> (\<forall>r. pl_boundary plan = Some r \<longleftrightarrow> (\<exists>m\<in>set ms. rb_index r = cm_index m \<and> rb_chunk_id r = cm_chunk_id m
         \<and> unat (cm_index m) * unat cs < unat old \<and> unat old < (unat (cm_index m) + 1) * unat cs
         \<and> unat (rb_visible_prefix r) = unat old - unat (cm_index m) * unat cs))"
proof -
  have ok: "mappings_ok cs ms" and plan: "pl_boundary plan = retained_of old cs ms" "pl_detached_chunk_ids plan = []"
    using assms by (auto simp: Plan_Inr_iff)
  show ?thesis
    using plan retained_of_iff [OF ok, of old] by simp
qed

theorem grow_plan_exact_witness:
  "\<exists>plan. PlanChunkSizeChangeImpl 5000 16000 4096 ex_mappings = Inr plan \<and> (5000 :: u64) < 16000
    \<and> pl_detached_chunk_ids plan = []"
proof -
  have "case PlanChunkSizeChangeImpl 5000 16000 4096 ex_mappings of Inl _ \<Rightarrow> False | Inr _ \<Rightarrow> True"
    by code_simp
  then obtain plan where plan: "PlanChunkSizeChangeImpl 5000 16000 4096 ex_mappings = Inr plan"
    by (auto split: sum.splits)
  moreover have lt: "(5000 :: u64) < 16000"
    by simp
  ultimately show ?thesis
    using grow_plan_exact [OF plan lt] by blast
qed

text \<open>C30: planning does not depend on the order of the mapping snapshot, and it succeeds exactly when both
  sizes are supported and the mappings have distinct indices, valid ids and start offsets in range.\<close>

theorem plan_total_and_order_free:
  assumes "mset ms = mset ms'"
  shows "(PlanChunkSizeChangeImpl old new cs ms = Inr plan \<longleftrightarrow> PlanChunkSizeChangeImpl old new cs ms' = Inr plan)
    \<and> (ok (PlanChunkSizeChangeImpl old new cs ms) \<longleftrightarrow>
         old \<le> kMaxSupportedFileSize \<and> new \<le> kMaxSupportedFileSize \<and> mappings_ok cs ms)"
proof -
  have ok: "mappings_ok cs ms = mappings_ok cs ms'"
    by (rule mappings_ok_mset [OF assms])
  have "attached ms = attached ms' \<and> sort_key cm_index ms = sort_key cm_index ms'" if "mappings_ok cs ms"
    using that attached_mset [OF assms] sort_key_eq_sort_key [OF assms, of cm_index]
    by (simp add: mappings_ok_def distinct_map)
  then have "(PlanChunkSizeChangeImpl old new cs ms = Inr plan) = (PlanChunkSizeChangeImpl old new cs ms' = Inr plan)"
    unfolding Plan_Inr_iff using ok boundaries_cong [of ms ms'] by (cases "mappings_ok cs ms") simp_all
  moreover have "ok r \<longleftrightarrow> (\<exists>x. r = Inr x)" for r :: "ChunkSizePlan res"
    by (cases r) simp_all
  ultimately show ?thesis
    by (simp add: Plan_Inr_iff)
qed

theorem plan_total_and_order_free_witness:
  "mset ex_mappings = mset (rev ex_mappings) \<and> PlanChunkSizeChangeImpl 16000 5000 4096 (rev ex_mappings) = Inr ex_shrink"
proof -
  have m: "mset ex_mappings = mset (rev ex_mappings)"
    by simp
  show ?thesis
    using plan_total_and_order_free [OF m, of 16000 5000 4096 ex_shrink] ex_shrink_plan m by blast
qed

text \<open>C9: a plan is committed only against the state it was made for. Let a plan come from a snapshot with
  size \<open>old\<close>. If the commit-time validation accepts it against the current size and mappings, the size is
  still \<open>old\<close>, the attachment at the old EOF boundary is unchanged, and what is committed is the plan of the
  current mappings, so no attachment that appeared in between is missed. Against the unchanged state the
  same plan is accepted.\<close>

theorem commit_revalidates_plan:
  assumes "PlanChunkSizeChangeImpl old new cs ms = Inr plan" "new \<noteq> old"
  shows "(ValidateSizeCommitPlan plan eof cs ms' (new < old) = Inr current \<longrightarrow>
      eof = old \<and> PlanChunkSizeChangeImpl old new cs ms' = Inr current
      \<and> fp_boundary (pl_expected_old_state current) = fp_boundary (pl_expected_old_state plan))
    \<and> ValidateSizeCommitPlan plan old cs ms (new < old) = Inr plan
    \<and> (eof \<noteq> old \<longrightarrow> ValidateSizeCommitPlan plan eof cs ms' (new < old) = Inl kAlreadyExists)"
  unfolding commit_of_plan [OF assms] using assms(1) by (auto simp: chk_Inr_iff Plan_Inr_iff split: if_splits)

theorem commit_revalidates_plan_witness:
  "PlanChunkSizeChangeImpl 16000 5000 4096 ex_mappings = Inr ex_shrink \<and> (5000 :: u64) \<noteq> 16000
   \<and> ValidateSizeCommitPlan ex_shrink 16000 4096 ex_mappings True = Inr ex_shrink
   \<and> ValidateSizeCommitPlan ex_shrink 16001 4096 ex_mappings True = Inl kAlreadyExists"
proof -
  have ne: "(5000 :: u64) \<noteq> 16000" "((5000 :: u64) < 16000) = True" "(16001 :: u64) \<noteq> 16000"
    by simp_all
  show ?thesis
    using commit_revalidates_plan [OF ex_shrink_plan ne(1), of 16001 ex_mappings ex_shrink] ex_shrink_plan
    unfolding ne(2) using ne by blast
qed

text \<open>C32: \<open>ValidateFileChunkWrite\<close> accepts a write exactly when the id is valid and the exclusive end offset
  lies in the chunk: after the first byte of the chunk, not past its last byte, and within the supported
  file size.\<close>

theorem chunk_write_extent_exact:
  "ValidateFileChunkWrite index cid e cs = Inr () \<longleftrightarrow>
     IsValidChunkID cid \<and> cs \<noteq> 0 \<and> e \<le> kMaxSupportedFileSize
     \<and> unat index * unat cs < unat e \<and> unat e \<le> (unat index + 1) * unat cs"
proof (cases "CalculateChunkStartOffset index cs")
  case (Inl err)
  then have "cs = 0 \<or> unat kMaxSupportedFileSize < unat index * unat cs"
    using CalculateChunkStartOffset_Inr_iff [of index cs "index * cs"] by (auto simp: not_le)
  then have "\<not> (cs \<noteq> 0 \<and> unat e \<le> unat kMaxSupportedFileSize \<and> unat index * unat cs < unat e)"
    by linarith
  moreover have "ValidateFileChunkWrite index cid e cs \<noteq> Inr ()"
    using Inl by (simp add: ValidateFileChunkWrite_def)
  ultimately show ?thesis
    unfolding word_le_nat_alt by blast
next
  case (Inr st)
  then have "cs \<noteq> 0"
    by (simp add: CalculateChunkStartOffset_Inr_iff)
  note st = start_offset_value [OF Inr]
  have "st < e \<and> e - st \<le> cs \<longleftrightarrow> unat st < unat e \<and> unat e \<le> unat st + unat cs"
    by (auto simp: word_less_nat_alt word_le_nat_alt unat_sub)
  also have "\<dots> \<longleftrightarrow> unat index * unat cs < unat e \<and> unat e \<le> (unat index + 1) * unat cs"
    unfolding st by (simp add: add.commute)
  finally have "st < e \<and> e - st \<le> cs \<longleftrightarrow> unat index * unat cs < unat e \<and> unat e \<le> (unat index + 1) * unat cs" .
  moreover have "ValidateFileChunkWrite index cid e cs = Inr () \<longleftrightarrow>
      IsValidChunkID cid \<and> cs \<noteq> 0 \<and> e \<le> kMaxSupportedFileSize \<and> (st < e \<and> e - st \<le> cs)"
    using Inr by (auto simp: ValidateFileChunkWrite_def not_le)
  ultimately show ?thesis
    by blast
qed

end
