(* ===== verification/MetaUtils.thy ===== *)
theory MetaUtils
  imports Inode
begin

text \<open>
  \<open>metadata/InodePolicy.hpp\<close> (immutable and append-only inodes) and \<open>metadata/Utils.{hpp,cpp}\<close> (the
  setattr transition, create-time group inheritance, directory entry types, name, mknod and URL checks).
\<close>

section \<open>InodePolicy.hpp\<close>

definition IsImmutable :: "SwordFsAttr \<Rightarrow> bool" where
  "IsImmutable a \<longleftrightarrow> HasInodeFlag (a_inode_flags a) kImmutable"

definition IsAppendOnly :: "SwordFsAttr \<Rightarrow> bool" where
  "IsAppendOnly a \<longleftrightarrow> HasInodeFlag (a_inode_flags a) kAppendOnly"

definition HasRestrictiveInodePolicy :: "SwordFsAttr \<Rightarrow> bool" where
  "HasRestrictiveInodePolicy a \<longleftrightarrow> IsImmutable a \<or> IsAppendOnly a"

definition CheckSetAttrPolicy :: "SwordFsAttr \<Rightarrow> u32 \<Rightarrow> unit res" where
  "CheckSetAttrPolicy a fs =
    (if IsImmutable a then Inl kNotPermitted
     else if \<not> IsAppendOnly a then Inr ()
     else let always_forbidden = fMode OR fUid OR fGid OR fSize;
              explicit_atime = (HasSetAttrField fs fAtime \<and> \<not> HasSetAttrField fs fAtimeNow);
              explicit_mtime = (HasSetAttrField fs fMtime \<and> \<not> HasSetAttrField fs fMtimeNow)
       in if fs AND always_forbidden \<noteq> 0 \<or> explicit_atime \<or> explicit_mtime then Inl kNotPermitted else Inr ())"

definition CheckContentMetadataMutationPolicy :: "SwordFsAttr \<Rightarrow> unit res" where
  "CheckContentMetadataMutationPolicy a = reject (HasRestrictiveInodePolicy a) kNotPermitted"

definition CheckDirectoryAdditionPolicy :: "SwordFsAttr \<Rightarrow> unit res" where
  "CheckDirectoryAdditionPolicy parent = reject (IsImmutable parent) kNotPermitted"

definition CheckDirectoryRemovalPolicy :: "SwordFsAttr \<Rightarrow> unit res" where
  "CheckDirectoryRemovalPolicy parent = reject (HasRestrictiveInodePolicy parent) kNotPermitted"

section \<open>Utils.cpp\<close>

text \<open>\<open>if (c) attr.field = ...;\<close> and \<open>if (c) next.Touch(field);\<close>\<close>

definition assign_if :: "bool \<Rightarrow> (SwordFsAttr \<Rightarrow> SwordFsAttr) \<Rightarrow> SwordFsInode \<Rightarrow> SwordFsInode" where
  "assign_if c f i = (if c then i \<lparr> i_attr := f (i_attr i) \<rparr> else i)"

definition touch_if :: "i64 \<Rightarrow> bool \<Rightarrow> u32 \<Rightarrow> SwordFsInode \<Rightarrow> SwordFsInode" where
  "touch_if now c fld i = (if c then Touch now fld i else i)"

text \<open>The attribute assignments of \<open>PrepareSetAttrMutation\<close>, in source order.\<close>

definition apply_setattr :: "i64 \<Rightarrow> SwordFsInode \<Rightarrow> SwordFsAttr \<Rightarrow> u32 \<Rightarrow> SwordFsInode" where
  "apply_setattr now current req fs =
    (let size_changed = (HasSetAttrField fs fSize \<and> a_size req \<noteq> a_size (i_attr current));
         i = assign_if (HasSetAttrField fs fMode)
               (\<lambda>a. a \<lparr> a_mode := (a_mode a AND S_IFMT) OR (a_mode req AND 0xFFF) \<rparr>) current;
         i = assign_if (HasSetAttrField fs fUid) (\<lambda>a. a \<lparr> a_uid := a_uid req \<rparr>) i;
         i = assign_if (HasSetAttrField fs fGid) (\<lambda>a. a \<lparr> a_gid := a_gid req \<rparr>) i;
         i = assign_if (HasSetAttrField fs fSize) (\<lambda>a. a \<lparr> a_size := a_size req \<rparr>) i;
         i = assign_if (HasSetAttrField fs fAtime)
               (\<lambda>a. a \<lparr> a_atime := a_atime req, a_atime_nsec := a_atime_nsec req \<rparr>) i;
         i = assign_if (HasSetAttrField fs fMtime)
               (\<lambda>a. a \<lparr> a_mtime := a_mtime req, a_mtime_nsec := a_mtime_nsec req \<rparr>) i;
         i = touch_if now (HasSetAttrField fs fAtimeNow) fAtime i;
         i = touch_if now (HasSetAttrField fs fMtimeNow) fMtime i;
         i = assign_if (HasSetAttrField fs fCtime)
               (\<lambda>a. a \<lparr> a_ctime := a_ctime req, a_ctime_nsec := a_ctime_nsec req \<rparr>) i;
         i = assign_if (HasSetAttrField fs fKillSuidGid) ClearSetidForKillPriv i;
         i = touch_if now (size_changed \<and> \<not> HasSetAttrField fs fMtime \<and> \<not> HasSetAttrField fs fMtimeNow) fMtime i
     in touch_if now (\<not> HasSetAttrField fs fCtime) fCtime i)"

definition PrepareSetAttrMutation :: "i64 \<Rightarrow> SwordFsInode \<Rightarrow> SwordFsAttr \<Rightarrow> u32 \<Rightarrow> SwordFsInode res" where
  "PrepareSetAttrMutation now current requested fs =
    chk (CheckSetAttrPolicy (i_attr current) fs) (\<lambda>_.
      let i = apply_setattr now current requested fs
      in if HasSetAttrField fs fMode then SyncPosixAccessAclForMode i (i_mode i) else Inr i)"

definition ResolveCreateInheritance :: "u64 \<Rightarrow> SwordFsAttr \<Rightarrow> u32 \<Rightarrow> u64 \<times> u32" where
  "ResolveCreateInheritance caller_gid parent child_mode =
    (if a_mode parent AND S_ISGID \<noteq> 0
     then (a_gid parent, if S_ISDIR child_mode then child_mode OR S_ISGID else child_mode)
     else (caller_gid, child_mode))"

definition ModeToDt :: "u32 \<Rightarrow> u32" where
  "ModeToDt m =
    (if S_ISDIR m then 4 else if S_ISREG m then 8 else if S_ISLNK m then 10
     else if m AND S_IFMT = S_IFBLK then 6 else if m AND S_IFMT = S_IFCHR then 2
     else if m AND S_IFMT = S_IFIFO then 1 else if m AND S_IFMT = S_IFSOCK then 12 else 0)"

definition kMaxNameLength :: nat where [flag_defs]: "kMaxNameLength = 255"

definition ValidateNameComponent :: "bytes \<Rightarrow> unit res" where
  "ValidateNameComponent name = reject (length name > kMaxNameLength) kNameTooLong"

definition ValidateMknodMode :: "u32 \<Rightarrow> unit res" where
  "ValidateMknodMode mode =
    (let t = mode AND S_IFMT in
     if t = S_IFREG \<or> t = S_IFIFO \<or> t = S_IFCHR \<or> t = S_IFBLK \<or> t = S_IFSOCK then Inr ()
     else Inl kInvalidArgument)"

definition NormalizeMknodRdev :: "u32 \<Rightarrow> u64 \<Rightarrow> u64" where
  "NormalizeMknodRdev mode rdev =
    (if mode AND S_IFMT = S_IFCHR \<or> mode AND S_IFMT = S_IFBLK then rdev else 0)"

text \<open>\<open>url.find("://")\<close>: the part before the first occurrence, if there is one.\<close>

fun before_sep :: "bytes \<Rightarrow> bytes option" where
  "before_sep [] = None"
| "before_sep (c # cs) =
    (if take 3 (c # cs) = ascii ''://'' then Some [] else map_option (\<lambda>p. c # p) (before_sep cs))"

text \<open>\<open>std::tolower\<close> in the \<open>"C"\<close> locale.\<close>

definition tolower :: "u8 \<Rightarrow> u8" where
  "tolower c = (if 65 \<le> c \<and> c \<le> 90 then c + 32 else c)"

definition ParseUrlScheme :: "bytes \<Rightarrow> bytes res" where
  "ParseUrlScheme url =
    (case before_sep url of
       None \<Rightarrow> Inl kInvalidArgument
     | Some p \<Rightarrow> if p = [] then Inl kInvalidArgument else Inr (map tolower p))"

section \<open>Lemmas\<close>

lemma assign_if_simps [simp]:
  "i_ino (assign_if c f i) = i_ino i" "i_parent_ino (assign_if c f i) = i_parent_ino i"
  "i_symlink_target (assign_if c f i) = i_symlink_target i" "i_xattrs (assign_if c f i) = i_xattrs i"
  "i_attr (assign_if c f i) = (if c then f (i_attr i) else i_attr i)"
  by (simp_all add: assign_if_def)

lemma touch_if_simps [simp]:
  "i_ino (touch_if now c f i) = i_ino i" "i_parent_ino (touch_if now c f i) = i_parent_ino i"
  "i_symlink_target (touch_if now c f i) = i_symlink_target i" "i_xattrs (touch_if now c f i) = i_xattrs i"
  "a_ino (i_attr (touch_if now c f i)) = a_ino (i_attr i)"
  "a_mode (i_attr (touch_if now c f i)) = a_mode (i_attr i)"
  "a_nlink (i_attr (touch_if now c f i)) = a_nlink (i_attr i)"
  "a_uid (i_attr (touch_if now c f i)) = a_uid (i_attr i)"
  "a_gid (i_attr (touch_if now c f i)) = a_gid (i_attr i)"
  "a_size (i_attr (touch_if now c f i)) = a_size (i_attr i)"
  "a_inode_flags (i_attr (touch_if now c f i)) = a_inode_flags (i_attr i)"
  "a_btime_nsec (i_attr (touch_if now c f i)) = a_btime_nsec (i_attr i)"
  by (simp_all add: touch_if_def)

lemma touch_if_attr_ok: "attr_ok (i_attr i) \<Longrightarrow> attr_ok (i_attr (touch_if now c f i))"
  by (simp add: touch_if_def attr_ok_Touch)

lemma assign_if_attr_ok: "\<lbrakk> attr_ok (i_attr i); attr_ok (i_attr i) \<Longrightarrow> attr_ok (f (i_attr i)) \<rbrakk> \<Longrightarrow> attr_ok (i_attr (assign_if c f i))"
  by simp

lemma apply_setattr_record [simp]:
  "i_ino (apply_setattr now i req fs) = i_ino i"
  "i_parent_ino (apply_setattr now i req fs) = i_parent_ino i"
  "i_symlink_target (apply_setattr now i req fs) = i_symlink_target i"
  "i_xattrs (apply_setattr now i req fs) = i_xattrs i"
  by (simp_all add: apply_setattr_def Let_def del: assign_if_simps(5))

lemma ClearSetid_other [simp]:
  "a_ino (ClearSetidForKillPriv a) = a_ino a" "a_uid (ClearSetidForKillPriv a) = a_uid a"
  "a_gid (ClearSetidForKillPriv a) = a_gid a" "a_size (ClearSetidForKillPriv a) = a_size a"
  "a_nlink (ClearSetidForKillPriv a) = a_nlink a" "a_inode_flags (ClearSetidForKillPriv a) = a_inode_flags a"
  "a_atime_nsec (ClearSetidForKillPriv a) = a_atime_nsec a" "a_mtime_nsec (ClearSetidForKillPriv a) = a_mtime_nsec a"
  "a_ctime_nsec (ClearSetidForKillPriv a) = a_ctime_nsec a" "a_btime_nsec (ClearSetidForKillPriv a) = a_btime_nsec a"
  by (simp_all add: ClearSetidForKillPriv_def Let_def)

text \<open>A field that an assignment does not mention passes through it.\<close>

lemma assign_if_field:
  "(\<And>a. get (f a) = get a) \<Longrightarrow> get (i_attr (assign_if c f i)) = get (i_attr i)"
  "(\<And>a. get (f a) = v) \<Longrightarrow> get (i_attr (assign_if c f i)) = (if c then v else get (i_attr i))"
  by (simp_all add: assign_if_def)

lemmas setattr_pass = assign_if_field(1) [of a_ino] assign_if_field(1) [of a_nlink]
  assign_if_field(1) [of a_inode_flags] assign_if_field(1) [of a_btime_nsec] assign_if_field(1) [of a_uid]
  assign_if_field(1) [of a_gid] assign_if_field(1) [of a_size] assign_if_field(1) [of a_mode]

lemma apply_setattr_fields:
  "a_ino (i_attr (apply_setattr now i req fs)) = a_ino (i_attr i)"
  "a_nlink (i_attr (apply_setattr now i req fs)) = a_nlink (i_attr i)"
  "a_inode_flags (i_attr (apply_setattr now i req fs)) = a_inode_flags (i_attr i)"
  "a_btime_nsec (i_attr (apply_setattr now i req fs)) = a_btime_nsec (i_attr i)"
  "a_uid (i_attr (apply_setattr now i req fs)) = (if HasSetAttrField fs fUid then a_uid req else a_uid (i_attr i))"
  "a_gid (i_attr (apply_setattr now i req fs)) = (if HasSetAttrField fs fGid then a_gid req else a_gid (i_attr i))"
  "a_size (i_attr (apply_setattr now i req fs)) = (if HasSetAttrField fs fSize then a_size req else a_size (i_attr i))"
  unfolding apply_setattr_def Let_def
  by (simp_all add: setattr_pass assign_if_field(2) [of a_uid] assign_if_field(2) [of a_gid] assign_if_field(2) [of a_size]
      del: assign_if_simps(5))

definition base_mode :: "SwordFsInode \<Rightarrow> SwordFsAttr \<Rightarrow> u32 \<Rightarrow> u32" where
  "base_mode i req fs = (if HasSetAttrField fs fMode then (i_mode i AND S_IFMT) OR (a_mode req AND 0xFFF) else i_mode i)"

definition clear_setid :: "u32 \<Rightarrow> u32" where
  "clear_setid m = m AND NOT S_ISUID AND (if m AND S_IXGRP = 0 then NOT 0 else NOT S_ISGID)"

lemma apply_setattr_mode:
  "i_mode (apply_setattr now i req fs) =
     (if HasSetAttrField fs fKillSuidGid then clear_setid (base_mode i req fs) else base_mode i req fs)"
proof -
  have k: "i_mode (assign_if c ClearSetidForKillPriv j) = (if c then clear_setid (i_mode j) else i_mode j)" for c j
    by (simp add: clear_setid_def clear_setid_mode)
  have m: "i_mode (assign_if c (\<lambda>a. a \<lparr> a_mode := (a_mode a AND S_IFMT) OR x \<rparr>) j) =
      (if c then (i_mode j AND S_IFMT) OR x else i_mode j)" for c x j
    by simp
  show ?thesis
    unfolding apply_setattr_def Let_def
    by (simp add: setattr_pass k m base_mode_def del: assign_if_simps(5))
qed

lemma setattr_masks: "(0xFFF :: u32) = mask 12" "(0xF000 :: u32) = push_bit 12 (mask 4)"
  "(0x1FF :: u32) = mask 9"
  by (simp_all add: mask_eq_exp_minus_1)

lemma setid_bits: "bit (0x800 :: u32) n \<longleftrightarrow> n = 11" "bit (0x400 :: u32) n \<longleftrightarrow> n = 10"
    "bit (0x800 :: int) n \<longleftrightarrow> n = 11" "bit (0x400 :: int) n \<longleftrightarrow> n = 10"
  using bit_exp_iff [where 'a=u32, of 11 n] bit_exp_iff [where 'a=u32, of 10 n]
    bit_exp_iff [where 'a=int, of 11 n] bit_exp_iff [where 'a=int, of 10 n]
  by (auto simp: possible_bit_word)

lemma clear_setid_type: "clear_setid m AND S_IFMT = m AND S_IFMT"
  unfolding clear_setid_def S_IFMT_def S_ISUID_def S_ISGID_def setattr_masks
  by (rule bit_word_eqI) (auto simp: bit_simps setid_bits)

lemma clear_setid_perm: "clear_setid m AND 0x1FF = m AND 0x1FF"
  unfolding clear_setid_def S_ISUID_def S_ISGID_def setattr_masks
  by (rule bit_word_eqI) (auto simp: bit_simps setid_bits)

lemma clear_setid_rest: "clear_setid m AND NOT (S_ISUID OR S_ISGID) = m AND NOT (S_ISUID OR S_ISGID)"
  unfolding clear_setid_def by (rule bit_word_eqI) (auto simp: bit_simps)

lemma base_mode_type: "base_mode i req fs AND S_IFMT = i_mode i AND S_IFMT"
  unfolding base_mode_def S_IFMT_def setattr_masks by (auto intro!: bit_word_eqI simp: bit_simps)

lemma apply_setattr_type: "i_mode (apply_setattr now i req fs) AND S_IFMT = i_mode i AND S_IFMT"
  by (simp add: apply_setattr_mode clear_setid_type base_mode_type)

lemma acl_inv_cong:
  assumes "acl_inv i" "i_xattrs j = i_xattrs i" "i_mode j AND 0x1FF = i_mode i AND 0x1FF" "IsDir j = IsDir i"
  shows "acl_inv j"
proof -
  have "access_acl_ok j = access_acl_ok i" "default_acl_ok j = default_acl_ok i"
    using assms by (auto intro!: access_acl_ok_cong default_acl_ok_cong)
  then show ?thesis
    using assms by (simp add: acl_inv_def)
qed

lemma IsDir_same_type: "i_mode j AND S_IFMT = i_mode i AND S_IFMT \<Longrightarrow> IsDir j = IsDir i"
  by (simp add: IsDir_def S_ISDIR_def)

text \<open>The explicit timestamps of a request are canonical.\<close>

definition request_ok :: "SwordFsAttr \<Rightarrow> u32 \<Rightarrow> bool" where
  "request_ok req fs \<longleftrightarrow> (HasSetAttrField fs fAtime \<longrightarrow> \<not> nsec_bad (a_atime_nsec req))
     \<and> (HasSetAttrField fs fMtime \<longrightarrow> \<not> nsec_bad (a_mtime_nsec req))
     \<and> (HasSetAttrField fs fCtime \<longrightarrow> \<not> nsec_bad (a_ctime_nsec req))"

lemma assign_if_attr_okI:
  "\<lbrakk> attr_ok (i_attr i); c \<Longrightarrow> attr_ok (f (i_attr i)) \<rbrakk> \<Longrightarrow> attr_ok (i_attr (assign_if c f i))"
  by (simp add: assign_if_def)

lemma apply_setattr_attr_ok:
  assumes "attr_ok (i_attr i)" "request_ok req fs"
  shows "attr_ok (i_attr (apply_setattr now i req fs))"
proof -
  have k: "attr_ok a \<Longrightarrow> attr_ok (ClearSetidForKillPriv a)" for a
    by (simp add: attr_ok_def)
  have "attr_ok a \<Longrightarrow> attr_ok (a \<lparr> a_uid := u \<rparr>)" "attr_ok a \<Longrightarrow> attr_ok (a \<lparr> a_gid := u \<rparr>)"
    "attr_ok a \<Longrightarrow> attr_ok (a \<lparr> a_size := u \<rparr>)" for a u
    by (simp_all add: attr_ok_def)
  moreover have "HasSetAttrField fs fAtime \<Longrightarrow> attr_ok a \<Longrightarrow> attr_ok (a \<lparr> a_atime := a_atime req, a_atime_nsec := a_atime_nsec req \<rparr>)"
    "HasSetAttrField fs fMtime \<Longrightarrow> attr_ok a \<Longrightarrow> attr_ok (a \<lparr> a_mtime := a_mtime req, a_mtime_nsec := a_mtime_nsec req \<rparr>)"
    "HasSetAttrField fs fCtime \<Longrightarrow> attr_ok a \<Longrightarrow> attr_ok (a \<lparr> a_ctime := a_ctime req, a_ctime_nsec := a_ctime_nsec req \<rparr>)" for a
    using assms(2) by (simp_all add: attr_ok_def request_ok_def)
  ultimately show ?thesis
    unfolding apply_setattr_def Let_def using assms(1) k
    by (intro touch_if_attr_ok assign_if_attr_okI) (simp_all del: assign_if_simps(5) add: assign_if_attr_okI touch_if_attr_ok)
qed

lemma apply_setattr_inode_ok:
  "\<lbrakk> inode_ok i; request_ok req fs \<rbrakk> \<Longrightarrow> inode_ok (apply_setattr now i req fs)"
  using apply_setattr_attr_ok by (simp add: inode_ok_def apply_setattr_fields)

lemma length_ApplyMode [simp]: "length (ApplyMode m acl) = length acl"
  by (simp add: ApplyMode_def Let_def)

lemma Sync_xattrs_ok:
  assumes "xattrs_ok (i_xattrs i)" "SyncPosixAccessAclForMode i m = Inr i'"
  shows "xattrs_ok (i_xattrs i')"
proof (cases "map_of (i_xattrs i) kPosixAclAccessXAttr")
  case None
  then show ?thesis
    using assms by (simp add: SyncPosixAccessAclForMode_def)
next
  case (Some v)
  then obtain acl where acl: "Parse v = Inr acl"
    and i': "i_xattrs i' = om_set kPosixAclAccessXAttr (Serialize (ApplyMode m acl)) (i_xattrs i)"
    using assms(2) by (auto simp: SyncPosixAccessAclForMode_def ParseStoredAcl_def chk_Inr_iff split: sum.splits)
  have "string_ok v"
    using assms(1) map_of_SomeD [OF Some] by (auto simp: xattrs_ok_def)
  moreover have "length (Serialize (ApplyMode m acl)) = length v"
    using Parse_InrD(2) [OF acl] by (metis length_ApplyMode length_Serialize)
  ultimately have "string_ok (Serialize (ApplyMode m acl))"
    by (simp add: string_ok_def)
  then show ?thesis
    unfolding i' using assms(1) Some acl_names_ok [of kPosixAclAccessXAttr]
    by (intro xattrs_ok_set) (simp_all add: IsPosixAclXAttrName_def)
qed

lemma PrepareSetAttr_ok:
  assumes "inode_ok i" "acl_inv i" "request_ok req fs" "CheckSetAttrPolicy (i_attr i) fs = Inr ()"
  shows "\<exists>i'. PrepareSetAttrMutation now i req fs = Inr i' \<and> inode_ok i' \<and> acl_inv i'
    \<and> i_attr i' = i_attr (apply_setattr now i req fs) \<and> i_ino i' = i_ino i"
proof -
  let ?n = "apply_setattr now i req fs"
  have n: "inode_ok ?n"
    using assms by (intro apply_setattr_inode_ok)
  show ?thesis
  proof (cases "HasSetAttrField fs fMode")
    case True
    let ?j = "set_mode (i_mode i) ?n"
    have j: "acl_inv ?j"
      by (rule acl_inv_cong [OF assms(2)]) (simp_all add: IsDir_def)
    have nj: "?n = set_mode (i_mode ?n) ?j"
      by (simp add: set_mode_def)
    obtain i' where i': "SyncPosixAccessAclForMode (set_mode (i_mode ?n) ?j) (i_mode ?n) = Inr i'" "acl_inv i'"
      and eq: "i' = (set_mode (i_mode ?n) ?j) \<lparr> i_xattrs := i_xattrs i' \<rparr>"
      using sync_acl_inv [OF j, of "i_mode ?n"] apply_setattr_type [of now i req fs] by auto
    have "PrepareSetAttrMutation now i req fs = Inr i'"
      using True assms(4) i'(1) nj by (simp add: PrepareSetAttrMutation_def)
    moreover have eq': "i' = ?n \<lparr> i_xattrs := i_xattrs i' \<rparr>"
      using eq by (simp add: set_mode_def)
    moreover have "xattrs_ok (i_xattrs i')"
    proof (rule Sync_xattrs_ok [OF _ i'(1)])
      show "xattrs_ok (i_xattrs (set_mode (i_mode ?n) ?j))"
        using n by (simp add: inode_ok_def)
    qed
    then have "inode_ok (?n \<lparr> i_xattrs := i_xattrs i' \<rparr>)"
      by (rule inode_ok_update(1) [OF n])
    then have "inode_ok i'"
      by (subst eq')
    moreover have "i_attr i' = i_attr ?n" "i_ino i' = i_ino i"
      by (subst eq', simp)+
    ultimately show ?thesis
      using i'(2) by blast
  next
    case False
    then have "acl_inv ?n"
      by (intro acl_inv_cong [OF assms(2)] IsDir_same_type apply_setattr_type)
        (simp_all add: apply_setattr_mode base_mode_def clear_setid_perm)
    with False show ?thesis
      using assms(4) n by (simp add: PrepareSetAttrMutation_def)
  qed
qed

section \<open>Properties\<close>

text \<open>C24: a setattr that the inode policy admits always succeeds and keeps the inode sound. For a well-formed
  inode that satisfies the ACL invariant and a request with canonical timestamps, \<open>PrepareSetAttrMutation\<close>
  returns an inode that is well-formed, satisfies the ACL invariant (so a chmod has updated a stored access
  ACL), keeps its number, flags, link count and file type, and has exactly the requested owner, group and
  size fields changed.\<close>

theorem setattr_sound:
  assumes "inode_ok i" "acl_inv i" "request_ok req fs" "CheckSetAttrPolicy (i_attr i) fs = Inr ()"
  shows "\<exists>i'. PrepareSetAttrMutation now i req fs = Inr i' \<and> inode_ok i' \<and> acl_inv i'
    \<and> i_ino i' = i_ino i \<and> a_inode_flags (i_attr i') = a_inode_flags (i_attr i)
    \<and> a_nlink (i_attr i') = a_nlink (i_attr i) \<and> i_mode i' AND S_IFMT = i_mode i AND S_IFMT
    \<and> a_uid (i_attr i') = (if HasSetAttrField fs fUid then a_uid req else a_uid (i_attr i))
    \<and> a_gid (i_attr i') = (if HasSetAttrField fs fGid then a_gid req else a_gid (i_attr i))
    \<and> a_size (i_attr i') = (if HasSetAttrField fs fSize then a_size req else a_size (i_attr i))"
proof -
  obtain i' where i': "PrepareSetAttrMutation now i req fs = Inr i'" "inode_ok i'" "acl_inv i'"
    "i_attr i' = i_attr (apply_setattr now i req fs)" "i_ino i' = i_ino i"
    using PrepareSetAttr_ok [OF assms, of now] by blast
  show ?thesis
    using i' by (intro exI [of _ i']) (simp add: apply_setattr_fields apply_setattr_type)
qed

definition ex_request :: SwordFsAttr where
  "ex_request = attr0 \<lparr> a_mode := 0x1C0, a_uid := 1000 \<rparr>"

theorem setattr_sound_witness:
  "inode_ok ex_file \<and> acl_inv ex_file \<and> request_ok ex_request (fMode OR fUid)
   \<and> CheckSetAttrPolicy (i_attr ex_file) (fMode OR fUid) = Inr ()
   \<and> (\<exists>i'. PrepareSetAttrMutation 9 ex_file ex_request (fMode OR fUid) = Inr i' \<and> inode_ok i' \<and> a_uid (i_attr i') = 1000)"
proof -
  have a: "acl_inv ex_file"
    by (rule no_acl_inv) (simp add: ex_file_def new_inode_def)
  have r: "request_ok ex_request (fMode OR fUid)" "CheckSetAttrPolicy (i_attr ex_file) (fMode OR fUid) = Inr ()"
    "HasSetAttrField (fMode OR fUid) fUid" "a_uid ex_request = 1000"
    by code_simp+
  show ?thesis
    using setattr_sound [OF ex_file_ok a r(1,2), of 9] ex_file_ok a r by auto
qed

text \<open>C34: the inode policy. An immutable inode rejects every setattr with \<open>NotPermitted\<close>. On an append-only
  inode a setattr either fails with \<open>NotPermitted\<close> or leaves owner, group and size alone and changes no
  mode bit except that set-user-id and set-group-id may be cleared.\<close>

theorem setattr_policy:
  assumes "IsImmutable (i_attr i) \<or> IsAppendOnly (i_attr i)"
  shows "case PrepareSetAttrMutation now i req fs of
      Inl e \<Rightarrow> e = kNotPermitted
    | Inr i' \<Rightarrow> \<not> IsImmutable (i_attr i) \<and> a_uid (i_attr i') = a_uid (i_attr i) \<and> a_gid (i_attr i') = a_gid (i_attr i)
        \<and> a_size (i_attr i') = a_size (i_attr i)
        \<and> i_mode i' AND NOT (S_ISUID OR S_ISGID) = i_mode i AND NOT (S_ISUID OR S_ISGID)
        \<and> i_xattrs i' = i_xattrs i"
proof (cases "IsImmutable (i_attr i) \<or> \<not> ok (CheckSetAttrPolicy (i_attr i) fs)")
  case True
  then have "CheckSetAttrPolicy (i_attr i) fs = Inl kNotPermitted"
    by (auto simp: CheckSetAttrPolicy_def Let_def ok_def split: if_splits)
  then show ?thesis
    by (simp add: PrepareSetAttrMutation_def)
next
  case False
  then have "CheckSetAttrPolicy (i_attr i) fs = Inr ()" and "IsAppendOnly (i_attr i)"
    using assms by (auto simp: ok_def split: sum.splits)
  then have "fs AND (fMode OR fUid OR fGid OR fSize) = 0" and ok: "CheckSetAttrPolicy (i_attr i) fs = Inr ()"
    by (auto simp: CheckSetAttrPolicy_def Let_def split: if_splits)
  then have n: "\<not> HasSetAttrField fs fMode" "\<not> HasSetAttrField fs fUid" "\<not> HasSetAttrField fs fGid" "\<not> HasSetAttrField fs fSize"
    by (auto simp: HasSetAttrField_def bit_eq_iff bit_simps)
  then show ?thesis
    using False ok clear_setid_rest [of "i_mode i"]
    by (simp add: PrepareSetAttrMutation_def apply_setattr_fields apply_setattr_mode base_mode_def)
qed

definition ex_append_only :: SwordFsInode where
  "ex_append_only = ex_file \<lparr> i_attr := (i_attr ex_file) \<lparr> a_inode_flags := kAppendOnly \<rparr> \<rparr>"

theorem setattr_policy_witness:
  "IsAppendOnly (i_attr ex_append_only) \<and> (\<exists>i'. PrepareSetAttrMutation 9 ex_append_only ex_request fKillSuidGid = Inr i'
     \<and> a_size (i_attr i') = a_size (i_attr ex_append_only))"
proof -
  have a: "IsAppendOnly (i_attr ex_append_only)"
    by code_simp
  have "ok (PrepareSetAttrMutation 9 ex_append_only ex_request fKillSuidGid)"
    by code_simp
  then show ?thesis
    using setattr_policy [of ex_append_only 9 ex_request fKillSuidGid] a by (auto simp: ok_def split: sum.splits)
qed

text \<open>the directory entry type is the file type of the mode: for the seven known types \<open>ModeToDt\<close> is the
  type field shifted down (\<open>IFTODT\<close>), and it is \<open>DT_UNKNOWN\<close> for every other mode.\<close>

theorem mode_to_dt:
  "ModeToDt m = (if m AND S_IFMT \<in> {S_IFDIR, S_IFREG, S_IFLNK, S_IFBLK, S_IFCHR, S_IFIFO, S_IFSOCK}
     then drop_bit 12 (m AND S_IFMT) else 0)"
proof -
  define t where "t = m AND S_IFMT"
  show ?thesis
    unfolding ModeToDt_def S_ISDIR_def S_ISREG_def S_ISLNK_def t_def [symmetric]
    by (auto simp: S_IFDIR_def S_IFREG_def S_IFLNK_def S_IFBLK_def S_IFCHR_def S_IFIFO_def S_IFSOCK_def)
qed

end
