(* ===== verification/SliceRecord.thy ===== *)
theory SliceRecord
  imports BufCodec Ordered_Map "HOL-Library.Multiset"
begin

text \<open>
  \<open>chunk/slice/SliceRecord.{hpp,cpp}\<close>: the ordered history of slice records of a chunk and
  \<open>ResolveRange\<close>, which computes which record each byte of a range is read from; and the binary form of
  a record (\<open>EncodeRecord\<close>, \<open>DecodeRecord\<close> of \<open>metadata/redis/RedisSliceChunkMetadata.cpp\<close>).

  All positions are \<open>uint32_t\<close> words. \<open>uncovered\<close> is the \<open>std::map\<close> from the start to the end of a
  hole; the iterator \<open>gap\<close> is the suffix of the map it points to. The \<open>while\<close> loop over gaps takes
  fuel; \<open>resolve_range_errors\<close> shows that the fuel given is always enough. The specification is
  \<open>newest\<close>: the byte comes from the last record that covers it, and reads as zero if none does.
\<close>

record SliceRecord =
  sr_pos :: u32
  sr_id :: u64
  sr_size :: u32
  sr_off :: u32
  sr_len :: u32

record ResolvedSlice =
  rs_pos :: u32
  rs_id :: u64
  rs_off :: u32
  rs_len :: u32

definition ValidateRecord :: "SliceRecord \<Rightarrow> u32 \<Rightarrow> unit res" where
  "ValidateRecord r chunk_size =
    (if sr_len r = 0 \<or> sr_pos r \<ge> chunk_size \<or> sr_len r > chunk_size - sr_pos r then Inl kMalformed
     else if sr_id r = 0 then (if sr_size r \<noteq> 0 \<or> sr_off r \<noteq> 0 then Inl kMalformed else Inr ())
     else if sr_id r > 0x7FFFFFFFFFFFFFFF \<or> sr_size r = 0 \<or> sr_off r > sr_size r
       \<or> sr_len r > sr_size r - sr_off r then Inl kMalformed
     else Inr ())"

definition AppendCoalesced :: "ResolvedSlice \<Rightarrow> ResolvedSlice list \<Rightarrow> ResolvedSlice list" where
  "AppendCoalesced s out =
    (if out = [] then [s]
     else let l = last out in
       if rs_pos l + rs_len l = rs_pos s \<and> rs_id l = rs_id s \<and> (rs_id s = 0 \<or> rs_off l + rs_len l = rs_off s)
       then butlast out @ [l \<lparr> rs_len := rs_len l + rs_len s \<rparr>]
       else out @ [s])"

text \<open>The body of the \<open>while\<close> loop on one gap: the new map, the new iterator (the suffix of the map it
  points to) and the span that is pushed.\<close>

definition cover_one :: "SliceRecord \<Rightarrow> u32 \<Rightarrow> (u32, u32) omap \<Rightarrow> u32 \<Rightarrow> u32
    \<Rightarrow> (u32, u32) omap \<times> (u32, u32) omap \<times> ResolvedSlice" where
  "cover_one r record_end uncovered gap_start gap_end =
    (let cover_start = max (sr_pos r) gap_start;
         cover_end = min record_end gap_end;
         uncovered = om_erase gap_start uncovered;
         uncovered = (if gap_start < cover_start then snd (om_emplace gap_start cover_start uncovered) else uncovered);
         uncovered = (if cover_end < gap_end then snd (om_emplace cover_end gap_end uncovered) else uncovered)
     in (uncovered, om_lower cover_end uncovered,
         \<lparr> rs_pos = cover_start, rs_id = sr_id r,
           rs_off = (if sr_id r = 0 then 0 else sr_off r + (cover_start - sr_pos r)),
           rs_len = cover_end - cover_start \<rparr>))"

primrec cover_gaps :: "nat \<Rightarrow> SliceRecord \<Rightarrow> u32 \<Rightarrow> (u32, u32) omap \<Rightarrow> (u32, u32) omap \<Rightarrow> ResolvedSlice list
    \<Rightarrow> ((u32, u32) omap \<times> ResolvedSlice list) option" where
  "cover_gaps 0 r record_end uncovered gap resolved = None"
| "cover_gaps (Suc n) r record_end uncovered gap resolved =
    (case gap of
       [] \<Rightarrow> Some (uncovered, resolved)
     | (gap_start, gap_end) # _ \<Rightarrow>
         if \<not> gap_start < record_end then Some (uncovered, resolved)
         else (case cover_one r record_end uncovered gap_start gap_end of
           (uncovered, gap, span) \<Rightarrow> cover_gaps n r record_end uncovered gap (resolved @ [span])))"

text \<open>\<open>upper_bound(record->pos)\<close>, moved back by one when the gap before extends beyond \<open>record->pos\<close>.\<close>

definition first_gap :: "u32 \<Rightarrow> (u32, u32) omap \<Rightarrow> (u32, u32) omap" where
  "first_gap pos uncovered =
    (let before = takeWhile (\<lambda>p. fst p \<le> pos) uncovered; gap = om_upper pos uncovered
     in if before \<noteq> [] \<and> snd (last before) > pos then last before # gap else gap)"

text \<open>The loop over the records from newest to oldest; it stops early when nothing is uncovered.\<close>

fun cover_records :: "SliceRecord list \<Rightarrow> (u32, u32) omap \<Rightarrow> ResolvedSlice list
    \<Rightarrow> ((u32, u32) omap \<times> ResolvedSlice list) option" where
  "cover_records [] uncovered resolved = Some (uncovered, resolved)"
| "cover_records (r # rs) uncovered resolved =
    (if uncovered = [] then Some (uncovered, resolved)
     else case cover_gaps (length uncovered + 2) r (sr_pos r + sr_len r) uncovered
         (first_gap (sr_pos r) uncovered) resolved of
       None \<Rightarrow> None
     | Some (uncovered, resolved) \<Rightarrow> cover_records rs uncovered resolved)"

fun validate_all :: "u32 \<Rightarrow> SliceRecord list \<Rightarrow> unit res" where
  "validate_all chunk_size [] = Inr ()"
| "validate_all chunk_size (r # rs) = chk (ValidateRecord r chunk_size) (\<lambda>_. validate_all chunk_size rs)"

definition hole_span :: "u32 \<times> u32 \<Rightarrow> ResolvedSlice" where
  "hole_span p = \<lparr> rs_pos = fst p, rs_id = 0, rs_off = 0, rs_len = snd p - fst p \<rparr>"

definition ResolveRange :: "SliceRecord list \<Rightarrow> u32 \<Rightarrow> u32 \<Rightarrow> u32 \<Rightarrow> ResolvedSlice list res option" where
  "ResolveRange records chunk_size pos len =
    (if chunk_size = 0 \<or> pos > chunk_size \<or> len > chunk_size - pos then Some (Inl kInvalidArgument)
     else case validate_all chunk_size records of
       Inl e \<Rightarrow> Some (Inl e)
     | Inr _ \<Rightarrow>
         if len = 0 then Some (Inr [])
         else case cover_records (rev records) [(pos, pos + len)] [] of
           None \<Rightarrow> None
         | Some (uncovered, resolved) \<Rightarrow>
             Some (Inr (fold AppendCoalesced (sort_key rs_pos (resolved @ map hole_span uncovered)) [])))"

section \<open>EncodeRecord and DecodeRecord\<close>

definition EncodeRecord :: "folly_io \<Rightarrow> SliceRecord \<Rightarrow> bytes" where
  "EncodeRecord F r = enc_U32 F (sr_pos r) @ enc_U64 F (sr_id r) @ enc_U32 F (sr_size r)
     @ enc_U32 F (sr_off r) @ enc_U32 F (sr_len r)"

definition read_record :: "folly_io \<Rightarrow> SliceRecord reader" where
  "read_record F =
    and_then (dec_U32 F) (\<lambda>pos. and_then (dec_U64 F) (\<lambda>sid. and_then (dec_U32 F) (\<lambda>size.
    and_then (dec_U32 F) (\<lambda>off. and_then (dec_U32 F) (\<lambda>len.
      done_with \<lparr> sr_pos = pos, sr_id = sid, sr_size = size, sr_off = off, sr_len = len \<rparr>)))))"

definition DecodeRecord :: "folly_io \<Rightarrow> bytes \<Rightarrow> u32 \<Rightarrow> SliceRecord res" where
  "DecodeRecord F encoded chunk_size =
    (if length encoded \<noteq> 24 then Inl kMalformed
     else case read_record F (new_decoder encoded) of
       (None, _) \<Rightarrow> Inl kMalformed
     | (Some r, d) \<Rightarrow>
         if \<not> Done F d then Inl kMalformed
         else chk (ValidateRecord r chunk_size) (\<lambda>_. Inr r))"

section \<open>Specification\<close>

definition covers :: "SliceRecord \<Rightarrow> u32 \<Rightarrow> bool" where
  "covers r x \<longleftrightarrow> sr_pos r \<le> x \<and> x < sr_pos r + sr_len r"

text \<open>The object and the offset in it that hold a byte; object \<open>0\<close> reads as zero.\<close>

definition record_src :: "SliceRecord \<Rightarrow> u32 \<Rightarrow> u64 \<times> u32" where
  "record_src r x = (sr_id r, if sr_id r = 0 then 0 else sr_off r + (x - sr_pos r))"

definition newest :: "SliceRecord list \<Rightarrow> u32 \<Rightarrow> u64 \<times> u32" where
  "newest records x = (case find (\<lambda>r. covers r x) (rev records) of Some r \<Rightarrow> record_src r x | None \<Rightarrow> (0, 0))"

definition in_span :: "ResolvedSlice \<Rightarrow> u32 \<Rightarrow> bool" where
  "in_span s x \<longleftrightarrow> rs_pos s \<le> x \<and> x < rs_pos s + rs_len s"

definition span_src :: "ResolvedSlice \<Rightarrow> u32 \<Rightarrow> u64 \<times> u32" where
  "span_src s x = (rs_id s, if rs_id s = 0 then 0 else rs_off s + (x - rs_pos s))"

text \<open>\<open>tiles p e out\<close>: the spans are non-empty and lie end to end from \<open>p\<close> to \<open>e\<close>.\<close>

fun tiles :: "u32 \<Rightarrow> u32 \<Rightarrow> ResolvedSlice list \<Rightarrow> bool" where
  "tiles p e [] \<longleftrightarrow> p = e"
| "tiles p e (s # ss) \<longleftrightarrow> rs_pos s = p \<and> p < p + rs_len s \<and> tiles (p + rs_len s) e ss"

section \<open>Lemmas: intervals\<close>

text \<open>How many of the intervals contain a point. Splitting an interval, moving it to another list and sorting
  all keep this number, which makes it the invariant of the algorithm.\<close>

definition cnt :: "(u32 \<times> u32) list \<Rightarrow> u32 \<Rightarrow> nat" where
  "cnt L x = length (filter (\<lambda>p. fst p \<le> x \<and> x < snd p) L)"

lemma cnt_simps [simp]:
  "cnt [] x = 0" "cnt (p # L) x = (if fst p \<le> x \<and> x < snd p then 1 else 0) + cnt L x"
  "cnt (L @ M) x = cnt L x + cnt M x"
  by (simp_all add: cnt_def)

lemma cnt_mset: "mset L = mset M \<Longrightarrow> cnt L x = cnt M x"
proof -
  have "length (filter P L) = size (filter_mset P (mset L))" for P and L :: "(u32 \<times> u32) list"
    by (simp flip: mset_filter)
  then show "mset L = mset M \<Longrightarrow> cnt L x = cnt M x"
    by (simp add: cnt_def)
qed

lemma cnt_zero_iff: "cnt L x = 0 \<longleftrightarrow> (\<forall>p\<in>set L. \<not> (fst p \<le> x \<and> x < snd p))"
  by (auto simp: cnt_def filter_empty_conv)

definition ival :: "ResolvedSlice \<Rightarrow> u32 \<times> u32" where
  "ival s = (rs_pos s, rs_pos s + rs_len s)"

lemma ival_simps [simp]: "fst (ival s) = rs_pos s" "snd (ival s) = rs_pos s + rs_len s"
  by (simp_all add: ival_def)

text \<open>The holes: non-empty, in order, not overlapping.\<close>

definition holes_ok :: "(u32, u32) omap \<Rightarrow> bool" where
  "holes_ok U \<longleftrightarrow> (\<forall>p\<in>set U. fst p < snd p) \<and> sorted_wrt (\<lambda>p q. snd p \<le> fst q) U"

lemma holes_ok_Nil [simp]: "holes_ok []"
  by (simp add: holes_ok_def)

lemma holes_ok_Cons [simp]:
  "holes_ok (p # U) \<longleftrightarrow> fst p < snd p \<and> (\<forall>q\<in>set U. snd p \<le> fst q) \<and> holes_ok U"
  by (auto simp: holes_ok_def)

lemma holes_ok_append:
  "holes_ok (U @ V) \<longleftrightarrow> holes_ok U \<and> holes_ok V \<and> (\<forall>p\<in>set U. \<forall>q\<in>set V. snd p \<le> fst q)"
  by (auto simp: holes_ok_def sorted_wrt_append)

lemma holes_ok_omap: "holes_ok U \<Longrightarrow> om_ok U"
proof (induction U)
  case (Cons p U)
  then show ?case
    by (auto dest: less_le_trans)
qed simp

lemma cnt_zero_between:
  "\<lbrakk> \<forall>p\<in>set A. snd p \<le> a; \<forall>q\<in>set B. b \<le> fst q; a \<le> x; x < b \<rbrakk> \<Longrightarrow> cnt (A @ B) x = 0"
  unfolding cnt_zero_iff by (auto simp: not_le not_less intro: less_le_trans order.trans)

lemma om_emplace_middle:
  assumes "\<forall>p\<in>set xs. fst p < k" "\<forall>p\<in>set ys. k < fst p"
  shows "snd (om_emplace k v (xs @ ys)) = xs @ (k, v) # ys"
  using om_set_middle [OF assms] map_of_None_outside [OF assms] unfolding om_emplace_def by (simp del: map_of_append)

text \<open>One iteration on the gap after \<open>pre\<close>: the part left of the record stays, the covered part becomes a
  span, the part right of the record is put back.\<close>

lemma cover_one_result:
  assumes U: "holes_ok (pre @ (gs, ge) # rst)" and pre: "\<forall>p\<in>set pre. snd p \<le> sr_pos r"
    and r: "sr_pos r < re" "gs < re" "sr_pos r < ge"
  defines "cs \<equiv> max (sr_pos r) gs" and "ce \<equiv> min re ge"
  defines "left \<equiv> (if gs < sr_pos r then [(gs, sr_pos r)] else [])" and "right \<equiv> (if re < ge then [(re, ge)] else [])"
  shows "cover_one r re (pre @ (gs, ge) # rst) gs ge = (pre @ left @ right @ rst, right @ rst,
     \<lparr> rs_pos = cs, rs_id = sr_id r, rs_off = (if sr_id r = 0 then 0 else sr_off r + (cs - sr_pos r)), rs_len = ce - cs \<rparr>)"
    and "cs < ce"
proof -
  have "\<forall>p\<in>set pre. fst p < snd p \<and> snd p \<le> gs"
    using U by (auto simp: holes_ok_def sorted_wrt_append)
  then have lt: "\<forall>p\<in>set pre. fst p < gs" "\<forall>p\<in>set rst. ge \<le> fst p" "gs < ge"
    using U by (auto simp: holes_ok_append dest: less_le_trans)
  show ce: "cs < ce"
    using r lt by (auto simp: cs_def ce_def)
  have gt: "\<forall>p\<in>set rst. gs < fst p"
    using lt by (auto dest: less_le_trans)
  have e: "om_erase gs (pre @ (gs, ge) # rst) = pre @ rst"
    by (rule om_erase_middle [OF lt(1) gt])
  have l: "(if gs < cs then snd (om_emplace gs cs (pre @ rst)) else pre @ rst) = (pre @ left) @ rst"
    using om_emplace_middle [OF lt(1) gt] by (auto simp: left_def cs_def max_def)
  have lre: "\<forall>p\<in>set (pre @ left). fst p < ce"
    using lt r ce by (auto simp: left_def cs_def ce_def split: if_splits dest: less_trans)
  have gre: "re < ge \<Longrightarrow> \<forall>p\<in>set rst. re < fst p"
    using lt by (auto dest: less_le_trans)
  have rr: "(if ce < ge then snd (om_emplace ce ge ((pre @ left) @ rst)) else (pre @ left) @ rst) = (pre @ left) @ right @ rst"
  proof (cases "re < ge")
    case True
    then have ce': "ce = re" "ce < ge"
      by (auto simp: ce_def)
    show ?thesis
      using ce' True om_emplace_middle [OF lre [unfolded ce'(1)] gre [OF True]] by (simp add: right_def)
  next
    case False
    then show ?thesis
      by (simp add: ce_def right_def min_def not_less)
  qed
  have low: "om_lower ce ((pre @ left) @ right @ rst) = right @ rst"
    using lre lt by (intro om_lower_split) (auto simp: right_def ce_def min_def split: if_splits)
  show "cover_one r re (pre @ (gs, ge) # rst) gs ge = (pre @ left @ right @ rst, right @ rst,
     \<lparr> rs_pos = cs, rs_id = sr_id r, rs_off = (if sr_id r = 0 then 0 else sr_off r + (cs - sr_pos r)), rs_len = ce - cs \<rparr>)"
    unfolding cover_one_def Let_def cs_def [symmetric] ce_def [symmetric] e l rr low by simp
qed

text \<open>What the spans of one record look like.\<close>

definition span_of :: "SliceRecord \<Rightarrow> u32 \<Rightarrow> ResolvedSlice \<Rightarrow> bool" where
  "span_of r re s \<longleftrightarrow> sr_pos r \<le> rs_pos s \<and> rs_pos s < rs_pos s + rs_len s \<and> rs_pos s + rs_len s \<le> re
     \<and> rs_id s = sr_id r \<and> rs_off s = (if sr_id r = 0 then 0 else sr_off r + (rs_pos s - sr_pos r))"

lemma cover_gaps_correct:
  assumes "holes_ok (pre @ gap)" "\<forall>p\<in>set pre. snd p \<le> sr_pos r" "sr_pos r < re"
    and "\<forall>p\<in>set gap. sr_pos r < snd p" "length gap + 1 < n"
  shows "\<exists>U new. cover_gaps n r re (pre @ gap) gap res = Some (U, res @ new) \<and> holes_ok U
    \<and> (\<forall>x. cnt U x + cnt (map ival new) x = cnt (pre @ gap) x)
    \<and> (\<forall>x. sr_pos r \<le> x \<and> x < re \<longrightarrow> cnt U x = 0) \<and> (\<forall>s\<in>set new. span_of r re s)"
  using assms
proof (induction gap arbitrary: pre res n)
  case Nil
  then obtain m where n: "n = Suc m"
    by (cases n) auto
  have "cnt pre x = 0" if "sr_pos r \<le> x" for x
    using Nil.prems(2) that by (auto simp: cnt_zero_iff)
  then show ?case
    using Nil.prems(1) by (intro exI [of _ pre] exI [of _ "[]"]) (simp add: n)
next
  case (Cons g gap)
  obtain gs ge where g: "g = (gs, ge)"
    by (cases g)
  obtain m where n: "n = Suc m" "length gap + 1 < m"
    using Cons.prems(5) by (cases n) auto
  have tlg: "\<forall>q\<in>set gap. ge \<le> fst q"
    using Cons.prems(1) by (simp add: holes_ok_append g)
  show ?case
  proof (cases "gs < re")
    case False
    have "cnt (pre @ g # gap) x = 0" if "sr_pos r \<le> x" "x < re" for x
    proof -
      have "gs < ge"
        using Cons.prems(1) by (simp add: g holes_ok_append)
      then have "\<forall>q\<in>set (g # gap). re \<le> fst q"
        using False tlg by (auto simp: g not_less)
      then show ?thesis
        using cnt_zero_between [OF Cons.prems(2) _ that] by blast
    qed
    then show ?thesis
      using False Cons.prems(1) by (intro exI [of _ "pre @ g # gap"] exI [of _ "[]"]) (simp add: n g)
  next
    case True
    define left where "left = (if gs < sr_pos r then [(gs, sr_pos r)] else [])"
    define right where "right = (if re < ge then [(re, ge)] else [])"
    define s where "s = \<lparr> rs_pos = max (sr_pos r) gs, rs_id = sr_id r,
      rs_off = (if sr_id r = 0 then 0 else sr_off r + (max (sr_pos r) gs - sr_pos r)),
      rs_len = min re ge - max (sr_pos r) gs \<rparr>"
    have ge: "sr_pos r < ge"
      using Cons.prems(4) by (simp add: g)
    note one = cover_one_result [OF Cons.prems(1) [unfolded g] Cons.prems(2,3) True ge]
    have step: "cover_gaps n r re (pre @ g # gap) (g # gap) res =
        cover_gaps m r re (pre @ left @ right @ gap) (right @ gap) (res @ [s])"
      using True by (simp add: n g one(1) left_def right_def s_def)
    have s: "span_of r re s" and si: "ival s = (max (sr_pos r) gs, min re ge)"
      using one(2) by (simp_all add: s_def span_of_def ival_def)
    have cnt1: "cnt (left @ right) x + cnt [ival s] x = cnt [g] x" for x
      using one(2) True ge by (auto simp: left_def right_def si g)
    have ok: "holes_ok (pre @ left @ right @ gap)"
      using Cons.prems(1,3) True ge
      by (auto simp: left_def right_def g holes_ok_append intro: less_imp_le order.trans)
    have pre': "\<forall>p\<in>set (pre @ left). snd p \<le> sr_pos r"
      using Cons.prems(2) by (auto simp: left_def)
    show ?thesis
    proof (cases "re < ge")
      case False
      have "\<exists>U new. cover_gaps m r re ((pre @ left) @ gap) gap (res @ [s]) = Some (U, (res @ [s]) @ new) \<and> holes_ok U
        \<and> (\<forall>x. cnt U x + cnt (map ival new) x = cnt ((pre @ left) @ gap) x)
        \<and> (\<forall>x. sr_pos r \<le> x \<and> x < re \<longrightarrow> cnt U x = 0) \<and> (\<forall>s\<in>set new. span_of r re s)"
        using ok False Cons.prems(3,4) pre' n by (intro Cons.IH) (simp_all add: right_def)
      then obtain U new where U: "cover_gaps m r re ((pre @ left) @ gap) gap (res @ [s]) = Some (U, (res @ [s]) @ new)" "holes_ok U"
        and c: "\<And>x. cnt U x + cnt (map ival new) x = cnt ((pre @ left) @ gap) x"
        and z: "\<forall>x. sr_pos r \<le> x \<and> x < re \<longrightarrow> cnt U x = 0" "\<forall>s\<in>set new. span_of r re s"
        by blast
      have r0: "right = []"
        using False by (simp add: right_def)
      have "cnt U x + cnt (map ival (s # new)) x = cnt (pre @ g # gap) x" for x
        using c [of x] cnt1 [of x] by (simp add: r0 split: if_splits)
      then show ?thesis
        using U z s by (intro exI [of _ U] exI [of _ "s # new"]) (simp add: step r0)
    next
      case True
      then obtain k where k: "m = Suc k" and right: "right = [(re, ge)]"
        using n by (cases m) (auto simp: right_def)
      have "cnt (pre @ left @ right @ gap) x = 0" if "sr_pos r \<le> x" "x < re" for x
      proof -
        have "\<forall>q\<in>set (right @ gap). re \<le> fst q"
          using tlg True by (auto simp: right intro: less_imp_le less_le_trans)
        then show ?thesis
          using cnt_zero_between [OF pre' _ that] by (metis append.assoc)
      qed
      moreover have "cnt (pre @ left @ right @ gap) x + cnt [ival s] x = cnt (pre @ g # gap) x" for x
        using cnt1 [of x] by simp
      ultimately show ?thesis
        using ok s by (intro exI [of _ "pre @ left @ right @ gap"] exI [of _ "[s]"]) (simp add: step k right)
    qed
  qed
qed

lemma first_gap_split:
  assumes "holes_ok U"
  obtains pre where "U = pre @ first_gap pos U" "\<forall>p\<in>set pre. snd p \<le> pos" "\<forall>p\<in>set (first_gap pos U). pos < snd p"
proof -
  define b where "b = takeWhile (\<lambda>p. fst p \<le> pos) U"
  define g where "g = om_upper pos U"
  have U: "b @ g = U"
    by (simp add: b_def g_def om_upper_def)
  have fg: "first_gap pos U = (if b \<noteq> [] \<and> snd (last b) > pos then last b # g else g)"
    by (simp add: first_gap_def b_def g_def)
  have ok: "holes_ok b" "holes_ok g"
    using assms unfolding U [symmetric] holes_ok_append by simp_all
  have bp: "\<forall>p\<in>set b. fst p \<le> pos"
    by (auto simp: b_def dest: set_takeWhileD)
  have "\<forall>p\<in>set g. pos < fst p \<and> fst p < snd p"
    using ok(2) holes_ok_omap [OF assms] by (auto simp: g_def om_upper_filter holes_ok_def)
  then have gp: "\<forall>p\<in>set g. pos < snd p"
    by (meson less_trans)
  show thesis
  proof (cases b rule: rev_cases)
    case Nil
    then show thesis
      using that [of "[]"] U gp fg by simp
  next
    case (snoc bs l)
    then have bs: "\<forall>p\<in>set bs. snd p \<le> fst l" and "fst l \<le> pos"
      using ok(1) bp by (simp_all add: holes_ok_append)
    then have le: "\<forall>p\<in>set bs. snd p \<le> pos"
      by (meson order.trans)
    show thesis
    proof (cases "snd l > pos")
      case True
      then show thesis
        using that [of bs] U gp fg le snoc by auto
    next
      case False
      then show thesis
        using that [of b] U gp fg le snoc by auto
    qed
  qed
qed

text \<open>A span reads the bytes of the first record of the list (newest first) that covers them.\<close>

definition span_reads :: "SliceRecord list \<Rightarrow> ResolvedSlice \<Rightarrow> bool" where
  "span_reads rs s \<longleftrightarrow> rs_pos s < rs_pos s + rs_len s \<and> (\<forall>x. in_span s x \<longrightarrow>
     (case find (\<lambda>r. covers r x) rs of Some r \<Rightarrow> record_src r x | None \<Rightarrow> (0, 0)) = span_src s x)"

lemma span_of_reads: "span_of r (sr_pos r + sr_len r) s \<Longrightarrow> span_reads (r # rs) s"
  by (auto simp: span_of_def span_reads_def in_span_def covers_def record_src_def span_src_def
      intro: order.trans less_le_trans)

lemma in_span_ival: "in_span s x \<longleftrightarrow> fst (ival s) \<le> x \<and> x < snd (ival s)"
  by (simp add: in_span_def ival_def)

lemma cnt_pos_span: "\<lbrakk> s \<in> set L; in_span s x \<rbrakk> \<Longrightarrow> 0 < cnt (map ival L) x"
  using cnt_zero_iff [of "map ival L" x] by (auto simp: in_span_ival)

lemma cover_records_correct:
  assumes "holes_ok U" "\<forall>r\<in>set rs. sr_pos r < sr_pos r + sr_len r"
  shows "\<exists>V new. cover_records rs U res = Some (V, res @ new) \<and> holes_ok V
    \<and> (\<forall>x. cnt V x + cnt (map ival new) x = cnt U x)
    \<and> (\<forall>x. 0 < cnt V x \<longrightarrow> (\<forall>r\<in>set rs. \<not> covers r x)) \<and> (\<forall>s\<in>set new. span_reads rs s)"
  using assms
proof (induction rs arbitrary: U res)
  case Nil
  then show ?case
    by (intro exI [of _ U] exI [of _ "[]"]) simp
next
  case (Cons r rs)
  show ?case
  proof (cases "U = []")
    case True
    then show ?thesis
      by simp
  next
    case False
    let ?re = "sr_pos r + sr_len r"
    obtain pre where pre: "U = pre @ first_gap (sr_pos r) U" "\<forall>p\<in>set pre. snd p \<le> sr_pos r"
        "\<forall>p\<in>set (first_gap (sr_pos r) U). sr_pos r < snd p"
      using first_gap_split [OF Cons.prems(1)] by blast
    have len: "length (first_gap (sr_pos r) U) + 1 < length U + 2"
      using arg_cong [OF pre(1), of length] by simp
    obtain U1 new1 where g: "cover_gaps (length U + 2) r ?re U (first_gap (sr_pos r) U) res = Some (U1, res @ new1)"
      and U1: "holes_ok U1" "\<And>x. cnt U1 x + cnt (map ival new1) x = cnt U x"
        "\<And>x. sr_pos r \<le> x \<and> x < ?re \<Longrightarrow> cnt U1 x = 0" "\<forall>s\<in>set new1. span_of r ?re s"
      using cover_gaps_correct [of pre "first_gap (sr_pos r) U" r ?re "length U + 2" res] Cons.prems pre len by auto
    obtain V new2 where v: "cover_records rs U1 (res @ new1) = Some (V, (res @ new1) @ new2)"
      and V: "holes_ok V" "\<And>x. cnt V x + cnt (map ival new2) x = cnt U1 x"
        "\<And>x r. 0 < cnt V x \<Longrightarrow> r \<in> set rs \<Longrightarrow> \<not> covers r x" "\<forall>s\<in>set new2. span_reads rs s"
      using Cons.IH [OF U1(1), of "res @ new1"] Cons.prems(2) by auto
    have out: "0 < cnt U1 x \<Longrightarrow> \<not> covers r x" for x
      using U1(3) [of x] by (auto simp: covers_def)
    have "span_reads (r # rs) s" if "s \<in> set new2" for s
    proof -
      have "\<not> covers r x" if "in_span s x" for x
        using out [of x] V(2) [of x] cnt_pos_span [OF \<open>s \<in> set new2\<close> that] by simp
      then show ?thesis
        using V(4) that by (auto simp: span_reads_def)
    qed
    moreover have "span_reads (r # rs) s" if "s \<in> set new1" for s
      using U1(4) that by (intro span_of_reads) blast
    moreover have "\<not> covers q x" if "0 < cnt V x" "q \<in> set (r # rs)" for q x
      using that V(2) [of x] V(3) [of x q] out [of x] by auto
    moreover have "cnt V x + cnt (map ival (new1 @ new2)) x = cnt U x" for x
      using U1(2) [of x] V(2) [of x] by simp
    ultimately show ?thesis
      using False g v V(1) by (intro exI [of _ V] exI [of _ "new1 @ new2"]) auto
  qed
qed

section \<open>Lemmas: tiling and coalescing\<close>

lemma tiles_append: "tiles p e (A @ B) \<longleftrightarrow> (\<exists>m. tiles p m A \<and> tiles m e B)"
  by (induction A arbitrary: p) auto

lemma tiles_le: "tiles p e L \<Longrightarrow> p \<le> e"
  by (induction L arbitrary: p) (auto intro: order.trans less_imp_le)

lemma sorted_partition_tiles:
  assumes "sorted (map rs_pos L)" "\<forall>s\<in>set L. rs_pos s < rs_pos s + rs_len s" "p \<le> e"
    and "\<And>x. cnt (map ival L) x = (if p \<le> x \<and> x < e then 1 else 0)"
  shows "tiles p e L"
  using assms
proof (induction L arbitrary: p)
  case Nil
  then show ?case
    using Nil.prems(4) [of p] by (auto split: if_splits)
next
  case (Cons s L)
  have s: "rs_pos s < rs_pos s + rs_len s" and le: "\<forall>t\<in>set L. rs_pos s \<le> rs_pos t"
    using Cons.prems(1,2) by auto
  have c: "(if rs_pos s \<le> x \<and> x < rs_pos s + rs_len s then 1 else 0) + cnt (map ival L) x = (if p \<le> x \<and> x < e then 1 else 0)" for x
    using Cons.prems(4) [of x] by simp
  have "p \<le> rs_pos s" "rs_pos s < e"
    using c [of "rs_pos s"] s by (auto split: if_splits)
  moreover have "\<not> p < rs_pos s"
  proof
    assume lt: "p < rs_pos s"
    then have "cnt (map ival L) p = 0"
      using le by (auto simp: cnt_zero_iff ival_def)
    moreover have "p < e"
      using lt \<open>rs_pos s < e\<close> by (rule less_trans)
    ultimately show False
      using c [of p] lt by (auto split: if_splits)
  qed
  ultimately have p: "rs_pos s = p" "p < e"
    by auto
  have end_le: "p + rs_len s \<le> e"
  proof (rule ccontr)
    assume "\<not> p + rs_len s \<le> e"
    then show False
      using c [of e] p by (auto simp: not_le split: if_splits)
  qed
  have "cnt (map ival L) x = (if p + rs_len s \<le> x \<and> x < e then 1 else 0)" for x
    using c [of x] s end_le unfolding p(1) by (auto split: if_splits)
  then have "tiles (p + rs_len s) e L"
    using Cons.prems(1,2) end_le by (intro Cons.IH) auto
  then show ?case
    using p s by simp
qed

text \<open>\<open>reads f L\<close>: every span of \<open>L\<close> gives the bytes it contains the sources of \<open>f\<close>.\<close>

definition reads :: "(u32 \<Rightarrow> u64 \<times> u32) \<Rightarrow> ResolvedSlice list \<Rightarrow> bool" where
  "reads f L \<longleftrightarrow> (\<forall>t\<in>set L. \<forall>x. in_span t x \<longrightarrow> f x = span_src t x)"

lemma AppendCoalesced_step:
  assumes t: "tiles p m out" and s: "rs_pos s = m" "m < m + rs_len s" and r: "reads f (out @ [s])"
  shows "tiles p (m + rs_len s) (AppendCoalesced s out) \<and> reads f (AppendCoalesced s out)"
proof (cases out rule: rev_cases)
  case Nil
  then show ?thesis
    using t s r by (simp add: AppendCoalesced_def)
next
  case (snoc os l)
  then have os: "tiles p (rs_pos l) os" and l: "rs_pos l < m" "rs_pos l + rs_len l = m"
    using t by (auto simp: tiles_append)
  show ?thesis
  proof (cases "rs_id l = rs_id s \<and> (rs_id s = 0 \<or> rs_off l + rs_len l = rs_off s)")
    case True
    let ?l = "l \<lparr> rs_len := rs_len l + rs_len s \<rparr>"
    have e: "rs_pos l + (rs_len l + rs_len s) = m + rs_len s"
      using l(2) by (metis add.assoc)
    have a: "AppendCoalesced s out = os @ [?l]"
      using True l s snoc by (simp add: AppendCoalesced_def Let_def)
    have "f x = span_src ?l x" if x: "in_span ?l x" for x
    proof (cases "x < m")
      case True
      then have "in_span l x"
        using x l by (simp add: in_span_def)
      then show ?thesis
        using r snoc by (auto simp: reads_def span_src_def)
    next
      case False
      then have "in_span s x"
        using x s e by (simp add: in_span_def)
      then have "f x = span_src s x"
        using r by (simp add: reads_def)
      moreover have "rs_off s + (x - rs_pos s) = rs_off l + (x - rs_pos l)" if "rs_off l + rs_len l = rs_off s"
        unfolding s(1) l(2) [symmetric] that [symmetric] by simp
      ultimately show ?thesis
        using \<open>rs_id l = rs_id s \<and> _\<close> by (auto simp: span_src_def)
    qed
    moreover have "rs_pos l < m + rs_len s"
      using l s by (meson less_trans)
    ultimately show ?thesis
      using os r e unfolding a by (auto simp: tiles_append reads_def snoc add.assoc)
  next
    case False
    then have "AppendCoalesced s out = out @ [s]"
      using snoc by (auto simp: AppendCoalesced_def Let_def)
    then show ?thesis
      using t s r by (auto simp: tiles_append)
  qed
qed

lemma fold_AppendCoalesced:
  "\<lbrakk> tiles p m out; tiles m e L; reads f (out @ L) \<rbrakk> \<Longrightarrow>
     tiles p e (fold AppendCoalesced L out) \<and> reads f (fold AppendCoalesced L out)"
proof (induction L arbitrary: out m)
  case (Cons s L)
  have s: "rs_pos s = m" "m < m + rs_len s" "tiles (m + rs_len s) e L"
    using Cons.prems(2) by auto
  have r: "reads f (out @ [s])"
    using Cons.prems(3) by (auto simp: reads_def)
  note step = AppendCoalesced_step [OF Cons.prems(1) s(1,2) r]
  have "reads f (AppendCoalesced s out @ L)"
    using step Cons.prems(3) by (auto simp: reads_def)
  then show ?case
    using Cons.IH [of "m + rs_len s" "AppendCoalesced s out"] step s(3) by simp
qed simp

lemma validate_all_Inr_iff: "validate_all cs rs = Inr () \<longleftrightarrow> (\<forall>r\<in>set rs. ValidateRecord r cs = Inr ())"
  by (induction rs) (auto simp: chk_Inr_iff)

lemma ValidateRecord_nonempty:
  assumes "ValidateRecord r cs = Inr ()"
  shows "sr_pos r < sr_pos r + sr_len r" "sr_pos r + sr_len r \<le> cs"
  using assms less_plus_word [of "sr_len r" cs "sr_pos r"] plus_le_word [of "sr_len r" cs "sr_pos r"]
  by (auto simp: ValidateRecord_def not_le not_less split: if_splits)

lemma validate_all_err: "validate_all cs rs = Inl e \<Longrightarrow> e = kMalformed"
  by (induction rs) (auto simp: chk_Inl_iff ValidateRecord_def split: if_splits)

lemma ival_hole [simp]: "ival (hole_span p) = p"
  by (simp add: ival_def hole_span_def)

lemma resolve_core:
  assumes v: "validate_all cs records = Inr ()" and pos: "pos \<le> cs" "len \<le> cs - pos" "len \<noteq> 0"
  shows "\<exists>out. ResolveRange records cs pos len = Some (Inr out) \<and> tiles pos (pos + len) out \<and> reads (newest records) out"
proof -
  have lt: "pos < pos + len"
    using pos by (intro less_plus_word)
  obtain V new where c: "cover_records (rev records) [(pos, pos + len)] [] = Some (V, [] @ new)" and V: "holes_ok V"
    and cn: "\<And>x. cnt V x + cnt (map ival new) x = cnt [(pos, pos + len)] x"
    and un: "\<And>x r. 0 < cnt V x \<Longrightarrow> r \<in> set (rev records) \<Longrightarrow> \<not> covers r x"
    and rd: "\<forall>s\<in>set new. span_reads (rev records) s"
  proof -
    have "\<forall>r\<in>set (rev records). sr_pos r < sr_pos r + sr_len r"
      using v ValidateRecord_nonempty(1) unfolding validate_all_Inr_iff by auto
    then show thesis
      using cover_records_correct [of "[(pos, pos + len)]" "rev records" "[]"] lt that by auto
  qed
  let ?all = "new @ map hole_span V"
  let ?srt = "sort_key rs_pos ?all"
  have "reads (newest records) ?all"
  proof -
    have "newest records x = span_src (hole_span p) x" if "p \<in> set V" "in_span (hole_span p) x" for p x
    proof -
      have "0 < cnt V x"
        using that cnt_zero_iff [of V x] by (auto simp: in_span_def hole_span_def)
      then have "find (\<lambda>r. covers r x) (rev records) = None"
        using un by (auto simp: find_None_iff)
      then show ?thesis
        by (simp add: newest_def span_src_def hole_span_def)
    qed
    then show ?thesis
      using rd by (auto simp: reads_def span_reads_def newest_def)
  qed
  then have r: "reads (newest records) ([] @ ?srt)"
    by (simp add: reads_def)
  have "cnt (map ival ?srt) x = (if pos \<le> x \<and> x < pos + len then 1 else 0)" for x
  proof -
    have "cnt (map ival ?srt) x = cnt (map ival ?all) x"
      by (rule cnt_mset) (simp only: mset_map mset_sort)
    also have "\<dots> = cnt V x + cnt (map ival new) x"
      by (simp add: comp_def)
    finally show ?thesis
      using cn [of x] by simp
  qed
  moreover have "\<forall>s\<in>set ?srt. rs_pos s < rs_pos s + rs_len s"
    using rd V by (auto simp: span_reads_def hole_span_def holes_ok_def)
  ultimately have "tiles pos (pos + len) ?srt"
    using lt by (intro sorted_partition_tiles) auto
  then have "tiles pos (pos + len) (fold AppendCoalesced ?srt []) \<and> reads (newest records) (fold AppendCoalesced ?srt [])"
    using r by (intro fold_AppendCoalesced [of pos pos "[]"]) simp_all
  then show ?thesis
    using v pos c lt by (auto simp: ResolveRange_def not_less)
qed

lemma tiles_member:
  "\<lbrakk> tiles p e L; p \<le> x; x < e \<rbrakk> \<Longrightarrow> \<exists>s\<in>set L. in_span s x"
proof (induction L arbitrary: p)
  case (Cons s L)
  then show ?case
    by (cases "x < p + rs_len s") (auto simp: in_span_def not_less)
qed simp

section \<open>Lemmas: the binary record\<close>

context folly_cursor
begin

lemma read_record_codec: "wire_codec (EncodeRecord F) (read_record F) (\<lambda>_. True)"
proof
  fix v r b
  show "read_record F \<lparr> rest = EncodeRecord F v @ r, failed = b \<rparr> = (Some v, \<lparr> rest = r, failed = b \<rparr>)"
    by (simp add: read_record_def EncodeRecord_def and_then_def done_with_def u32.dec_enc u64.dec_enc)
next
  fix d v d'
  assume "read_record F d = (Some v, d')"
  then show "True \<and> rest d = EncodeRecord F v @ rest d' \<and> failed d' = failed d"
    unfolding read_record_def and_then_Some_iff u32.dec_Some_iff u64.dec_Some_iff done_with_def
    by (elim exE conjE) (auto simp: EncodeRecord_def)
next
  fix d d'
  assume "read_record F d = (None, d')"
  then show "failed d'"
    unfolding read_record_def and_then_None_iff done_with_def
    by (elim disjE exE conjE) (auto dest: u32.dec_None u64.dec_None)
qed

lemma length_EncodeRecord: "length (EncodeRecord F r) = 24"
  by (simp add: EncodeRecord_def enc_U32_def enc_U64_def write32_length write64_length)

lemma DecodeRecord_iff:
  "DecodeRecord F b cs = Inr r \<longleftrightarrow> ValidateRecord r cs = Inr () \<and> b = EncodeRecord F r"
proof
  assume "DecodeRecord F b cs = Inr r"
  then obtain d where "read_record F (new_decoder b) = (Some r, d)" "Done F d" "ValidateRecord r cs = Inr ()"
    by (auto simp: DecodeRecord_def chk_Inr_iff split: if_splits prod.splits option.splits)
  then show "ValidateRecord r cs = Inr () \<and> b = EncodeRecord F r"
    using wire_codec.dec_Some [OF read_record_codec] by (fastforce simp: new_decoder_def Done_def atEnd_iff)
next
  assume "ValidateRecord r cs = Inr () \<and> b = EncodeRecord F r"
  then show "DecodeRecord F b cs = Inr r"
    using wire_codec.dec_enc [OF read_record_codec TrueI, of r "[]" False]
    by (simp add: DecodeRecord_def length_EncodeRecord new_decoder_def Done_def atEnd_iff)
qed

end

section \<open>Properties\<close>

text \<open>C7: \<open>ResolveRange\<close> always returns, and it returns the right bytes. For a request inside the chunk and a
  valid history the result is a list of non-empty spans that lie end to end over exactly the requested
  range, and every byte is attributed to the object and offset of the newest record that covers it, or to
  the zero object if no record does.\<close>

theorem resolve_range_newest_wins:
  assumes "pos \<le> cs" "len \<le> cs - pos" "cs \<noteq> 0" "\<forall>r\<in>set records. ValidateRecord r cs = Inr ()"
  shows "\<exists>out. ResolveRange records cs pos len = Some (Inr out) \<and> tiles pos (pos + len) out
    \<and> (\<forall>x. pos \<le> x \<and> x < pos + len \<longrightarrow> (\<exists>s\<in>set out. in_span s x))
    \<and> (\<forall>s\<in>set out. \<forall>x. in_span s x \<longrightarrow> span_src s x = newest records x)"
proof -
  have v: "validate_all cs records = Inr ()"
    using assms(4) by (simp add: validate_all_Inr_iff)
  show ?thesis
  proof (cases "len = 0")
    case True
    then show ?thesis
      using assms v by (simp add: ResolveRange_def not_less)
  next
    case False
    then obtain out where out: "ResolveRange records cs pos len = Some (Inr out)" "tiles pos (pos + len) out"
      "reads (newest records) out"
      using resolve_core [OF v assms(1,2)] by blast
    then show ?thesis
      using tiles_member [OF out(2)] by (intro exI [of _ out]) (auto simp: reads_def)
  qed
qed

definition ex_history :: "SliceRecord list" where
  "ex_history = [\<lparr> sr_pos = 0, sr_id = 5, sr_size = 100, sr_off = 0, sr_len = 100 \<rparr>,
     \<lparr> sr_pos = 20, sr_id = 6, sr_size = 30, sr_off = 0, sr_len = 30 \<rparr>,
     \<lparr> sr_pos = 40, sr_id = 0, sr_size = 0, sr_off = 0, sr_len = 20 \<rparr>]"

theorem resolve_range_newest_wins_witness:
  "\<exists>out. ResolveRange ex_history 4096 10 110 = Some (Inr out) \<and> tiles 10 120 out
     \<and> (\<forall>s\<in>set out. \<forall>x. in_span s x \<longrightarrow> span_src s x = newest ex_history x)"
proof -
  have "(10 :: u32) \<le> 4096" "(110 :: u32) \<le> 4096 - 10" "(4096 :: u32) \<noteq> 0" "(10 :: u32) + 110 = 120"
    by simp_all
  moreover have "\<forall>r\<in>set ex_history. ValidateRecord r 4096 = Inr ()"
    by (simp add: ex_history_def ValidateRecord_def)
  ultimately show ?thesis
    using resolve_range_newest_wins [of 10 4096 110 ex_history] by auto
qed

text \<open>C29: the errors of \<open>ResolveRange\<close>. A request outside the chunk is \<open>InvalidArgument\<close>; for a request inside
  the chunk an invalid record anywhere in the history, also outside the requested range, is \<open>Malformed\<close>;
  there is no other error and the call always returns.\<close>

theorem resolve_range_errors:
  "if cs = 0 \<or> pos > cs \<or> len > cs - pos then ResolveRange records cs pos len = Some (Inl kInvalidArgument)
   else if \<exists>r\<in>set records. ValidateRecord r cs \<noteq> Inr () then ResolveRange records cs pos len = Some (Inl kMalformed)
   else \<exists>out. ResolveRange records cs pos len = Some (Inr out)"
proof (cases "cs = 0 \<or> pos > cs \<or> len > cs - pos")
  case True
  then show ?thesis
    by (simp add: ResolveRange_def)
next
  case False
  show ?thesis
  proof (cases "validate_all cs records")
    case (Inl e)
    then have "\<exists>r\<in>set records. ValidateRecord r cs \<noteq> Inr ()" "e = kMalformed"
      using validate_all_Inr_iff [of cs records] validate_all_err [OF Inl] by auto
    then show ?thesis
      using False Inl by (simp add: ResolveRange_def)
  next
    case (Inr u)
    then have v: "validate_all cs records = Inr ()"
      by simp
    have "\<exists>out. ResolveRange records cs pos len = Some (Inr out)"
    proof (cases "len = 0")
      case True
      then show ?thesis
        using False v by (simp add: ResolveRange_def)
    next
      case ne: False
      then show ?thesis
        using False resolve_core [OF v _ _ ne, of pos] by (auto simp: not_less)
    qed
    then show ?thesis
      using False v by (auto simp: validate_all_Inr_iff)
  qed
qed

text \<open>C38: the persisted slice record. \<open>DecodeRecord\<close> accepts a byte string exactly when it is the 24-byte
  encoding of a record that is valid for the chunk size, and returns that record.\<close>

theorem slice_record_codec:
  assumes "folly_cursor F"
  shows "DecodeRecord F b cs = Inr r \<longleftrightarrow> ValidateRecord r cs = Inr () \<and> b = EncodeRecord F r"
  using folly_cursor.DecodeRecord_iff [OF assms] .

theorem slice_record_codec_witness:
  "folly_cursor le_io \<and> DecodeRecord le_io (EncodeRecord le_io (hd ex_history)) 4096 = Inr (hd ex_history)"
proof -
  have "ValidateRecord (hd ex_history) 4096 = Inr ()"
    by (simp add: ex_history_def ValidateRecord_def)
  then show ?thesis
    using slice_record_codec [OF le.folly_cursor_axioms] le.folly_cursor_axioms by blast
qed

end
