(* ===== verification/RedisKey.thy ===== *)
theory RedisKey
  imports Records
begin

text \<open>
  The Redis key schema of a volume (\<open>metadata/redis/RedisKey.cpp\<close>).

  \<open>folly::sformat\<close> is code outside the repository: its rendering of the database index (a C++ \<open>int\<close>) is an
  argument of the constructor and its rendering of an unsigned integer a component of the key object, and the locale \<open>key_schema\<close> states that it is the decimal numeral. The theorem of the theory is
  that no two names of the schema share a key, which every operation on more than one key rests on.
\<close>

record RedisKey =
  key_prefix :: bytes
  key_fmt :: "u64 \<Rightarrow> bytes"

definition new_RedisKey :: "(int \<Rightarrow> bytes) \<Rightarrow> (u64 \<Rightarrow> bytes) \<Rightarrow> int \<Rightarrow> bytes \<Rightarrow> RedisKey" where
  "new_RedisKey fmt_int fmt db volume_name =
    \<lparr>key_prefix = ascii ''{'' @ fmt_int db @ ascii '':'' @ volume_name @ ascii ''}:'', key_fmt = fmt\<rparr>"

definition K_Format :: "RedisKey \<Rightarrow> bytes" where
  "K_Format K = key_prefix K @ ascii ''format''"

definition K_OwnerGeneration :: "RedisKey \<Rightarrow> bytes" where
  "K_OwnerGeneration K = key_prefix K @ ascii ''owner_generation''"

definition K_OwnerLease :: "RedisKey \<Rightarrow> u64 \<Rightarrow> bytes" where
  "K_OwnerLease K generation = key_prefix K @ ascii ''owner_lease:'' @ key_fmt K generation"

definition K_PosixLock :: "RedisKey \<Rightarrow> u64 \<Rightarrow> bytes" where
  "K_PosixLock K ino = key_prefix K @ ascii ''lock:posix:'' @ key_fmt K ino"

definition K_FlockLock :: "RedisKey \<Rightarrow> u64 \<Rightarrow> bytes" where
  "K_FlockLock K ino = key_prefix K @ ascii ''lock:flock:'' @ key_fmt K ino"

definition K_NextIno :: "RedisKey \<Rightarrow> bytes" where
  "K_NextIno K = key_prefix K @ ascii ''next_ino''"

definition K_NextChunkID :: "RedisKey \<Rightarrow> bytes" where
  "K_NextChunkID K = key_prefix K @ ascii ''next_chunk_id''"

definition K_NextSliceID :: "RedisKey \<Rightarrow> bytes" where
  "K_NextSliceID K = key_prefix K @ ascii ''next_slice_id''"

definition K_Inode :: "RedisKey \<Rightarrow> u64 \<Rightarrow> bytes" where
  "K_Inode K ino = key_prefix K @ ascii ''inode:'' @ key_fmt K ino"

definition K_Directory :: "RedisKey \<Rightarrow> u64 \<Rightarrow> bytes" where
  "K_Directory K parent_ino = key_prefix K @ ascii ''dir:'' @ key_fmt K parent_ino"

definition K_ChunkRefs :: "RedisKey \<Rightarrow> u64 \<Rightarrow> bytes" where
  "K_ChunkRefs K ino = key_prefix K @ ascii ''chunk_refs:'' @ key_fmt K ino"

definition K_PrivateChunkIndex :: "RedisKey \<Rightarrow> u32 \<Rightarrow> bytes \<Rightarrow> bytes" where
  "K_PrivateChunkIndex K mechanism hash =
    key_prefix K @ ascii ''private_chunk_index:'' @ ChunkTypeKey mechanism @ ascii '':'' @ hash"

definition K_InodeCount :: "RedisKey \<Rightarrow> bytes" where
  "K_InodeCount K = key_prefix K @ ascii ''inode_count''"

definition K_Orphans :: "RedisKey \<Rightarrow> bytes" where
  "K_Orphans K = key_prefix K @ ascii ''orphans''"

definition K_Reclaims :: "RedisKey \<Rightarrow> bytes" where
  "K_Reclaims K = key_prefix K @ ascii ''reclaims''"

definition K_PendingDeletes :: "RedisKey \<Rightarrow> bytes" where
  "K_PendingDeletes K = key_prefix K @ ascii ''pending_deletes''"

lemmas key_defs = K_Format_def K_OwnerGeneration_def K_OwnerLease_def K_PosixLock_def K_FlockLock_def K_NextIno_def
  K_NextChunkID_def K_NextSliceID_def K_Inode_def K_Directory_def K_ChunkRefs_def K_PrivateChunkIndex_def
  K_InodeCount_def K_Orphans_def K_Reclaims_def K_PendingDeletes_def

section \<open>The schema\<close>

datatype key_name =
    NFormat | NOwnerGeneration | NOwnerLease u64 | NPosixLock u64 | NFlockLock u64 | NNextIno | NNextChunkID
  | NNextSliceID | NInode u64 | NDirectory u64 | NChunkRefs u64 | NPrivateChunkIndex u32 bytes | NInodeCount
  | NOrphans | NReclaims | NPendingDeletes

fun key_of :: "RedisKey \<Rightarrow> key_name \<Rightarrow> bytes" where
  "key_of K NFormat = K_Format K"
| "key_of K NOwnerGeneration = K_OwnerGeneration K"
| "key_of K (NOwnerLease g) = K_OwnerLease K g"
| "key_of K (NPosixLock i) = K_PosixLock K i"
| "key_of K (NFlockLock i) = K_FlockLock K i"
| "key_of K NNextIno = K_NextIno K"
| "key_of K NNextChunkID = K_NextChunkID K"
| "key_of K NNextSliceID = K_NextSliceID K"
| "key_of K (NInode i) = K_Inode K i"
| "key_of K (NDirectory i) = K_Directory K i"
| "key_of K (NChunkRefs i) = K_ChunkRefs K i"
| "key_of K (NPrivateChunkIndex t h) = K_PrivateChunkIndex K t h"
| "key_of K NInodeCount = K_InodeCount K"
| "key_of K NOrphans = K_Orphans K"
| "key_of K NReclaims = K_Reclaims K"
| "key_of K NPendingDeletes = K_PendingDeletes K"

locale key_schema =
  fixes K :: RedisKey
  assumes sformat_law: "key_fmt K n = to_string (unat n)"
begin

lemma sformat_eq [simp]: "key_fmt K m = key_fmt K n \<longleftrightarrow> m = n"
  by (simp add: sformat_law word_unat_eq_iff)

lemma chunk_type_key_inj [simp]:
  "ChunkTypeKey t @ 58 # g = ChunkTypeKey u @ 58 # h \<longleftrightarrow> t = u \<and> g = h"
  by (subst (1 2) ChunkTypeKey_def, subst to_string_append_inject) (simp_all add: is_digit_def word_unat_eq_iff)

lemma key_of_inject: "key_of K a = key_of K b \<longleftrightarrow> a = b"
  by (cases a; cases b) (simp_all add: key_defs)

text \<open>The same, key by key, for the keys transactions touch.\<close>

lemma key_inject [simp]:
  "K_Inode K i = K_Inode K i' \<longleftrightarrow> i = i'"
  "K_Directory K i = K_Directory K i' \<longleftrightarrow> i = i'"
  "K_ChunkRefs K i = K_ChunkRefs K i' \<longleftrightarrow> i = i'"
  "K_PrivateChunkIndex K c h = K_PrivateChunkIndex K c' h' \<longleftrightarrow> c = c' \<and> h = h'"
  "K_OwnerLease K g = K_OwnerLease K g' \<longleftrightarrow> g = g'"
  "K_PosixLock K i = K_PosixLock K i' \<longleftrightarrow> i = i'"
  "K_FlockLock K i = K_FlockLock K i' \<longleftrightarrow> i = i'"
  by (simp_all flip: key_of.simps add: key_of_inject)

lemma key_distinct [simp]:
  "K_Inode K i \<noteq> K_Directory K i'" "K_Inode K i \<noteq> K_ChunkRefs K i'"
  "K_Inode K i \<noteq> K_PrivateChunkIndex K c' h'" "K_Inode K i \<noteq> K_InodeCount K" "K_Inode K i \<noteq> K_Orphans K"
  "K_Inode K i \<noteq> K_Reclaims K" "K_Inode K i \<noteq> K_PendingDeletes K" "K_Inode K i \<noteq> K_OwnerLease K g'"
  "K_Inode K i \<noteq> K_PosixLock K i'" "K_Inode K i \<noteq> K_FlockLock K i'" "K_Directory K i \<noteq> K_Inode K i'"
  "K_Directory K i \<noteq> K_ChunkRefs K i'" "K_Directory K i \<noteq> K_PrivateChunkIndex K c' h'"
  "K_Directory K i \<noteq> K_InodeCount K" "K_Directory K i \<noteq> K_Orphans K" "K_Directory K i \<noteq> K_Reclaims K"
  "K_Directory K i \<noteq> K_PendingDeletes K" "K_Directory K i \<noteq> K_OwnerLease K g'"
  "K_Directory K i \<noteq> K_PosixLock K i'" "K_Directory K i \<noteq> K_FlockLock K i'"
  "K_ChunkRefs K i \<noteq> K_Inode K i'" "K_ChunkRefs K i \<noteq> K_Directory K i'"
  "K_ChunkRefs K i \<noteq> K_PrivateChunkIndex K c' h'" "K_ChunkRefs K i \<noteq> K_InodeCount K"
  "K_ChunkRefs K i \<noteq> K_Orphans K" "K_ChunkRefs K i \<noteq> K_Reclaims K"
  "K_ChunkRefs K i \<noteq> K_PendingDeletes K" "K_ChunkRefs K i \<noteq> K_OwnerLease K g'"
  "K_ChunkRefs K i \<noteq> K_PosixLock K i'" "K_ChunkRefs K i \<noteq> K_FlockLock K i'"
  "K_PrivateChunkIndex K c h \<noteq> K_Inode K i'" "K_PrivateChunkIndex K c h \<noteq> K_Directory K i'"
  "K_PrivateChunkIndex K c h \<noteq> K_ChunkRefs K i'" "K_PrivateChunkIndex K c h \<noteq> K_InodeCount K"
  "K_PrivateChunkIndex K c h \<noteq> K_Orphans K" "K_PrivateChunkIndex K c h \<noteq> K_Reclaims K"
  "K_PrivateChunkIndex K c h \<noteq> K_PendingDeletes K" "K_PrivateChunkIndex K c h \<noteq> K_OwnerLease K g'"
  "K_PrivateChunkIndex K c h \<noteq> K_PosixLock K i'" "K_PrivateChunkIndex K c h \<noteq> K_FlockLock K i'"
  "K_InodeCount K \<noteq> K_Inode K i'" "K_InodeCount K \<noteq> K_Directory K i'"
  "K_InodeCount K \<noteq> K_ChunkRefs K i'" "K_InodeCount K \<noteq> K_PrivateChunkIndex K c' h'"
  "K_InodeCount K \<noteq> K_Orphans K" "K_InodeCount K \<noteq> K_Reclaims K" "K_InodeCount K \<noteq> K_PendingDeletes K"
  "K_InodeCount K \<noteq> K_OwnerLease K g'" "K_InodeCount K \<noteq> K_PosixLock K i'"
  "K_InodeCount K \<noteq> K_FlockLock K i'" "K_Orphans K \<noteq> K_Inode K i'" "K_Orphans K \<noteq> K_Directory K i'"
  "K_Orphans K \<noteq> K_ChunkRefs K i'" "K_Orphans K \<noteq> K_PrivateChunkIndex K c' h'"
  "K_Orphans K \<noteq> K_InodeCount K" "K_Orphans K \<noteq> K_Reclaims K" "K_Orphans K \<noteq> K_PendingDeletes K"
  "K_Orphans K \<noteq> K_OwnerLease K g'" "K_Orphans K \<noteq> K_PosixLock K i'" "K_Orphans K \<noteq> K_FlockLock K i'"
  "K_Reclaims K \<noteq> K_Inode K i'" "K_Reclaims K \<noteq> K_Directory K i'" "K_Reclaims K \<noteq> K_ChunkRefs K i'"
  "K_Reclaims K \<noteq> K_PrivateChunkIndex K c' h'" "K_Reclaims K \<noteq> K_InodeCount K"
  "K_Reclaims K \<noteq> K_Orphans K" "K_Reclaims K \<noteq> K_PendingDeletes K" "K_Reclaims K \<noteq> K_OwnerLease K g'"
  "K_Reclaims K \<noteq> K_PosixLock K i'" "K_Reclaims K \<noteq> K_FlockLock K i'"
  "K_PendingDeletes K \<noteq> K_Inode K i'" "K_PendingDeletes K \<noteq> K_Directory K i'"
  "K_PendingDeletes K \<noteq> K_ChunkRefs K i'" "K_PendingDeletes K \<noteq> K_PrivateChunkIndex K c' h'"
  "K_PendingDeletes K \<noteq> K_InodeCount K" "K_PendingDeletes K \<noteq> K_Orphans K"
  "K_PendingDeletes K \<noteq> K_Reclaims K" "K_PendingDeletes K \<noteq> K_OwnerLease K g'"
  "K_PendingDeletes K \<noteq> K_PosixLock K i'" "K_PendingDeletes K \<noteq> K_FlockLock K i'"
  "K_OwnerLease K g \<noteq> K_Inode K i'" "K_OwnerLease K g \<noteq> K_Directory K i'"
  "K_OwnerLease K g \<noteq> K_ChunkRefs K i'" "K_OwnerLease K g \<noteq> K_PrivateChunkIndex K c' h'"
  "K_OwnerLease K g \<noteq> K_InodeCount K" "K_OwnerLease K g \<noteq> K_Orphans K" "K_OwnerLease K g \<noteq> K_Reclaims K"
  "K_OwnerLease K g \<noteq> K_PendingDeletes K" "K_OwnerLease K g \<noteq> K_PosixLock K i'"
  "K_OwnerLease K g \<noteq> K_FlockLock K i'" "K_PosixLock K i \<noteq> K_Inode K i'"
  "K_PosixLock K i \<noteq> K_Directory K i'" "K_PosixLock K i \<noteq> K_ChunkRefs K i'"
  "K_PosixLock K i \<noteq> K_PrivateChunkIndex K c' h'" "K_PosixLock K i \<noteq> K_InodeCount K"
  "K_PosixLock K i \<noteq> K_Orphans K" "K_PosixLock K i \<noteq> K_Reclaims K"
  "K_PosixLock K i \<noteq> K_PendingDeletes K" "K_PosixLock K i \<noteq> K_OwnerLease K g'"
  "K_PosixLock K i \<noteq> K_FlockLock K i'" "K_FlockLock K i \<noteq> K_Inode K i'"
  "K_FlockLock K i \<noteq> K_Directory K i'" "K_FlockLock K i \<noteq> K_ChunkRefs K i'"
  "K_FlockLock K i \<noteq> K_PrivateChunkIndex K c' h'" "K_FlockLock K i \<noteq> K_InodeCount K"
  "K_FlockLock K i \<noteq> K_Orphans K" "K_FlockLock K i \<noteq> K_Reclaims K"
  "K_FlockLock K i \<noteq> K_PendingDeletes K" "K_FlockLock K i \<noteq> K_OwnerLease K g'"
  "K_FlockLock K i \<noteq> K_PosixLock K i'"
  by (simp_all flip: key_of.simps add: key_of_inject)

end

text \<open>The model's own keys, with the decimal rendering.\<close>

definition int_to_string :: "int \<Rightarrow> bytes" where
  "int_to_string n = (if n < 0 then ascii ''-'' @ to_string (nat (- n)) else to_string (nat n))"

definition dec_key :: "int \<Rightarrow> bytes \<Rightarrow> RedisKey" where
  "dec_key = new_RedisKey int_to_string (\<lambda>n. to_string (unat n))"

interpretation dec_key: key_schema "dec_key db vol" for db vol
  by unfold_locales (simp add: dec_key_def new_RedisKey_def)

text \<open>C19: The key schema of a volume is injective: two different names (an inode record, a directory, a chunk map,
  a lock table, a lease, a counter, a queue or a private chunk index) never share a Redis key.\<close>

theorem key_schema_injective:
  assumes "key_schema K"
  shows "inj (key_of K)"
  using key_schema.key_of_inject [OF assms] by (simp add: inj_def)

theorem key_schema_injective_witness:
  "key_schema (dec_key 0 (ascii ''vol'')) \<and> inj (key_of (dec_key 0 (ascii ''vol'')))
   \<and> key_of (dec_key 0 (ascii ''vol'')) (NInode 12) = ascii ''{0:vol}:inode:12''"
proof (intro conjI)
  show "inj (key_of (dec_key 0 (ascii ''vol'')))"
    by (rule key_schema_injective [OF dec_key.key_schema_axioms])
qed (rule dec_key.key_schema_axioms, simp add: K_Inode_def dec_key_def new_RedisKey_def int_to_string_def to_string.simps)

end
