(* ===== verification/LockRanges.thy ===== *)
theory LockRanges
  imports RedisKey "HOL-Library.Multiset"
begin

text \<open>
  POSIX record locks of one owner (\<open>metadata/LockAuthority.hpp\<close> and the first part of
  \<open>metadata/redis/RedisLockAuthority.cpp\<close>): intervals, their update by a request, and their stored text.

  Offsets are 64 bit words; an interval is half open and \<open>UINT64_MAX\<close> as its end stands for the end of every file.
  A process id is a 32 bit word read as a signed integer. The stored text uses decimal numerals: \<open>std::from_chars\<close>
  when read and \<open>folly::sformat\<close>, a component of the key object, when written.
\<close>

datatype PosixType = pRead | pWrite | pUnlock
datatype FlockType = fShared | fExclusive | fUnlock

record PosixRange =
  pr_start :: u64
  pr_length :: u64
  pr_type :: PosixType
  pr_pid :: u32

record PosixConflict =
  pc_start :: u64
  pc_length :: u64
  pc_kernel_owner :: u64
  pc_type :: PosixType
  pc_pid :: u32

record LockHolder =
  lh_kernel_owner :: u64
  lh_local_generation :: bool
  lh_ranges :: "PosixRange list"
  lh_flock :: FlockType

definition kMaxHolders :: nat where "kMaxHolders = 1024"
definition kMaxValueBytes :: nat where "kMaxValueBytes = 4096"
definition kMaxIntervals :: nat where "kMaxIntervals = 128"
definition kUncertainAttempts :: nat where "kUncertainAttempts = 3"
definition kMaxCachedGcCursors :: nat where "kMaxCachedGcCursors = 256"
definition kFenceField :: bytes where "kFenceField = ascii ''!fence''"

record Interval =
  iv_start :: u64
  iv_end :: u64
  iv_type :: PosixType
  iv_pid :: u32

record Holder =
  h_generation :: u64
  h_kernel_owner :: u64
  h_ranges :: "Interval list"
  h_flock :: FlockType

abbreviation UINT64_MAX :: u64 where "UINT64_MAX \<equiv> - 1"

definition ParseNumber :: "bytes \<Rightarrow> u64 option" where
  "ParseNumber text = (if text = [] then None else
    case from_chars (2 ^ 64 - 1) text of Some (v, []) \<Rightarrow> Some (of_nat v) | _ \<Rightarrow> None)"

definition SplitOnce :: "bytes \<Rightarrow> u8 \<Rightarrow> bytes \<times> bytes" where
  "SplitOnce input delimiter =
    (takeWhile (\<lambda>c. c \<noteq> delimiter) input, drop 1 (dropWhile (\<lambda>c. c \<noteq> delimiter) input))"

definition owner_field :: "RedisKey \<Rightarrow> u64 \<Rightarrow> u64 \<Rightarrow> bytes" where
  "owner_field K generation kernel_owner = key_fmt K generation @ ascii '':'' @ key_fmt K kernel_owner"

definition ParseOwner :: "RedisKey \<Rightarrow> bytes \<Rightarrow> (u64 \<times> u64) option" where
  "ParseOwner K field = (let (first, second) = SplitOnce field (of_char CHR '':'') in
    if of_char CHR '':'' \<notin> set field then None
    else case (ParseNumber first, ParseNumber second) of
        (Some g, Some k) \<Rightarrow> if g > 0 \<and> field = owner_field K g k then Some (g, k) else None
      | _ \<Rightarrow> None)"

definition ValidateRange :: "PosixRange \<Rightarrow> Interval res" where
  "ValidateRange r =
    chk (reject (pr_length r \<noteq> 0 \<and> pr_length r > UINT64_MAX - pr_start r) kInvalidArgument) (\<lambda>_.
    chk (reject (sint (pr_pid r) < 0) kInvalidArgument) (\<lambda>_.
    let iv = \<lparr>iv_start = pr_start r, iv_end = (if pr_length r = 0 then UINT64_MAX else pr_start r + pr_length r),
              iv_type = pr_type r, iv_pid = pr_pid r\<rparr>
    in chk (reject (iv_start iv = iv_end iv) kInvalidArgument) (\<lambda>_. Inr iv)))"

definition Overlaps :: "Interval \<Rightarrow> Interval \<Rightarrow> bool" where
  "Overlaps a b \<longleftrightarrow> iv_start a < iv_end b \<and> iv_start b < iv_end a"

section \<open>Stored text\<close>

text \<open>The check of one entry against the last interval read, and the loop over the entries.\<close>

definition decode_entry :: "Interval list \<Rightarrow> bytes \<Rightarrow> Interval res" where
  "decode_entry ranges entry =
    (let (kind, tail) = SplitOnce entry (of_char CHR '','');
         (start, remaining) = SplitOnce tail (of_char CHR '','');
         (fin, pid) = SplitOnce remaining (of_char CHR '','')
     in if (kind \<noteq> ascii ''R'' \<and> kind \<noteq> ascii ''W'') \<or> of_char CHR '','' \<notin> set remaining then Inl kMalformed
        else case (ParseNumber start, ParseNumber fin, ParseNumber pid) of
          (Some first, Some end1, Some holder_pid) \<Rightarrow>
            (if holder_pid > 0x7FFFFFFF \<or> first \<ge> end1 then Inl kMalformed
             else let ty = (if kind = ascii ''R'' then pRead else pWrite); p = (ucast holder_pid :: u32) in
               if ranges \<noteq> [] \<and> (iv_end (last ranges) > first
                    \<or> (iv_end (last ranges) = first \<and> iv_type (last ranges) = ty \<and> iv_pid (last ranges) = p))
               then Inl kMalformed
               else Inr \<lparr>iv_start = first, iv_end = end1, iv_type = ty, iv_pid = p\<rparr>)
        | _ \<Rightarrow> Inl kMalformed)"

function decode_ranges :: "Interval list \<Rightarrow> bytes \<Rightarrow> Interval list res" where
  "decode_ranges ranges data =
    (if data = [] then Inr ranges
     else let (entry, rest) = SplitOnce data (of_char CHR ''|'') in
       chk (decode_entry ranges entry) (\<lambda>iv.
         if length (ranges @ [iv]) > kMaxIntervals then Inl kMalformed
         else if rest = [] then Inr (ranges @ [iv])
         else decode_ranges (ranges @ [iv]) rest))"
  by pat_completeness auto
termination
proof (relation "measure (\<lambda>(ranges, data). length data)", goal_cases)
  case (2 ranges data x entry rest iv)
  then have "length rest = length (dropWhile (\<lambda>c. c \<noteq> of_char CHR ''|'') data) - 1"
    by (simp add: SplitOnce_def)
  with 2 show ?case
    using length_dropWhile_le [of "\<lambda>c. c \<noteq> of_char CHR ''|''" data] by (cases data) auto
qed simp

declare decode_ranges.simps [simp del]

definition Decode :: "bytes \<Rightarrow> bool \<Rightarrow> Holder \<Rightarrow> Holder res" where
  "Decode data flock holder =
    (if length data > kMaxValueBytes then Inl kMalformed
     else if flock then
       (if data = ascii ''F1|S'' then Inr (holder\<lparr>h_flock := fShared\<rparr>)
        else if data = ascii ''F1|X'' then Inr (holder\<lparr>h_flock := fExclusive\<rparr>)
        else Inl kMalformed)
     else if take 3 data \<noteq> ascii ''P2|'' then Inl kMalformed
     else let data1 = drop 3 data in
       if data1 = [] \<or> last data1 = of_char CHR ''|'' then Inl kMalformed
       else chk (decode_ranges (h_ranges holder) data1) (\<lambda>rs. Inr (holder\<lparr>h_ranges := rs\<rparr>)))"

definition encode_entry :: "RedisKey \<Rightarrow> Interval \<Rightarrow> bytes" where
  "encode_entry K r = (if iv_type r = pRead then ascii ''R'' else ascii ''W'') @ ascii '','' @ key_fmt K (iv_start r)
     @ ascii '','' @ key_fmt K (iv_end r) @ ascii '','' @ key_fmt K (ucast (iv_pid r))"

definition Encode :: "RedisKey \<Rightarrow> Interval list \<Rightarrow> bytes" where
  "Encode K ranges = ascii ''P2'' @ concat (map (\<lambda>r. ascii ''|'' @ encode_entry K r) ranges)"

section \<open>Updating an owner's ranges\<close>

definition carve :: "Interval \<Rightarrow> Interval \<Rightarrow> Interval list" where
  "carve request part =
    (if \<not> Overlaps part request then [part]
     else (if iv_start part < iv_start request then [part\<lparr>iv_end := iv_start request\<rparr>] else [])
        @ (if iv_end request < iv_end part then [part\<lparr>iv_start := iv_end request\<rparr>] else []))"

definition joins :: "Interval \<Rightarrow> Interval \<Rightarrow> bool" where
  "joins a b \<longleftrightarrow> iv_end a = iv_start b \<and> iv_type a = iv_type b \<and> iv_pid a = iv_pid b"

text \<open>The merging loop; \<open>cur\<close> is \<open>ranges->back()\<close>.\<close>

fun merge_from :: "Interval \<Rightarrow> Interval list \<Rightarrow> Interval list" where
  "merge_from cur [] = [cur]"
| "merge_from cur (p # ps) =
    (if joins cur p then merge_from (cur\<lparr>iv_end := iv_end p\<rparr>) ps else cur # merge_from p ps)"

fun merge_ranges :: "Interval list \<Rightarrow> Interval list" where
  "merge_ranges [] = []"
| "merge_ranges (p # ps) = merge_from p ps"

definition next_ranges :: "Interval list \<Rightarrow> Interval \<Rightarrow> Interval list" where
  "next_ranges ranges request = merge_ranges (sort_key iv_start
     (concat (map (carve request) ranges) @ (if iv_type request \<noteq> pUnlock then [request] else [])))"

definition UpdateRanges :: "RedisKey \<Rightarrow> Interval list \<Rightarrow> Interval \<Rightarrow> Interval list res" where
  "UpdateRanges K ranges request =
    (let rs = next_ranges ranges request in
     if length rs > kMaxIntervals \<or> length (Encode K rs) > kMaxValueBytes then Inl kNoLocks else Inr rs)"

section \<open>What a set of ranges means\<close>

text \<open>The lock an owner holds at an offset, and the sets of ranges the code keeps: ordered, disjoint, non-empty and
  with no two adjacent intervals that could be one.\<close>

definition holds :: "Interval \<Rightarrow> u64 \<Rightarrow> bool" where
  "holds iv x \<longleftrightarrow> iv_start iv \<le> x \<and> x < iv_end iv"

definition tag :: "Interval \<Rightarrow> PosixType \<times> u32" where
  "tag iv = (iv_type iv, iv_pid iv)"

fun view :: "Interval list \<Rightarrow> u64 \<Rightarrow> (PosixType \<times> u32) option" where
  "view [] x = None"
| "view (a # r) x = (if holds a x then Some (tag a) else view r x)"

definition wf_iv :: "Interval \<Rightarrow> bool" where
  "wf_iv a \<longleftrightarrow> iv_start a < iv_end a \<and> iv_type a \<noteq> pUnlock \<and> 0 \<le> sint (iv_pid a)"

definition separated :: "Interval list \<Rightarrow> bool" where
  "separated rs \<longleftrightarrow> sorted_wrt (\<lambda>a b. iv_end a \<le> iv_start b) rs \<and> (\<forall>a\<in>set rs. wf_iv a)"

fun no_joins :: "Interval list \<Rightarrow> bool" where
  "no_joins (a # b # r) \<longleftrightarrow> \<not> joins a b \<and> no_joins (b # r)"
| "no_joins _ \<longleftrightarrow> True"

definition canonical :: "Interval list \<Rightarrow> bool" where
  "canonical rs \<longleftrightarrow> separated rs \<and> no_joins rs"

lemma separated_simps [simp]:
  "separated []" "separated (a # r) \<longleftrightarrow> wf_iv a \<and> (\<forall>b\<in>set r. iv_end a \<le> iv_start b) \<and> separated r"
  by (auto simp: separated_def)

lemma separated_wf: "separated rs \<Longrightarrow> a \<in> set rs \<Longrightarrow> wf_iv a"
  by (simp add: separated_def)

lemma separated_append:
  "separated (xs @ ys) \<longleftrightarrow> separated xs \<and> separated ys \<and> (\<forall>a\<in>set xs. \<forall>b\<in>set ys. iv_end a \<le> iv_start b)"
  by (auto simp: separated_def sorted_wrt_append)

lemma view_append: "view (xs @ ys) x = (case view xs x of None \<Rightarrow> view ys x | Some v \<Rightarrow> Some v)"
  by (induction xs) auto

lemma view_None: "view rs x = None \<longleftrightarrow> (\<forall>a\<in>set rs. \<not> holds a x)"
  by (induction rs) auto

lemma view_Some: "view rs x = Some v \<Longrightarrow> \<exists>a\<in>set rs. holds a x \<and> v = tag a"
  by (induction rs) (auto split: if_splits)

subsection \<open>Merging\<close>

lemma joins_extend:
  assumes "joins a b" "wf_iv a" "wf_iv b"
  shows "wf_iv (a\<lparr>iv_end := iv_end b\<rparr>)" "tag (a\<lparr>iv_end := iv_end b\<rparr>) = tag a" "tag a = tag b"
    "holds (a\<lparr>iv_end := iv_end b\<rparr>) x \<longleftrightarrow> holds a x \<or> holds b x"
  using assms by (auto simp: joins_def wf_iv_def tag_def holds_def)

lemma merge_from_start: "\<exists>e r. merge_from a ps = a\<lparr>iv_end := e\<rparr> # r"
proof (induction a ps rule: merge_from.induct)
  case (1 cur)
  have "cur = cur\<lparr>iv_end := iv_end cur\<rparr>"
    by simp
  then show ?case
    by (metis merge_from.simps(1))
next
  case (2 cur p ps)
  show ?case
  proof (cases "joins cur p")
    case True
    then show ?thesis
      using 2 by auto
  next
    case False
    have "cur = cur\<lparr>iv_end := iv_end cur\<rparr>"
      by simp
    then show ?thesis
      using False by (metis merge_from.simps(2))
  qed
qed

lemma merge_from_correct:
  "separated (a # ps) \<Longrightarrow> canonical (merge_from a ps) \<and> view (merge_from a ps) = view (a # ps)
     \<and> (\<forall>b\<in>set (merge_from a ps). iv_start a \<le> iv_start b)"
proof (induction a ps rule: merge_from.induct)
  case (1 cur)
  then show ?case
    by (simp add: canonical_def)
next
  case (2 cur p ps)
  show ?case
  proof (cases "joins cur p")
    case True
    have wf: "wf_iv cur" "wf_iv p"
      using 2 by auto
    have sep: "separated (cur\<lparr>iv_end := iv_end p\<rparr> # ps)"
      using 2 True joins_extend(1) [OF True] by auto
    have "view (cur\<lparr>iv_end := iv_end p\<rparr> # ps) = view (cur # p # ps)"
      using joins_extend(2-4) [OF True wf] by (auto simp: fun_eq_iff)
    then show ?thesis
      using 2(1) [OF True sep] True by simp
  next
    case False
    have IH: "canonical (merge_from p ps)" "view (merge_from p ps) = view (p # ps)"
        "\<forall>b\<in>set (merge_from p ps). iv_start p \<le> iv_start b"
      using 2(2) [OF False] "2.prems" by auto
    have le: "iv_end cur \<le> iv_start p" "iv_start cur < iv_end cur"
      using "2.prems" by (auto simp: wf_iv_def)
    obtain e r where m: "merge_from p ps = p\<lparr>iv_end := e\<rparr> # r"
      using merge_from_start by blast
    have "no_joins (cur # merge_from p ps)"
      using IH(1) False by (simp add: m canonical_def joins_def)
    moreover have "separated (cur # merge_from p ps)"
      using IH(1,3) le "2.prems" by (auto simp: canonical_def intro: order_trans)
    ultimately show ?thesis
      using False IH le by (auto simp: canonical_def fun_eq_iff intro: order_trans less_imp_le)
  qed
qed

lemma merge_ranges_correct:
  "separated rs \<Longrightarrow> canonical (merge_ranges rs) \<and> view (merge_ranges rs) = view rs"
  using merge_from_correct by (cases rs) (auto simp: canonical_def)

subsection \<open>Carving\<close>

text \<open>What is left of an interval before and after the request.\<close>

definition left_of :: "Interval \<Rightarrow> Interval \<Rightarrow> Interval list" where
  "left_of q p = (if iv_end p \<le> iv_start q then [p] else if iv_start p < iv_start q then [p\<lparr>iv_end := iv_start q\<rparr>] else [])"

definition right_of :: "Interval \<Rightarrow> Interval \<Rightarrow> Interval list" where
  "right_of q p = (if iv_end q \<le> iv_start p then [p] else if iv_end q < iv_end p then [p\<lparr>iv_start := iv_end q\<rparr>] else [])"

lemma carve_left_right:
  assumes "iv_start q < iv_end q" "wf_iv p"
  shows "carve q p = left_of q p @ right_of q p"
  using assms by (auto simp: carve_def left_of_def right_of_def Overlaps_def wf_iv_def)

lemma left_of_set: "a \<in> set (left_of q p) \<Longrightarrow> wf_iv p \<Longrightarrow>
    wf_iv a \<and> iv_end a \<le> iv_start q \<and> iv_start p \<le> iv_start a \<and> iv_end a \<le> iv_end p"
  by (auto simp: left_of_def wf_iv_def split: if_splits)

lemma right_of_set: "a \<in> set (right_of q p) \<Longrightarrow> wf_iv p \<Longrightarrow>
    wf_iv a \<and> iv_end q \<le> iv_start a \<and> iv_start p \<le> iv_start a \<and> iv_end a \<le> iv_end p"
  by (auto simp: right_of_def wf_iv_def split: if_splits)

lemma left_right_view:
  assumes "iv_start q < iv_end q" "wf_iv p"
  shows "view (left_of q p) x = (if holds p x \<and> x < iv_start q then Some (tag p) else None)"
    "view (right_of q p) x = (if holds p x \<and> iv_end q \<le> x then Some (tag p) else None)"
  using assms by (auto simp: left_of_def right_of_def holds_def tag_def wf_iv_def)

lemma right_then_no_left:
  assumes "right_of q p \<noteq> []" "iv_end p \<le> iv_start p'" "iv_start q < iv_end q" "wf_iv p" "wf_iv p'"
  shows "left_of q p' = []"
  using assms by (auto simp: left_of_def right_of_def wf_iv_def split: if_splits)

definition lefts :: "Interval \<Rightarrow> Interval list \<Rightarrow> Interval list" where
  "lefts q rs = concat (map (left_of q) rs)"

definition rights :: "Interval \<Rightarrow> Interval list \<Rightarrow> Interval list" where
  "rights q rs = concat (map (right_of q) rs)"

lemma lefts_rights_simps [simp]:
  "lefts q [] = []" "lefts q (p # rs) = left_of q p @ lefts q rs"
  "rights q [] = []" "rights q (p # rs) = right_of q p @ rights q rs"
  by (simp_all add: lefts_def rights_def)

lemma carve_all:
  "\<lbrakk> iv_start q < iv_end q; separated rs \<rbrakk> \<Longrightarrow> concat (map (carve q) rs) = lefts q rs @ rights q rs"
proof (induction rs)
  case (Cons p rs)
  have "lefts q rs = []" if "right_of q p \<noteq> []"
    using Cons.prems right_then_no_left [OF that] by (auto simp: lefts_def separated_def)
  then show ?case
    using Cons by (cases "right_of q p = []") (auto simp: carve_left_right)
qed simp

lemma lefts_separated:
  "separated rs \<Longrightarrow> separated (lefts q rs) \<and> (\<forall>a\<in>set (lefts q rs). iv_end a \<le> iv_start q \<and> (\<exists>p\<in>set rs. iv_start p \<le> iv_start a))"
proof (induction rs)
  case (Cons p rs)
  have "separated (left_of q p)"
    using Cons.prems by (auto simp: left_of_def wf_iv_def)
  then show ?case
    using Cons left_of_set [of _ q p] by (fastforce simp: separated_append intro: order_trans)
qed simp

lemma rights_separated:
  "separated rs \<Longrightarrow> separated (rights q rs) \<and> (\<forall>a\<in>set (rights q rs). iv_end q \<le> iv_start a \<and> (\<exists>p\<in>set rs. iv_start p \<le> iv_start a))"
proof (induction rs)
  case (Cons p rs)
  have "separated (right_of q p)"
    using Cons.prems by (auto simp: right_of_def wf_iv_def)
  then show ?case
    using Cons right_of_set [of _ q p] by (fastforce simp: separated_append intro: order_trans)
qed simp

subsection \<open>The update\<close>

lemma view_lefts: "\<lbrakk> iv_start q < iv_end q; separated rs; x < iv_start q \<rbrakk> \<Longrightarrow> view (lefts q rs) x = view rs x"
  by (induction rs) (auto simp: view_append left_right_view)

lemma view_rights: "\<lbrakk> iv_start q < iv_end q; separated rs; iv_end q \<le> x \<rbrakk> \<Longrightarrow> view (rights q rs) x = view rs x"
  by (induction rs) (auto simp: view_append left_right_view)

lemma view_lefts_out: "separated rs \<Longrightarrow> iv_start q \<le> x \<Longrightarrow> view (lefts q rs) x = None"
  using lefts_separated [of rs q] by (force simp: view_None holds_def)

lemma view_rights_out: "separated rs \<Longrightarrow> x < iv_end q \<Longrightarrow> view (rights q rs) x = None"
  using rights_separated [of rs q] by (force simp: view_None holds_def)

lemma separated_sorted: "separated rs \<Longrightarrow> sorted (map iv_start rs)"
proof (induction rs)
  case (Cons a rs)
  then show ?case
    by (auto simp: wf_iv_def intro: order_trans less_imp_le)
qed simp

lemma sort_separated:
  assumes "separated (xs @ q # ys)"
  shows "sort_key iv_start (xs @ ys @ [q]) = xs @ q # ys"
proof (rule properties_for_sort_key)
  show "mset (xs @ q # ys) = mset (xs @ ys @ [q])"
    by simp
  show "sorted (map iv_start (xs @ q # ys))"
    using separated_sorted [OF assms] .
  have "iv_start q < iv_start a" if "a \<in> set ys" for a
    using assms that by (auto simp: separated_append wf_iv_def intro: less_le_trans)
  then have "filter (\<lambda>x. iv_start q = iv_start x) ys = []"
    unfolding filter_empty_conv by (metis less_irrefl)
  then show "filter (\<lambda>x. iv_start k = iv_start x) (xs @ q # ys) = filter (\<lambda>x. iv_start k = iv_start x) (xs @ ys @ [q])"
    if "k \<in> set (xs @ q # ys)" for k
    by (cases "iv_start k = iv_start q") auto
qed

lemma next_ranges_shape:
  assumes q: "iv_start q < iv_end q" "0 \<le> sint (iv_pid q)" and rs: "separated rs"
  shows "separated (lefts q rs @ (if iv_type q \<noteq> pUnlock then [q] else []) @ rights q rs)"
    "next_ranges rs q = merge_ranges (lefts q rs @ (if iv_type q \<noteq> pUnlock then [q] else []) @ rights q rs)"
proof -
  have sep: "separated (lefts q rs @ rights q rs)"
    using lefts_separated [OF rs, of q] rights_separated [OF rs, of q] q
    by (auto simp: separated_append) (meson less_imp_le order_trans)
  show sep': "separated (lefts q rs @ (if iv_type q \<noteq> pUnlock then [q] else []) @ rights q rs)"
    using sep lefts_separated [OF rs, of q] rights_separated [OF rs, of q] q
    by (auto simp: separated_append wf_iv_def)
  show "next_ranges rs q = merge_ranges (lefts q rs @ (if iv_type q \<noteq> pUnlock then [q] else []) @ rights q rs)"
  proof (cases "iv_type q = pUnlock")
    case True
    then show ?thesis
      using separated_sorted [OF sep] by (simp add: next_ranges_def carve_all [OF q(1) rs] sort_key_id_if_sorted)
  next
    case False
    then show ?thesis
      using sep' by (simp add: next_ranges_def carve_all [OF q(1) rs] sort_separated)
  qed
qed

lemma next_ranges_correct:
  assumes q: "iv_start q < iv_end q" "0 \<le> sint (iv_pid q)" and rs: "separated rs"
  shows "canonical (next_ranges rs q)"
    "view (next_ranges rs q) x =
      (if holds q x then (if iv_type q = pUnlock then None else Some (tag q)) else view rs x)"
proof -
  note sh = next_ranges_shape [OF assms]
  note mc = merge_ranges_correct [OF sh(1)]
  show "canonical (next_ranges rs q)"
    using mc sh(2) by simp
  have v: "view (next_ranges rs q) x = view (lefts q rs @ (if iv_type q \<noteq> pUnlock then [q] else []) @ rights q rs) x"
    using mc sh(2) by simp
  consider "x < iv_start q" | "holds q x" | "iv_end q \<le> x"
    by (force simp: holds_def)
  then show "view (next_ranges rs q) x =
      (if holds q x then (if iv_type q = pUnlock then None else Some (tag q)) else view rs x)"
  proof cases
    case 1
    then have "x < iv_end q" "\<not> holds q x"
      using q by (auto simp: holds_def)
    then show ?thesis
      using 1 q rs unfolding v by (simp add: view_append view_lefts view_rights_out split: option.splits)
  next
    case 2
    then have "iv_start q \<le> x" "x < iv_end q"
      by (auto simp: holds_def)
    then show ?thesis
      using 2 rs unfolding v by (simp add: view_append view_lefts_out view_rights_out)
  next
    case 3
    then have "iv_start q \<le> x" "\<not> holds q x"
      using q by (auto simp: holds_def)
    then show ?thesis
      using 3 q rs unfolding v by (simp add: view_append view_lefts_out view_rights)
  qed
qed

section \<open>Round trip of the stored text\<close>

lemma separated_snoc:
  "separated (rs @ [iv]) \<longleftrightarrow> separated rs \<and> wf_iv iv \<and> (rs = [] \<or> iv_end (last rs) \<le> iv_start iv)"
proof (cases rs rule: rev_cases)
  case (snoc ys y)
  then show ?thesis
    by (auto simp: separated_append wf_iv_def)
qed simp

lemma no_joins_snoc: "no_joins (rs @ [iv]) \<longleftrightarrow> no_joins rs \<and> (rs = [] \<or> \<not> joins (last rs) iv)"
  by (induction rs rule: no_joins.induct) auto

lemma canonical_snoc:
  "canonical (rs @ [iv]) \<longleftrightarrow> canonical rs \<and> wf_iv iv \<and> (rs = [] \<or> iv_end (last rs) \<le> iv_start iv \<and> \<not> joins (last rs) iv)"
  by (auto simp: canonical_def separated_snoc no_joins_snoc)

lemma canonical_appendD: "canonical (xs @ ys) \<Longrightarrow> canonical xs"
  by (induction ys rule: rev_induct) (auto simp: canonical_snoc simp flip: append_assoc)

lemma SplitOnce_found: "c \<notin> set xs \<Longrightarrow> SplitOnce (xs @ c # ys) c = (xs, ys)"
proof -
  assume "c \<notin> set xs"
  then have "\<And>x. x \<in> set xs \<Longrightarrow> x \<noteq> c"
    by auto
  then show ?thesis
    by (simp add: SplitOnce_def takeWhile_append2 dropWhile_append2)
qed

lemma SplitOnce_end: "c \<notin> set xs \<Longrightarrow> SplitOnce xs c = (xs, [])"
proof -
  assume "c \<notin> set xs"
  then have "\<forall>x\<in>set xs. x \<noteq> c"
    by auto
  then show ?thesis
    by (simp add: SplitOnce_def takeWhile_eq_all_conv dropWhile_eq_Nil_conv [THEN iffD2])
qed

lemma small_pid:
  fixes p :: u32
  assumes "0 \<le> sint p"
  shows "(ucast p :: u64) \<le> 0x7FFFFFFF" "(ucast (ucast p :: u64) :: u32) = p"
proof -
  have "\<not> bit p 31"
    using assms unfolding sint_uint by (simp add: bit_uint_iff)
  then have p: "take_bit 31 p = p"
  proof (intro bit_word_eqI)
    fix n
    assume "\<not> bit p 31" "n < LENGTH(32)"
    then show "bit (take_bit 31 p) n \<longleftrightarrow> bit p n"
      by (cases "n = 31") (auto simp: bit_simps)
  qed
  have "unat p < 2 ^ 31"
    using take_bit_nat_less_exp [of 31 "unat p"] arg_cong [OF p, of unat] by (simp add: unsigned_take_bit_eq)
  then show "(ucast p :: u64) \<le> 0x7FFFFFFF"
    by (simp add: word_le_nat_alt unsigned_ucast_eq take_bit_eq_mod)
  show "(ucast (ucast p :: u64) :: u32) = p"
    by (intro bit_word_eqI) (simp add: bit_simps)
qed

lemma decode_entry_wf:
  assumes "decode_entry rs entry = Inr iv" "canonical rs"
  shows "canonical (rs @ [iv])"
proof -
  have pid: "0 \<le> sint (ucast p :: u32)" if "p \<le> 0x7FFFFFFF" for p :: u64
  proof -
    have "unat p < 2 ^ 31"
      using that by (simp add: word_le_nat_alt)
    then have "\<not> bit (unat (ucast p :: u32)) 31"
      by (simp add: bit_iff_odd unsigned_ucast_eq take_bit_eq_mod)
    then have "\<not> bit (ucast p :: u32) 31"
      by (simp add: bit_unsigned_iff)
    then show ?thesis
      unfolding sint_uint by (simp add: bit_uint_iff)
  qed
  show ?thesis
    using assms pid
    by (auto simp: decode_entry_def canonical_snoc wf_iv_def joins_def Let_def not_less not_le
        split: prod.splits option.splits if_splits)
qed

lemma decode_ranges_canonical:
  "\<lbrakk> decode_ranges rs data = Inr rs'; canonical rs; length rs \<le> kMaxIntervals \<rbrakk> \<Longrightarrow>
     canonical rs' \<and> length rs' \<le> kMaxIntervals"
proof (induction rs data rule: decode_ranges.induct)
  case (1 rs data)
  show ?case
  proof (cases "data = []")
    case True
    then show ?thesis
      using 1 by (simp add: decode_ranges.simps)
  next
    case False
    obtain entry rest where sp: "SplitOnce data (of_char CHR ''|'') = (entry, rest)"
      by fastforce
    obtain iv where iv: "decode_entry rs entry = Inr iv" and len: "length (rs @ [iv]) \<le> kMaxIntervals"
      and rest: "(if rest = [] then Inr (rs @ [iv]) else decode_ranges (rs @ [iv]) rest) = Inr rs'"
      using "1.prems"(1) False sp
      by (subst (asm) decode_ranges.simps) (auto simp: result_simps not_less split: if_splits)
    have c: "canonical (rs @ [iv])"
      using decode_entry_wf [OF iv "1.prems"(2)] .
    show ?thesis
    proof (cases "rest = []")
      case True
      then show ?thesis
        using rest c len by simp
    next
      case rne: False
      then show ?thesis
        using "1.IH" [OF False sp [symmetric] refl iv] rest c len by simp
    qed
  qed
qed

lemma Decode_canonical:
  "\<lbrakk> Decode data False h = Inr h'; h_ranges h = [] \<rbrakk> \<Longrightarrow> canonical (h_ranges h') \<and> length (h_ranges h') \<le> kMaxIntervals
     \<and> h_generation h' = h_generation h \<and> h_kernel_owner h' = h_kernel_owner h"
  using decode_ranges_canonical [of "[]"]
  by (auto simp: Decode_def Let_def canonical_def result_simps split: if_splits)

context key_schema
begin

lemma ParseNumber_fmt [simp]: "ParseNumber (key_fmt K n) = Some n"
  using from_chars_to_string [of "unat n" "2 ^ 64 - 1" "[]"] unsigned_less [where 'b=64 and 'a=nat, of n]
  by (simp add: ParseNumber_def sformat_law)

lemma fmt_chars: "c \<in> set (key_fmt K n) \<Longrightarrow> 48 \<le> c \<and> c \<le> 57"
  using to_string_digits by (simp add: sformat_law is_digit_def)

lemma fmt_no_sep [simp]: "44 \<notin> set (key_fmt K n)" "124 \<notin> set (key_fmt K n)" "58 \<notin> set (key_fmt K n)"
  using fmt_chars [of _ n] by (auto dest!: fmt_chars)

lemma decode_encode_entry:
  assumes "canonical (rs @ [iv])"
  shows "decode_entry rs (encode_entry K iv) = Inr iv"
proof -
  define ty where "ty = (if iv_type iv = pRead then ascii ''R'' else ascii ''W'')"
  have wf: "iv_start iv < iv_end iv" "iv_type iv \<noteq> pUnlock" "0 \<le> sint (iv_pid iv)"
    using assms by (auto simp: canonical_snoc wf_iv_def)
  have adj: "rs = [] \<or> iv_end (last rs) \<le> iv_start iv \<and> \<not> joins (last rs) iv"
    using assms by (auto simp: canonical_snoc)
  have ty': "(if ty = ascii ''R'' then pRead else pWrite) = iv_type iv" "44 \<notin> set ty" "ty = ascii ''R'' \<or> ty = ascii ''W''"
    using wf(2) by (cases "iv_type iv"; simp add: ty_def)+
  have e: "encode_entry K iv = ty @ 44 # key_fmt K (iv_start iv) @ 44 # key_fmt K (iv_end iv) @ 44 # key_fmt K (ucast (iv_pid iv))"
    by (simp add: encode_entry_def ty_def)
  have "\<not> (ucast (iv_pid iv) :: u64) > 0x7FFFFFFF"
    using small_pid(1) [OF wf(3)] by (simp add: not_less)
  then show ?thesis
    using wf adj ty' small_pid(2) [OF wf(3)]
    by (auto simp: decode_entry_def e SplitOnce_found SplitOnce_end Let_def joins_def not_le)
qed

lemma encode_entry_ne: "encode_entry K r \<noteq> []" "124 \<notin> set (encode_entry K r)" "last (encode_entry K r) \<noteq> 124"
proof -
  show ns: "124 \<notin> set (encode_entry K r)"
    by (auto simp: encode_entry_def)
  show ne: "encode_entry K r \<noteq> []"
    by (simp add: encode_entry_def)
  show "last (encode_entry K r) \<noteq> 124"
    using ns ne by (metis last_in_set)
qed

lemma decode_encode_ranges:
  "\<lbrakk> canonical (acc @ r # rs); length (acc @ r # rs) \<le> kMaxIntervals \<rbrakk> \<Longrightarrow>
    decode_ranges acc (encode_entry K r @ concat (map (\<lambda>r. 124 # encode_entry K r) rs)) = Inr (acc @ r # rs)"
proof (induction rs arbitrary: acc r)
  case Nil
  then show ?case
    using encode_entry_ne [of r]
    by (subst decode_ranges.simps) (simp add: SplitOnce_end decode_encode_entry)
next
  case (Cons r2 rs)
  have c: "canonical (acc @ [r])"
    using Cons.prems(1) canonical_appendD [of "acc @ [r]" "r2 # rs"] by simp
  have sp: "SplitOnce (encode_entry K r @ 124 # encode_entry K r2 @ concat (map (\<lambda>r. 124 # encode_entry K r) rs)) 124
      = (encode_entry K r, encode_entry K r2 @ concat (map (\<lambda>r. 124 # encode_entry K r) rs))"
    using encode_entry_ne by (simp add: SplitOnce_found)
  show ?case
    using Cons.IH [of "acc @ [r]" r2] Cons.prems c sp encode_entry_ne [of r] encode_entry_ne [of r2]
    by (subst decode_ranges.simps) (simp add: decode_encode_entry)
qed

lemma Decode_Encode:
  assumes "canonical rs" "rs \<noteq> []" "length rs \<le> kMaxIntervals" "length (Encode K rs) \<le> kMaxValueBytes" "h_ranges h = []"
  shows "Decode (Encode K rs) False h = Inr (h\<lparr>h_ranges := rs\<rparr>)"
proof -
  obtain r rs' where rs: "rs = r # rs'"
    using assms(2) by (cases rs) auto
  define data where "data = encode_entry K r @ concat (map (\<lambda>r. 124 # encode_entry K r) rs')"
  have enc: "Encode K rs = ascii ''P2|'' @ data"
    by (simp add: Encode_def rs data_def)
  have "last data \<noteq> 124"
    using encode_entry_ne by (cases rs' rule: rev_cases) (simp_all add: data_def)
  moreover have "data \<noteq> []"
    using encode_entry_ne by (simp add: data_def)
  moreover have "decode_ranges [] data = Inr rs"
    using decode_encode_ranges [of "[]" r rs'] assms(1,3) by (simp add: rs data_def)
  ultimately show ?thesis
    using assms(4,5) by (simp add: Decode_def enc)
qed

lemma ParseOwner_field:
  assumes "0 < g"
  shows "ParseOwner K (owner_field K g k) = Some (g, k)"
  using assms by (simp add: ParseOwner_def owner_field_def SplitOnce_found)

lemma ParseOwner_SomeD: "ParseOwner K f = Some (g, k) \<Longrightarrow> f = owner_field K g k \<and> 0 < g"
  by (auto simp: ParseOwner_def Let_def split: prod.splits option.splits if_splits)

lemma owner_field_inject: "owner_field K g k = owner_field K g' k' \<longleftrightarrow> g = g' \<and> k = k'"
proof
  assume "owner_field K g k = owner_field K g' k'"
  then have "SplitOnce (owner_field K g k) 58 = SplitOnce (owner_field K g' k') 58"
    by simp
  then show "g = g' \<and> k = k'"
    by (simp add: owner_field_def SplitOnce_found)
qed simp

lemma owner_field_not_fence: "owner_field K g k \<noteq> kFenceField"
proof
  assume "owner_field K g k = kFenceField"
  moreover have "58 \<in> set (owner_field K g k)"
    by (simp add: owner_field_def)
  ultimately show False
    by (simp add: kFenceField_def)
qed

end

lemma ValidateRange_Inr:
  assumes "ValidateRange request = Inr q"
  shows "iv_start q = pr_start request" "iv_type q = pr_type request" "iv_pid q = pr_pid request" "0 \<le> sint (iv_pid q)"
    "iv_end q = (if pr_length request = 0 then UINT64_MAX else pr_start request + pr_length request)"
    "pr_length request = 0 \<or> pr_length request \<le> UINT64_MAX - pr_start request" "iv_start q < iv_end q"
proof -
  have q: "iv_start q = pr_start request \<and> iv_type q = pr_type request \<and> iv_pid q = pr_pid request \<and> 0 \<le> sint (iv_pid q)
      \<and> iv_end q = (if pr_length request = 0 then UINT64_MAX else pr_start request + pr_length request)
      \<and> (pr_length request = 0 \<or> pr_length request \<le> UINT64_MAX - pr_start request) \<and> iv_start q \<noteq> iv_end q"
    using assms by (auto simp: ValidateRange_def Let_def result_simps not_less split: if_splits)
  then show "iv_start q = pr_start request" "iv_type q = pr_type request" "iv_pid q = pr_pid request" "0 \<le> sint (iv_pid q)"
    "iv_end q = (if pr_length request = 0 then UINT64_MAX else pr_start request + pr_length request)"
    "pr_length request = 0 \<or> pr_length request \<le> UINT64_MAX - pr_start request"
    by blast+
  show "iv_start q < iv_end q"
  proof (cases "pr_length request = 0")
    case True
    then have "iv_start q \<noteq> UINT64_MAX" "iv_end q = UINT64_MAX"
      using q by auto
    then show ?thesis
      by (simp add: word_order.not_eq_extremum)
  next
    case False
    then show ?thesis
      using q less_plus_word [of "pr_length request" UINT64_MAX "pr_start request"] by simp
  qed
qed

section \<open>Properties\<close>

text \<open>C16: Updating an owner's record locks is exact and canonical: for every set of ranges the code keeps and every
  valid request, \<open>UpdateRanges\<close> returns ranges that again are ordered, disjoint, non-empty and fully merged, and at
  each offset the owner now holds the requested mode inside the requested range (nothing for an unlock), and what it
  held before outside; it fails, with \<open>ENOLCK\<close>, exactly when the result exceeds the interval or the byte budget.\<close>

theorem lock_update_exact:
  assumes "canonical ranges" and "ValidateRange request = Inr q"
  shows "case UpdateRanges K ranges q of
      Inl e \<Rightarrow> e = kNoLocks \<and> (kMaxIntervals < length (next_ranges ranges q) \<or> kMaxValueBytes < length (Encode K (next_ranges ranges q)))
    | Inr rs \<Rightarrow> canonical rs \<and> length rs \<le> kMaxIntervals \<and> length (Encode K rs) \<le> kMaxValueBytes
        \<and> (\<forall>x. view rs x = (if pr_start request \<le> x \<and> (if pr_length request = 0 then x < UINT64_MAX
                               else unat x < unat (pr_start request) + unat (pr_length request))
                             then (if pr_type request = pUnlock then None else Some (pr_type request, pr_pid request))
                             else view ranges x))"
proof -
  note q = ValidateRange_Inr [OF assms(2)]
  have len: "unat (pr_start request + pr_length request) = unat (pr_start request) + unat (pr_length request)"
    if "pr_length request \<noteq> 0"
    using q(6) that unat_plus_le [of "pr_length request" UINT64_MAX "pr_start request"] by simp
  have holds: "holds q x \<longleftrightarrow> pr_start request \<le> x \<and> (if pr_length request = 0 then x < UINT64_MAX
      else unat x < unat (pr_start request) + unat (pr_length request))" for x
    using len by (auto simp: holds_def q(1,5) word_less_nat_alt)
  have "separated ranges"
    using assms(1) by (simp add: canonical_def)
  note nr = next_ranges_correct [OF q(7,4) this]
  show ?thesis
    using nr q(2,3) by (auto simp: UpdateRanges_def Let_def holds tag_def not_less)
qed

text \<open>An owner that holds a read lock on the first ten bytes converts bytes four to seven to a write lock.\<close>

definition ex_ranges :: "Interval list" where
  "ex_ranges = [\<lparr>iv_start = 0, iv_end = 10, iv_type = pRead, iv_pid = 7\<rparr>]"

definition ex_lock_request :: PosixRange where
  "ex_lock_request = \<lparr>pr_start = 4, pr_length = 4, pr_type = pWrite, pr_pid = 7\<rparr>"

lemma ex_ranges_canonical: "canonical ex_ranges"
  by (simp add: canonical_def ex_ranges_def wf_iv_def)

lemma ex_request_valid:
  "ValidateRange ex_lock_request = Inr \<lparr>iv_start = 4, iv_end = 8, iv_type = pWrite, iv_pid = 7\<rparr>"
  by (simp add: ValidateRange_def ex_lock_request_def)

theorem lock_update_exact_witness:
  "UpdateRanges (dec_key 0 (ascii ''v'')) ex_ranges \<lparr>iv_start = 4, iv_end = 8, iv_type = pWrite, iv_pid = 7\<rparr> =
     Inr [\<lparr>iv_start = 0, iv_end = 4, iv_type = pRead, iv_pid = 7\<rparr>, \<lparr>iv_start = 4, iv_end = 8, iv_type = pWrite, iv_pid = 7\<rparr>,
          \<lparr>iv_start = 8, iv_end = 10, iv_type = pRead, iv_pid = 7\<rparr>]
   \<and> canonical [\<lparr>iv_start = 0, iv_end = 4, iv_type = pRead, iv_pid = 7\<rparr>, \<lparr>iv_start = 4, iv_end = 8, iv_type = pWrite, iv_pid = 7\<rparr>,
          \<lparr>iv_start = 8, iv_end = 10, iv_type = pRead, iv_pid = 7\<rparr>]"
proof -
  have u: "UpdateRanges (dec_key 0 (ascii ''v'')) ex_ranges \<lparr>iv_start = 4, iv_end = 8, iv_type = pWrite, iv_pid = 7\<rparr> =
     Inr [\<lparr>iv_start = 0, iv_end = 4, iv_type = pRead, iv_pid = 7\<rparr>, \<lparr>iv_start = 4, iv_end = 8, iv_type = pWrite, iv_pid = 7\<rparr>,
          \<lparr>iv_start = 8, iv_end = 10, iv_type = pRead, iv_pid = 7\<rparr>]"
    by (simp add: UpdateRanges_def next_ranges_def ex_ranges_def carve_def Overlaps_def joins_def Encode_def encode_entry_def
        dec_key_def new_RedisKey_def int_to_string_def to_string.simps kMaxIntervals_def kMaxValueBytes_def)
  show ?thesis
    using lock_update_exact [OF ex_ranges_canonical ex_request_valid, of "dec_key 0 (ascii ''v'')"] u by simp
qed

text \<open>C17: The stored form of record locks loses nothing: for canonical ranges within the budgets, decoding the encoded
  text gives the same ranges; and whatever text is accepted decodes to canonical ranges within the budget, so a stored
  value can never bring overlapping or unmerged locks back.\<close>

theorem lock_record_codec:
  assumes "key_schema K" and "canonical rs" and "rs \<noteq> []" and "length rs \<le> kMaxIntervals"
    and "length (Encode K rs) \<le> kMaxValueBytes" and "Decode data False h = Inr h'" and "h_ranges h = []"
  shows "Decode (Encode K rs) False h = Inr (h\<lparr>h_ranges := rs\<rparr>) \<and> canonical (h_ranges h') \<and> length (h_ranges h') \<le> kMaxIntervals"
  using key_schema.Decode_Encode [OF assms(1-5,7)] Decode_canonical [OF assms(6,7)] by simp

definition ex_holder :: Holder where
  "ex_holder = \<lparr>h_generation = 3, h_kernel_owner = 9, h_ranges = [], h_flock = fUnlock\<rparr>"

theorem lock_record_codec_witness:
  "Decode (ascii ''P2|R,0,10,7'') False ex_holder = Inr (ex_holder\<lparr>h_ranges := ex_ranges\<rparr>)"
proof -
  have enc: "Encode (dec_key 0 (ascii ''v'')) ex_ranges = ascii ''P2|R,0,10,7''"
    by (simp add: Encode_def encode_entry_def ex_ranges_def dec_key_def new_RedisKey_def int_to_string_def to_string.simps)
  have bnd: "ex_ranges \<noteq> []" "length ex_ranges \<le> kMaxIntervals" "h_ranges ex_holder = []"
      "length (Encode (dec_key 0 (ascii ''v'')) ex_ranges) \<le> kMaxValueBytes"
    by (simp_all only: enc) (simp_all add: ex_ranges_def ex_holder_def kMaxIntervals_def kMaxValueBytes_def)
  note dec = key_schema.Decode_Encode [OF dec_key.key_schema_axioms ex_ranges_canonical bnd(1,2,4,3)]
  show ?thesis
    using lock_record_codec [OF dec_key.key_schema_axioms ex_ranges_canonical bnd(1,2,4) dec bnd(3)] by (simp only: enc)
qed

end
