(* ===== verification/RedisKvTxn.thy ===== *)
theory RedisKvTxn
  imports Decimal "HOL-Library.Finite_Map"
begin

text \<open>
  One optimistic Redis transaction (\<open>metadata/redis/RedisKvTxn.cpp\<close>).

  The Redis server and the redis++ client are code outside the repository. They are the parameter
  \<open>redis\<close>: what the server holds when the \<open>n\<close>-th command of this connection arrives (other
  clients change it between two commands), whether the command's reply reaches the client, the replies
  of the read commands, the effect of a queue of commands and the fate of \<open>EXEC\<close>. The locale
  \<open>redis_server\<close> states the documented behaviour the code relies on; its reference instance is
  \<open>mem_redis\<close>. The key space is what Redis documents it to be: a partial map from keys to strings,
  lists and hashes, each with an optional expiry.

  A transaction program has type \<open>('v, 'a) tx\<close>: it reads and extends the transaction state and returns a
  status with its outputs, or throws the redis++ error that \<open>RedisMetaClient\<close> retries. \<open>'v\<close> holds the
  variables a callback captures by reference. The theory proves the contract of the layer: a program that
  only uses watched reads behaves, when its \<open>EXEC\<close> succeeds, as if it had run at once on the key space
  \<open>EXEC\<close> found.
\<close>

section \<open>Redis as a parameter\<close>

datatype rval = RString bytes | RList "bytes list" | RHash "(bytes, bytes) fmap"

type_synonym keyspace = "bytes \<Rightarrow> (rval \<times> nat option) option"

text \<open>A reply, a reply error of the server, or any other error of redis++ (transport, protocol).\<close>

datatype 'a reply = Reply 'a | ReplyError | Error

datatype cmd =
    CSet bytes bytes | CRPush bytes bytes | CHSet bytes bytes bytes | CHDel bytes bytes
  | CIncrBy bytes int | CDel bytes

text \<open>Commands the client sends outside transactions, with an integer reply.\<close>

datatype scmd =
    SIncr bytes | SRPushX bytes bytes | SSetNxPx bytes bytes nat | SPExpireXx bytes nat | SDel bytes

text \<open>What \<open>EXEC\<close> leads to: the replies of the queue, a nil reply (a watched key changed), an error reply,
  or no usable reply, after the server did or did not run the queue.\<close>

datatype exec_reply = ExecReplies | ExecNil | ExecReplyError | ExecLost bool

record redis =
  r_db :: "nat \<Rightarrow> keyspace"
  r_link :: "nat \<Rightarrow> unit reply"
  r_get :: "keyspace \<Rightarrow> bytes \<Rightarrow> bytes option reply"
  r_lrange :: "keyspace \<Rightarrow> bytes \<Rightarrow> int \<Rightarrow> int \<Rightarrow> bytes list reply"
  r_hget :: "keyspace \<Rightarrow> bytes \<Rightarrow> bytes \<Rightarrow> bytes option reply"
  r_hlen :: "keyspace \<Rightarrow> bytes \<Rightarrow> u64 reply"
  r_hgetall :: "nat \<Rightarrow> keyspace \<Rightarrow> bytes \<Rightarrow> (bytes \<times> bytes) list reply"
  r_hscan :: "nat \<Rightarrow> keyspace \<Rightarrow> bytes \<Rightarrow> u64 \<Rightarrow> nat \<Rightarrow> ((bytes \<times> bytes) list \<times> u64) reply"
  r_pttl :: "nat \<Rightarrow> keyspace \<Rightarrow> bytes list \<Rightarrow> int list reply"
  r_apply :: "cmd list \<Rightarrow> keyspace \<Rightarrow> keyspace \<times> unit reply list"
  r_exec :: "nat \<Rightarrow> (bytes \<times> nat) list \<Rightarrow> exec_reply"
  r_mget :: "keyspace \<Rightarrow> bytes list \<Rightarrow> bytes option list reply"
  r_command :: "nat \<Rightarrow> scmd \<Rightarrow> keyspace \<Rightarrow> keyspace \<times> int reply"
  r_now :: "nat \<Rightarrow> nat"
  r_lost :: "nat \<Rightarrow> bool"

section \<open>The transaction object\<close>

record 'v kv_txn =
  clock :: nat
  watched :: "(bytes \<times> nat) list"
  queue :: "cmd list"
  has_writes :: bool
  retryable :: bool
  vars :: 'v

datatype 'a out = Ret "'a res" | Throw

type_synonym ('v, 'a) tx = "redis \<Rightarrow> 'v kv_txn \<Rightarrow> 'a out \<times> 'v kv_txn"

definition new_txn :: "nat \<Rightarrow> 'v \<Rightarrow> 'v kv_txn" where
  "new_txn n v = \<lparr>clock = n, watched = [], queue = [], has_writes = False, retryable = False, vars = v\<rparr>"

definition tick :: "'v kv_txn \<Rightarrow> 'v kv_txn" where
  "tick t = t\<lparr>clock := Suc (clock t)\<rparr>"

text \<open>\<open>watch\<close> and a read command on the transaction's connection.\<close>

definition watch :: "redis \<Rightarrow> bytes list \<Rightarrow> 'v kv_txn \<Rightarrow> unit reply \<times> 'v kv_txn" where
  "watch R ks t = (case r_link R (clock t) of
      Reply _ \<Rightarrow> (Reply (), tick (t\<lparr>watched := map (\<lambda>k. (k, clock t)) ks @ watched t\<rparr>))
    | ReplyError \<Rightarrow> (ReplyError, tick t)
    | Error \<Rightarrow> (Error, tick t))"

definition ask :: "redis \<Rightarrow> (nat \<Rightarrow> keyspace \<Rightarrow> 'a reply) \<Rightarrow> 'v kv_txn \<Rightarrow> 'a reply \<times> 'v kv_txn" where
  "ask R q t = (case r_link R (clock t) of
      Reply _ \<Rightarrow> (q (clock t) (r_db R (clock t)), tick t)
    | ReplyError \<Rightarrow> (ReplyError, tick t)
    | Error \<Rightarrow> (Error, tick t))"

definition RunRedisCommand :: "(redis \<Rightarrow> 'v kv_txn \<Rightarrow> 'a res reply \<times> 'v kv_txn) \<Rightarrow> ('v, 'a) tx" where
  "RunRedisCommand fn R t = (case fn R t of
      (Reply s, t') \<Rightarrow> (Ret s, t')
    | (ReplyError, t') \<Rightarrow> (Ret (Inl kIOError), t')
    | (Error, t') \<Rightarrow> (Throw, t'\<lparr>retryable := True\<rparr>))"

text \<open>The shape of every read: refused after a write, then \<open>WATCH\<close>, then the command.\<close>

definition watched_read ::
    "bytes list \<Rightarrow> (redis \<Rightarrow> nat \<Rightarrow> keyspace \<Rightarrow> 'a res reply) \<Rightarrow> ('v, 'a) tx" where
  "watched_read ks q R t =
    (if has_writes t then (Ret (Inl kInvalidArgument), t)
     else RunRedisCommand (\<lambda>R t. case watch R ks t of
        (Reply _, t1) \<Rightarrow> ask R (q R) t1
      | (ReplyError, t1) \<Rightarrow> (ReplyError, t1)
      | (Error, t1) \<Rightarrow> (Error, t1)) R t)"

definition found :: "'a option \<Rightarrow> 'a res" where
  "found v = (case v of None \<Rightarrow> Inl kNotFound | Some x \<Rightarrow> Inr x)"

definition Get :: "bytes \<Rightarrow> ('v, bytes) tx" where
  "Get k = watched_read [k] (\<lambda>R n d. map_reply found (r_get R d k))"

definition ListPrefix :: "bytes \<Rightarrow> ('v, bytes list) tx" where
  "ListPrefix k = watched_read [k] (\<lambda>R n d. map_reply Inr (r_lrange R d k 0 0))"

datatype ReadMode = kWatched | kUnwatched

definition HGetMode :: "ReadMode \<Rightarrow> bytes \<Rightarrow> bytes \<Rightarrow> ('v, bytes) tx" where
  "HGetMode mode k f R t =
    (if has_writes t then (Ret (Inl kInvalidArgument), t)
     else if mode = kWatched
     then watched_read [k] (\<lambda>R n d. map_reply found (r_hget R d k f)) R t
     else RunRedisCommand (\<lambda>R t. ask R (\<lambda>n d. map_reply found (r_hget R d k f)) t) R t)"

abbreviation HGet :: "bytes \<Rightarrow> bytes \<Rightarrow> ('v, bytes) tx" where
  "HGet \<equiv> HGetMode kWatched"

definition HLen :: "bytes \<Rightarrow> ('v, u64) tx" where
  "HLen k = watched_read [k] (\<lambda>R n d. map_reply Inr (r_hlen R d k))"

definition HGetAll :: "bytes \<Rightarrow> ('v, (bytes \<times> bytes) list) tx" where
  "HGetAll k = watched_read [k] (\<lambda>R n d. map_reply Inr (r_hgetall R n d k))"

definition PttlBatch :: "bytes list \<Rightarrow> ('v, int list) tx" where
  "PttlBatch ks R t =
    (if \<not> has_writes t \<and> ks = [] then (Ret (Inr []), t)
     else watched_read ks (\<lambda>R n d. map_reply
       (\<lambda>replies. if length replies \<noteq> length ks then Inl kMalformed else Inr replies) (r_pttl R n d ks)) R t)"

definition HScan :: "bytes \<Rightarrow> u64 \<Rightarrow> nat \<Rightarrow> ('v, (bytes \<times> bytes) list \<times> u64) tx" where
  "HScan k cursor count = watched_read [k] (\<lambda>R n d. map_reply Inr (r_hscan R n d k cursor count))"

text \<open>Writes are queued on the connection; \<open>EXEC\<close> runs them.\<close>

definition queue_write :: "cmd \<Rightarrow> ('v, unit) tx" where
  "queue_write c = RunRedisCommand (\<lambda>R t. case r_link R (clock t) of
      Reply _ \<Rightarrow> (Reply (Inr ()), tick (t\<lparr>queue := queue t @ [c], has_writes := True\<rparr>))
    | ReplyError \<Rightarrow> (ReplyError, tick t)
    | Error \<Rightarrow> (Error, tick t))"

definition Set :: "bytes \<Rightarrow> bytes \<Rightarrow> ('v, unit) tx" where
  "Set k v = queue_write (CSet k v)"

definition RPush :: "bytes \<Rightarrow> bytes \<Rightarrow> ('v, unit) tx" where
  "RPush k v = queue_write (CRPush k v)"

definition HSet :: "bytes \<Rightarrow> bytes \<Rightarrow> bytes \<Rightarrow> ('v, unit) tx" where
  "HSet k f v = queue_write (CHSet k f v)"

definition HDel :: "bytes \<Rightarrow> bytes \<Rightarrow> ('v, unit) tx" where
  "HDel k f = queue_write (CHDel k f)"

definition IncrBy :: "bytes \<Rightarrow> int \<Rightarrow> ('v, unit) tx" where
  "IncrBy k delta = queue_write (CIncrBy k delta)"

definition Del :: "bytes \<Rightarrow> ('v, unit) tx" where
  "Del k = queue_write (CDel k)"

section \<open>Ending a transaction\<close>

text \<open>The outcome of \<open>Commit\<close>: a status, the private \<open>WatchConflict\<close> or another redis++ error. With it the
  key spaces before and after the queue ran, when it did.\<close>

datatype commit_out = CStatus "unit res" | CWatchConflict | CError

type_synonym effect = "keyspace \<times> keyspace"

definition ValidateWriteExecReplies :: "unit reply list \<Rightarrow> unit res" where
  "ValidateWriteExecReplies rs = (if \<forall>r\<in>set rs. r = Reply () then Inr () else Inl kIOError)"

definition ReleaseConnection :: "redis \<Rightarrow> 'v kv_txn \<Rightarrow> commit_out \<times> 'v kv_txn" where
  "ReleaseConnection R t = (case r_link R (clock t) of
      ReplyError \<Rightarrow> (CStatus (Inl kIOError), tick t)
    | Error \<Rightarrow> (CError, tick (t\<lparr>retryable := True\<rparr>))
    | Reply _ \<Rightarrow> let t1 = tick t in
        (case r_exec R (clock t1) (watched t1) of
           ExecReplies \<Rightarrow> (CStatus (Inr ()), tick t1)
         | ExecNil \<Rightarrow> (CWatchConflict, tick t1)
         | ExecReplyError \<Rightarrow> (CStatus (Inl kIOError), tick t1)
         | ExecLost _ \<Rightarrow> (CStatus (Inl kUnavailable), tick t1)))"

definition Commit :: "redis \<Rightarrow> 'v kv_txn \<Rightarrow> commit_out \<times> effect list \<times> 'v kv_txn" where
  "Commit R t =
    (if \<not> has_writes t then (case ReleaseConnection R t of (o1, t1) \<Rightarrow> (o1, [], t1))
     else let d = r_db R (clock t); (d', replies) = r_apply R (queue t) d; t1 = tick t in
       (case r_exec R (clock t) (watched t) of
          ExecReplies \<Rightarrow> (CStatus (ValidateWriteExecReplies replies), [(d, d')], t1)
        | ExecNil \<Rightarrow> (case ReleaseConnection R (t1\<lparr>watched := [], queue := []\<rparr>) of
             (CError, t2) \<Rightarrow> (CError, [], t2) | (_, t2) \<Rightarrow> (CWatchConflict, [], t2))
        | ExecReplyError \<Rightarrow> (CStatus (Inl kIOError), [], t1)
        | ExecLost executed \<Rightarrow> (CStatus (Inl kOutcomeUnknown), (if executed then [(d, d')] else []), t1)))"

text \<open>\<open>Discard\<close> swallows every error; it queues a \<open>PING\<close> first when nothing was queued.\<close>

definition Discard :: "redis \<Rightarrow> 'v kv_txn \<Rightarrow> 'v kv_txn" where
  "Discard R t = (if has_writes t then tick t
     else case r_link R (clock t) of Reply _ \<Rightarrow> tick (tick t) | _ \<Rightarrow> tick t)"

section \<open>Programs\<close>

text \<open>\<open>tcase\<close> runs a call and inspects its status; \<open>tbind\<close> is the early return on an error status.\<close>

definition treturn :: "'a res \<Rightarrow> ('v, 'a) tx" where
  "treturn r R t = (Ret r, t)"

definition tcase :: "('v, 'a) tx \<Rightarrow> ('a res \<Rightarrow> ('v, 'b) tx) \<Rightarrow> ('v, 'b) tx" where
  "tcase m f R t = (case m R t of (Ret r, t') \<Rightarrow> f r R t' | (Throw, t') \<Rightarrow> (Throw, t'))"

definition tbind :: "('v, 'a) tx \<Rightarrow> ('a \<Rightarrow> ('v, 'b) tx) \<Rightarrow> ('v, 'b) tx" where
  "tbind m f = tcase m (\<lambda>r. case r of Inl e \<Rightarrow> treturn (Inl e) | Inr x \<Rightarrow> f x)"

definition tput :: "('v \<Rightarrow> 'v) \<Rightarrow> ('v, unit) tx" where
  "tput f R t = (Ret (Inr ()), t\<lparr>vars := f (vars t)\<rparr>)"

text \<open>A pure check inside a program.\<close>

definition tcheck :: "'a res \<Rightarrow> ('a \<Rightarrow> ('v, 'b) tx) \<Rightarrow> ('v, 'b) tx" where
  "tcheck r f = (case r of Inl e \<Rightarrow> treturn (Inl e) | Inr x \<Rightarrow> f x)"

fun tseq :: "('v, unit) tx list \<Rightarrow> ('v, unit) tx" where
  "tseq [] = treturn (Inr ())"
| "tseq (m # ms) = tbind m (\<lambda>_. tseq ms)"

section \<open>Documented behaviour of Redis\<close>

text \<open>Decimal text of a signed counter, as \<open>INCR\<close> stores it.\<close>

definition int_string :: "int \<Rightarrow> bytes" where
  "int_string i = (if i < 0 then ascii ''-'' @ to_string (nat (- i)) else to_string (nat i))"

definition parse_int :: "bytes \<Rightarrow> int option" where
  "parse_int s =
    (let i = (case s of [] \<Rightarrow> 0 | c # cs \<Rightarrow> if c = of_char CHR ''-'' then - int (dec_value cs) else int (dec_value s))
     in if int_string i = s \<and> - (2 ^ 63) \<le> i \<and> i < 2 ^ 63 then Some i else None)"

text \<open>The effect and the reply of one command. A command on a key of another type fails and changes nothing; a
  hash without fields does not exist.\<close>

fun exec_cmd :: "cmd \<Rightarrow> keyspace \<Rightarrow> keyspace \<times> unit reply" where
  "exec_cmd (CSet k v) d = (d(k \<mapsto> (RString v, None)), Reply ())"
| "exec_cmd (CRPush k v) d = (case d k of
      None \<Rightarrow> (d(k \<mapsto> (RList [v], None)), Reply ())
    | Some (RList vs, x) \<Rightarrow> (d(k \<mapsto> (RList (vs @ [v]), x)), Reply ())
    | Some _ \<Rightarrow> (d, ReplyError))"
| "exec_cmd (CHSet k f v) d = (case d k of
      None \<Rightarrow> (d(k \<mapsto> (RHash (fmupd f v fmempty), None)), Reply ())
    | Some (RHash h, x) \<Rightarrow> (d(k \<mapsto> (RHash (fmupd f v h), x)), Reply ())
    | Some _ \<Rightarrow> (d, ReplyError))"
| "exec_cmd (CHDel k f) d = (case d k of
      None \<Rightarrow> (d, Reply ())
    | Some (RHash h, x) \<Rightarrow>
        (if fmdrop f h = fmempty then d(k := None) else d(k \<mapsto> (RHash (fmdrop f h), x)), Reply ())
    | Some _ \<Rightarrow> (d, ReplyError))"
| "exec_cmd (CIncrBy k delta) d = (case d k of
      None \<Rightarrow> (d(k \<mapsto> (RString (int_string delta), None)), Reply ())
    | Some (RString s, x) \<Rightarrow> (case parse_int s of
          Some i \<Rightarrow> if - (2 ^ 63) \<le> i + delta \<and> i + delta < 2 ^ 63
            then (d(k \<mapsto> (RString (int_string (i + delta)), x)), Reply ()) else (d, ReplyError)
        | None \<Rightarrow> (d, ReplyError))
    | Some _ \<Rightarrow> (d, ReplyError))"
| "exec_cmd (CDel k) d = (d(k := None), Reply ())"

fun exec_cmds :: "cmd list \<Rightarrow> keyspace \<Rightarrow> keyspace \<times> unit reply list" where
  "exec_cmds [] d = (d, [])"
| "exec_cmds (c # cs) d =
    (case exec_cmd c d of (d1, r) \<Rightarrow> (case exec_cmds cs d1 of (d2, rs) \<Rightarrow> (d2, r # rs)))"

text \<open>The single commands; \<open>now\<close> is the server's clock in milliseconds.\<close>

fun exec_single :: "nat \<Rightarrow> scmd \<Rightarrow> keyspace \<Rightarrow> keyspace \<times> int reply" where
  "exec_single now (SIncr k) d = (case d k of
      None \<Rightarrow> (d(k \<mapsto> (RString (int_string 1), None)), Reply 1)
    | Some (RString s, x) \<Rightarrow> (case parse_int s of
          Some i \<Rightarrow> if i + 1 < 2 ^ 63 then (d(k \<mapsto> (RString (int_string (i + 1)), x)), Reply (i + 1)) else (d, ReplyError)
        | None \<Rightarrow> (d, ReplyError))
    | Some _ \<Rightarrow> (d, ReplyError))"
| "exec_single now (SRPushX k v) d = (case d k of
      None \<Rightarrow> (d, Reply 0)
    | Some (RList vs, x) \<Rightarrow> (d(k \<mapsto> (RList (vs @ [v]), x)), Reply (int (length vs) + 1))
    | Some _ \<Rightarrow> (d, ReplyError))"
| "exec_single now (SSetNxPx k v ttl) d =
    (if d k = None then (d(k \<mapsto> (RString v, Some (now + ttl))), Reply 1) else (d, Reply 0))"
| "exec_single now (SPExpireXx k ttl) d = (case d k of
      Some (v, Some _) \<Rightarrow> (d(k \<mapsto> (v, Some (now + ttl))), Reply 1)
    | _ \<Rightarrow> (d, Reply 0))"
| "exec_single now (SDel k) d = (d(k := None), Reply (if d k = None then 0 else 1))"

text \<open>What the reads of a key return.\<close>

definition get_reply :: "(rval \<times> nat option) option \<Rightarrow> bytes option reply" where
  "get_reply x = (case x of None \<Rightarrow> Reply None | Some (RString s, _) \<Rightarrow> Reply (Some s) | Some _ \<Rightarrow> ReplyError)"

definition hash_reply :: "(rval \<times> nat option) option \<Rightarrow> (bytes, bytes) fmap reply" where
  "hash_reply x = (case x of None \<Rightarrow> Reply fmempty | Some (RHash h, _) \<Rightarrow> Reply h | Some _ \<Rightarrow> ReplyError)"

definition list_reply :: "(rval \<times> nat option) option \<Rightarrow> bytes list reply" where
  "list_reply x = (case x of None \<Rightarrow> Reply [] | Some (RList vs, _) \<Rightarrow> Reply vs | Some _ \<Rightarrow> ReplyError)"

text \<open>The time to live of a key: \<open>-2\<close> when it does not exist, \<open>-1\<close> when it does not expire.\<close>

definition ttl_ok :: "(rval \<times> nat option) option \<Rightarrow> int \<Rightarrow> bool" where
  "ttl_ok x n = (case x of None \<Rightarrow> n = - 2 | Some (_, None) \<Rightarrow> n = - 1 | Some (_, Some _) \<Rightarrow> 0 \<le> n)"

definition executed :: "exec_reply \<Rightarrow> bool" where
  "executed r \<longleftrightarrow> r = ExecReplies \<or> r = ExecLost True"

text \<open>\<open>HGETALL\<close> returns every field once, in some order; \<open>HSCAN\<close> returns fields of the hash; both depend on no
  other key. \<open>EXEC\<close> runs the queue only when no watched key changed since it was watched.\<close>

locale redis_server =
  fixes R :: redis
  assumes get_law: "r_get R d k = get_reply (d k)"
    and lrange_all: "r_lrange R d k 0 (- 1) = list_reply (d k)"
    and lrange_first: "r_lrange R d k 0 0 = map_reply (take 1) (list_reply (d k))"
    and hget_law: "r_hget R d k f = map_reply (\<lambda>h. fmlookup h f) (hash_reply (d k))"
    and hlen_law: "r_hlen R d k = map_reply (\<lambda>h. of_nat (fcard (fmdom h))) (hash_reply (d k))"
    and hgetall_law: "case hash_reply (d k) of
        Reply h \<Rightarrow> (\<exists>es. r_hgetall R n d k = Reply es \<and> distinct (map fst es) \<and> map_of es = fmlookup h)
      | _ \<Rightarrow> r_hgetall R n d k = ReplyError"
    and hgetall_local: "d k = d' k \<Longrightarrow> r_hgetall R n d k = r_hgetall R n d' k"
    and hscan_law: "case hash_reply (d k) of
        Reply h \<Rightarrow> (\<exists>es c'. r_hscan R n d k c m = Reply (es, c') \<and> (\<forall>p\<in>set es. fmlookup h (fst p) = Some (snd p)))
      | _ \<Rightarrow> r_hscan R n d k c m = ReplyError"
    and hscan_local: "d k = d' k \<Longrightarrow> r_hscan R n d k c m = r_hscan R n d' k c m"
    and pttl_law: "\<exists>ts. r_pttl R n d ks = Reply ts \<and> list_all2 (\<lambda>k. ttl_ok (d k)) ks ts"
    and pttl_local: "(\<And>k. k \<in> set ks \<Longrightarrow> d k = d' k) \<Longrightarrow> r_pttl R n d ks = r_pttl R n d' ks"
    and apply_law: "r_apply R cs d = exec_cmds cs d"
    and watch_law: "\<lbrakk> executed (r_exec R n ws); (k, m) \<in> set ws; m \<le> i; i \<le> n \<rbrakk> \<Longrightarrow> r_db R i k = r_db R n k"
    and mget_law: "r_mget R d ks = Reply (map (\<lambda>k. case d k of Some (RString s, _) \<Rightarrow> Some s | _ \<Rightarrow> None) ks)"
    and command_law: "r_command R n sc d = exec_single (r_now R n) sc d"

section \<open>Running on one key space\<close>

text \<open>\<open>snap R d\<close> is the same server with nothing else going on: every command finds \<open>d\<close> and is answered.\<close>

definition snap :: "redis \<Rightarrow> keyspace \<Rightarrow> redis" where
  "snap R d = R\<lparr>r_db := \<lambda>_. d, r_link := \<lambda>_. Reply ()\<rparr>"

definition after_read :: "bytes list \<Rightarrow> 'v kv_txn \<Rightarrow> 'v kv_txn" where
  "after_read ks t = t\<lparr>watched := map (\<lambda>k. (k, clock t)) ks @ watched t, clock := clock t + 2\<rparr>"

definition after_write :: "cmd \<Rightarrow> 'v kv_txn \<Rightarrow> 'v kv_txn" where
  "after_write c t = t\<lparr>queue := queue t @ [c], has_writes := True, clock := clock t + 1\<rparr>"

definition reply_res :: "'a res reply \<Rightarrow> 'a res" where
  "reply_res r = (case r of Reply s \<Rightarrow> s | _ \<Rightarrow> Inl kIOError)"

named_theorems snap_simps

lemma snap_sel [simp]:
  "r_db (snap R d) n = d" "r_link (snap R d) n = Reply ()" "r_get (snap R d) = r_get R"
  "r_lrange (snap R d) = r_lrange R" "r_hget (snap R d) = r_hget R" "r_hlen (snap R d) = r_hlen R"
  "r_hgetall (snap R d) = r_hgetall R" "r_hscan (snap R d) = r_hscan R" "r_pttl (snap R d) = r_pttl R"
  "r_apply (snap R d) = r_apply R" "r_exec (snap R d) = r_exec R"
  "r_mget (snap R d) = r_mget R" "r_command (snap R d) = r_command R" "r_now (snap R d) = r_now R"
  by (simp_all add: snap_def)

lemma after_sel [simp]:
  "queue (after_read ks t) = queue t" "has_writes (after_read ks t) = has_writes t"
  "vars (after_read ks t) = vars t" "clock (after_read ks t) = clock t + 2"
  "queue (after_write c t) = queue t @ [c]" "has_writes (after_write c t)" "vars (after_write c t) = vars t"
  by (simp_all add: after_read_def after_write_def)

lemma new_txn_sel [simp]:
  "clock (new_txn n v) = n" "watched (new_txn n v) = []" "queue (new_txn n v) = []" "\<not> has_writes (new_txn n v)"
  "vars (new_txn n v) = v"
  by (simp_all add: new_txn_def)

lemma map_reply_cases: "map_reply f r = Error \<longleftrightarrow> r = Error"
  by (cases r) simp_all

lemma found_simps [simp]: "found None = Inl kNotFound" "found (Some x) = Inr x"
  by (simp_all add: found_def)

lemma found_iff [simp]: "found v = Inr x \<longleftrightarrow> v = Some x" "found v = Inl e \<longleftrightarrow> v = None \<and> e = kNotFound"
  by (cases v; auto)+

lemma reply_res_simps [simp]:
  "reply_res (Reply s) = s" "reply_res ReplyError = Inl kIOError"
  by (simp_all add: reply_res_def)

lemma snap_watched_read:
  assumes "q (snap R d) (Suc (clock t)) d \<noteq> Error"
  shows "watched_read ks q (snap R d) t =
    (if has_writes t then (Ret (Inl kInvalidArgument), t)
     else (Ret (reply_res (q (snap R d) (Suc (clock t)) d)), after_read ks t))"
  using assms by (simp add: watched_read_def RunRedisCommand_def watch_def ask_def tick_def after_read_def
      reply_res_def split: reply.splits)

lemma snap_queue_write: "queue_write c (snap R d) t = (Ret (Inr ()), after_write c t)"
  by (simp add: queue_write_def RunRedisCommand_def tick_def after_write_def)

lemma snap_writes [snap_simps]:
  "Set k v (snap R d) t = (Ret (Inr ()), after_write (CSet k v) t)"
  "RPush k v (snap R d) t = (Ret (Inr ()), after_write (CRPush k v) t)"
  "HSet k f v (snap R d) t = (Ret (Inr ()), after_write (CHSet k f v) t)"
  "HDel k f (snap R d) t = (Ret (Inr ()), after_write (CHDel k f) t)"
  "IncrBy k i (snap R d) t = (Ret (Inr ()), after_write (CIncrBy k i) t)"
  "Del k (snap R d) t = (Ret (Inr ()), after_write (CDel k) t)"
  by (simp_all add: Set_def RPush_def HSet_def HDel_def IncrBy_def Del_def snap_queue_write)

lemma treturn_eq [snap_simps]: "treturn r S t = (out, t') \<longleftrightarrow> out = Ret r \<and> t' = t"
  by (auto simp: treturn_def)

lemma tput_eq [snap_simps]: "tput f S t = (out, t') \<longleftrightarrow> out = Ret (Inr ()) \<and> t' = t\<lparr>vars := f (vars t)\<rparr>"
  by (auto simp: tput_def)

lemma if_tx_Inr: "(if c then treturn (Inl e) else m) S t = (Ret (Inr x), t') \<longleftrightarrow> \<not> c \<and> m S t = (Ret (Inr x), t')"
  by (simp add: treturn_def)

lemma tcase_eq: "m S t = (Ret r, t1) \<Longrightarrow> tcase m f S t = f r S t1"
  by (simp add: tcase_def)

lemma tbind_Inr [snap_simps]:
  "tbind m f S t = (Ret (Inr y), t') \<longleftrightarrow> (\<exists>x t1. m S t = (Ret (Inr x), t1) \<and> f x S t1 = (Ret (Inr y), t'))"
  by (auto simp: tbind_def tcase_def treturn_def split: prod.splits out.splits sum.splits)

lemma tbind_Inl [snap_simps]:
  "tbind m f S t = (Ret (Inl e), t') \<longleftrightarrow> m S t = (Ret (Inl e), t')
     \<or> (\<exists>x t1. m S t = (Ret (Inr x), t1) \<and> f x S t1 = (Ret (Inl e), t'))"
  by (auto simp: tbind_def tcase_def treturn_def split: prod.splits out.splits sum.splits)

lemma tcase_Ret [snap_simps]:
  "tcase m f S t = (Ret r, t') \<longleftrightarrow> (\<exists>r1 t1. m S t = (Ret r1, t1) \<and> f r1 S t1 = (Ret r, t'))"
  by (auto simp: tcase_def split: prod.splits out.splits)

lemma tbind_run:
  "m S t = (Ret (Inr x), t1) \<Longrightarrow> tbind m f S t = f x S t1"
  "m S t = (Ret (Inl e), t1) \<Longrightarrow> tbind m f S t = (Ret (Inl e), t1)"
  by (simp_all add: tbind_def tcase_def treturn_def)

lemma tcheck_simps [simp]: "tcheck (Inl e) f = treturn (Inl e)" "tcheck (Inr x) f = f x"
  by (simp_all add: tcheck_def)

lemma tcheck_reject [simp]: "tcheck (reject c e) f = (if c then treturn (Inl e) else f ())"
  by (simp add: reject_def)

lemma tcheck_Inr [snap_simps]:
  "tcheck r f S t = (Ret (Inr y), t') \<longleftrightarrow> (\<exists>x. r = Inr x \<and> f x S t = (Ret (Inr y), t'))"
  by (cases r) (auto simp: treturn_def)

text \<open>The string and the hash a key holds; a missing key is an empty hash.\<close>

definition str_at :: "keyspace \<Rightarrow> bytes \<Rightarrow> bytes option" where
  "str_at d k = (case d k of Some (RString s, _) \<Rightarrow> Some s | _ \<Rightarrow> None)"

definition hash_at :: "keyspace \<Rightarrow> bytes \<Rightarrow> (bytes, bytes) fmap" where
  "hash_at d k = (case d k of Some (RHash h, _) \<Rightarrow> h | _ \<Rightarrow> fmempty)"

definition is_hash :: "keyspace \<Rightarrow> bytes \<Rightarrow> bool" where
  "is_hash d k = (case d k of None \<Rightarrow> True | Some (RHash _, _) \<Rightarrow> True | _ \<Rightarrow> False)"

named_theorems exec_simps

lemma exec_cmds_Cons [exec_simps]:
  "fst (exec_cmds (c # cs) d) = fst (exec_cmds cs (fst (exec_cmd c d)))" "fst (exec_cmds [] d) = d"
  by (simp_all split: prod.splits)

lemma exec_cmds_append [exec_simps]: "fst (exec_cmds (cs @ cs') d) = fst (exec_cmds cs' (fst (exec_cmds cs d)))"
  by (induction cs arbitrary: d) (simp_all split: prod.splits, metis fst_conv)

definition cmd_key :: "cmd \<Rightarrow> bytes" where
  "cmd_key c = (case c of CSet k _ \<Rightarrow> k | CRPush k _ \<Rightarrow> k | CHSet k _ _ \<Rightarrow> k | CHDel k _ \<Rightarrow> k | CIncrBy k _ \<Rightarrow> k | CDel k \<Rightarrow> k)"

lemma exec_frame: "cmd_key c \<noteq> k \<Longrightarrow> fst (exec_cmd c d) k = d k"
  by (cases c) (auto simp: cmd_key_def split: option.splits rval.splits prod.splits)

lemma exec_cmds_frame: "k \<notin> cmd_key ` set cs \<Longrightarrow> fst (exec_cmds cs d) k = d k"
  by (induction cs arbitrary: d) (auto simp: exec_cmds_Cons exec_frame simp del: exec_cmds.simps)

lemma exec_str_at [exec_simps]:
  "str_at (fst (exec_cmd (CSet k v) d)) k' = (if k' = k then Some v else str_at d k')"
  "str_at (fst (exec_cmd (CHSet k f v) d)) k' = str_at d k'"
  "str_at (fst (exec_cmd (CHDel k f) d)) k' = str_at d k'"
  "str_at (fst (exec_cmd (CRPush k v) d)) k' = str_at d k'"
  "str_at (fst (exec_cmd (CDel k) d)) k' = (if k' = k then None else str_at d k')"
  "k' \<noteq> k \<Longrightarrow> str_at (fst (exec_cmd (CIncrBy k i) d)) k' = str_at d k'"
  by (auto simp: str_at_def split: option.splits rval.splits prod.splits)

lemma exec_hash_at [exec_simps]:
  "hash_at (fst (exec_cmd (CSet k v) d)) k' = (if k' = k then fmempty else hash_at d k')"
  "is_hash d k \<Longrightarrow> hash_at (fst (exec_cmd (CHSet k f v) d)) k' = (if k' = k then fmupd f v (hash_at d k) else hash_at d k')"
  "hash_at (fst (exec_cmd (CHDel k f) d)) k' = (if k' = k then fmdrop f (hash_at d k) else hash_at d k')"
  "hash_at (fst (exec_cmd (CRPush k v) d)) k' = hash_at d k'"
  "hash_at (fst (exec_cmd (CDel k) d)) k' = (if k' = k then fmempty else hash_at d k')"
  "hash_at (fst (exec_cmd (CIncrBy k i) d)) k' = hash_at d k'"
  by (auto simp: hash_at_def is_hash_def split: option.splits rval.splits prod.splits)

lemma exec_is_hash [exec_simps]:
  "is_hash (fst (exec_cmd (CSet k v) d)) k' \<longleftrightarrow> k' \<noteq> k \<and> is_hash d k'"
  "is_hash (fst (exec_cmd (CHSet k f v) d)) k' \<longleftrightarrow> is_hash d k'"
  "is_hash (fst (exec_cmd (CHDel k f) d)) k' \<longleftrightarrow> is_hash d k'"
  "is_hash (fst (exec_cmd (CDel k) d)) k' \<longleftrightarrow> k' = k \<or> is_hash d k'"
  "k' \<noteq> k \<Longrightarrow> is_hash (fst (exec_cmd (CIncrBy k i) d)) k' \<longleftrightarrow> is_hash d k'"
  "k' \<noteq> k \<Longrightarrow> is_hash (fst (exec_cmd (CRPush k v) d)) k' \<longleftrightarrow> is_hash d k'"
  by (auto simp: is_hash_def split: option.splits rval.splits prod.splits)

declare exec_cmd.simps [simp del] exec_cmds.simps [simp del]

section \<open>Programs whose reads are watched\<close>

text \<open>\<open>agree R t d\<close>: since they were watched, the keys the transaction read have had the value they have in \<open>d\<close>.\<close>

definition agree :: "redis \<Rightarrow> 'v kv_txn \<Rightarrow> keyspace \<Rightarrow> bool" where
  "agree R t d \<longleftrightarrow> (\<forall>(k, m)\<in>set (watched t). \<forall>i. m \<le> i \<and> i \<le> clock t \<longrightarrow> r_db R i k = d k)"

definition grows :: "'v kv_txn \<Rightarrow> 'v kv_txn \<Rightarrow> bool" where
  "grows t t' \<longleftrightarrow> clock t \<le> clock t' \<and> set (watched t) \<subseteq> set (watched t')
     \<and> (\<exists>cs. queue t' = queue t @ cs \<and> (has_writes t' \<longleftrightarrow> has_writes t \<or> cs \<noteq> []))"

definition kv_prog :: "redis \<Rightarrow> ('v, 'a) tx \<Rightarrow> bool" where
  "kv_prog R m \<longleftrightarrow> (\<forall>t o1 t'. m R t = (o1, t') \<longrightarrow>
      grows t t' \<and> (o1 = Throw \<longrightarrow> retryable t')
    \<and> ((\<forall>n. r_link R n = Reply ()) \<longrightarrow> o1 \<noteq> Throw)
    \<and> (o1 \<noteq> Throw \<and> o1 \<noteq> Ret (Inl kIOError) \<longrightarrow>
        (\<forall>d. agree R t' d \<longrightarrow> m (snap R d) t = (o1, t'))))"

named_theorems kv_intros

lemma grows_refl [simp]: "grows t t"
  by (simp add: grows_def)

lemma grows_trans: "\<lbrakk> grows t u; grows u v \<rbrakk> \<Longrightarrow> grows t v"
  by (fastforce simp: grows_def)

lemma agree_grows: "\<lbrakk> grows t t'; agree R t' d \<rbrakk> \<Longrightarrow> agree R t d"
  by (fastforce simp: grows_def agree_def)

lemma kv_progD:
  assumes "kv_prog R m" "m R t = (o1, t')"
  shows "grows t t'" "o1 = Throw \<Longrightarrow> retryable t'" "(\<And>n. r_link R n = Reply ()) \<Longrightarrow> o1 \<noteq> Throw"
    "\<lbrakk> o1 \<noteq> Throw; o1 \<noteq> Ret (Inl kIOError); agree R t' d \<rbrakk> \<Longrightarrow> m (snap R d) t = (o1, t')"
  using assms by (auto simp: kv_prog_def)

lemma kv_return [kv_intros]: "kv_prog R (treturn r)"
  by (simp add: kv_prog_def treturn_def)

lemma kv_tput [kv_intros]: "kv_prog R (tput f)"
  by (simp add: kv_prog_def tput_def grows_def)

lemma kv_tcase:
  assumes m: "kv_prog R m" and f: "\<And>r. kv_prog R (f r)" and io: "f (Inl kIOError) = treturn (Inl kIOError)"
  shows "kv_prog R (tcase m f)"
  unfolding kv_prog_def
proof (intro allI impI)
  fix t o2 t'
  assume run: "tcase m f R t = (o2, t')"
  obtain o1 t1 where m1: "m R t = (o1, t1)"
    by fastforce
  show "grows t t' \<and> (o2 = Throw \<longrightarrow> retryable t') \<and> ((\<forall>n. r_link R n = Reply ()) \<longrightarrow> o2 \<noteq> Throw)
    \<and> (o2 \<noteq> Throw \<and> o2 \<noteq> Ret (Inl kIOError) \<longrightarrow> (\<forall>d. agree R t' d \<longrightarrow> tcase m f (snap R d) t = (o2, t')))"
  proof (cases o1)
    case Throw
    then show ?thesis
      using run m1 kv_progD [OF m m1] by (auto simp: tcase_def)
  next
    case (Ret r)
    have f1: "f r R t1 = (o2, t')"
      using run m1 Ret by (simp add: tcase_def)
    have "tcase m f (snap R d) t = (o2, t')"
      if "o2 \<noteq> Throw" "o2 \<noteq> Ret (Inl kIOError)" "agree R t' d" for d
    proof -
      have "r \<noteq> Inl kIOError"
        using f1 io that(2) by (auto simp: treturn_def)
      moreover have "agree R t1 d"
        using agree_grows kv_progD(1) [OF f f1] that(3) .
      ultimately have "m (snap R d) t = (Ret r, t1)"
        using kv_progD(4) [OF m m1, of d] Ret by simp
      then show ?thesis
        using kv_progD(4) [OF f f1, of d] that by (simp add: tcase_def)
    qed
    then show ?thesis
      using kv_progD [OF m m1] kv_progD [OF f f1] grows_trans by blast
  qed
qed

lemma kv_tbind [kv_intros]: "\<lbrakk> kv_prog R m; \<And>x. kv_prog R (f x) \<rbrakk> \<Longrightarrow> kv_prog R (tbind m f)"
  unfolding tbind_def by (rule kv_tcase) (auto intro: kv_return split: sum.splits)

lemma kv_tcheck [kv_intros]: "(\<And>x. r = Inr x \<Longrightarrow> kv_prog R (f x)) \<Longrightarrow> kv_prog R (tcheck r f)"
  by (cases r) (auto intro: kv_return)

lemma kv_if [kv_intros]: "\<lbrakk> c \<Longrightarrow> kv_prog R m; \<not> c \<Longrightarrow> kv_prog R m' \<rbrakk> \<Longrightarrow> kv_prog R (if c then m else m')"
  by simp

lemma kv_tseq [kv_intros]: "(\<And>m. m \<in> set ms \<Longrightarrow> kv_prog R m) \<Longrightarrow> kv_prog R (tseq ms)"
  by (induction ms) (auto intro: kv_return kv_tbind)

lemma kv_queue_write: "kv_prog R (queue_write c)"
  unfolding kv_prog_def
  by (auto simp: queue_write_def RunRedisCommand_def tick_def grows_def after_write_def snap_def split: reply.splits)
    (metis reply.distinct(3))

lemma kv_writes [kv_intros]:
  "kv_prog R (Set k v)" "kv_prog R (RPush k v)" "kv_prog R (HSet k f v)" "kv_prog R (HDel k f)"
  "kv_prog R (IncrBy k i)" "kv_prog R (Del k)"
  by (simp_all add: Set_def RPush_def HSet_def HDel_def IncrBy_def Del_def kv_queue_write)

text \<open>A read is such a program when its reply depends on the watched keys only.\<close>

lemma kv_watched_read:
  assumes ne: "\<And>n d. q R n d \<noteq> Error"
    and loc: "\<And>n d d'. (\<And>k. k \<in> set ks \<Longrightarrow> d k = d' k) \<Longrightarrow> q (snap R d') n d' = q R n d"
  shows "kv_prog R (watched_read ks q)"
  unfolding kv_prog_def
proof (intro allI impI)
  fix t o1 t'
  assume run: "watched_read ks q R t = (o1, t')"
  show "grows t t' \<and> (o1 = Throw \<longrightarrow> retryable t') \<and> ((\<forall>n. r_link R n = Reply ()) \<longrightarrow> o1 \<noteq> Throw)
    \<and> (o1 \<noteq> Throw \<and> o1 \<noteq> Ret (Inl kIOError) \<longrightarrow>
        (\<forall>d. agree R t' d \<longrightarrow> watched_read ks q (snap R d) t = (o1, t')))"
  proof (cases "has_writes t")
    case True
    then show ?thesis
      using run by (auto simp: watched_read_def)
  next
    case False
    have 1: "grows t t'" "o1 = Throw \<Longrightarrow> retryable t'" "(\<And>n. r_link R n = Reply ()) \<Longrightarrow> o1 \<noteq> Throw"
      using run False ne [of "Suc (clock t)" "r_db R (Suc (clock t))"]
      by (auto simp: watched_read_def RunRedisCommand_def watch_def ask_def tick_def grows_def split: reply.splits)
    have "watched_read ks q (snap R d) t = (o1, t')"
      if o: "o1 \<noteq> Throw" "o1 \<noteq> Ret (Inl kIOError)" and ag: "agree R t' d" for d
    proof -
      obtain s where q: "q R (Suc (clock t)) (r_db R (Suc (clock t))) = Reply s" and t': "t' = after_read ks t"
        and o1: "o1 = Ret s"
        using run False o by (auto simp: watched_read_def RunRedisCommand_def watch_def ask_def tick_def
            after_read_def split: reply.splits)
      have "r_db R (Suc (clock t)) k = d k" if "k \<in> set ks" for k
      proof -
        have "(k, clock t) \<in> set (watched t')"
          using that by (simp add: t' after_read_def)
        then show ?thesis
          using ag unfolding agree_def by (auto simp: t' dest!: bspec)
      qed
      then have "q (snap R d) (Suc (clock t)) d = Reply s"
        using loc q by metis
      then show ?thesis
        using False o1 t' by (subst snap_watched_read) simp_all
    qed
    then show ?thesis
      using 1 by blast
  qed
qed

lemma hash_reply_ne [simp]: "hash_reply x \<noteq> Error" "list_reply x \<noteq> Error" "get_reply x \<noteq> Error"
  by (auto simp: hash_reply_def list_reply_def get_reply_def split: option.splits rval.splits)

lemma HGet_watched: "HGet k f = watched_read [k] (\<lambda>R n d. map_reply found (r_hget R d k f))"
  by (simp add: HGetMode_def watched_read_def fun_eq_iff)

lemma PttlBatch_watched: "ks \<noteq> [] \<Longrightarrow> PttlBatch ks = watched_read ks (\<lambda>R n d. map_reply
    (\<lambda>replies. if length replies \<noteq> length ks then Inl kMalformed else Inr replies) (r_pttl R n d ks))"
  by (simp add: PttlBatch_def fun_eq_iff)

lemma PttlBatch_Nil: "PttlBatch [] = (\<lambda>R t. if has_writes t then (Ret (Inl kInvalidArgument), t) else (Ret (Inr []), t))"
  by (simp add: PttlBatch_def watched_read_def fun_eq_iff)

context redis_server
begin

lemma kv_Get [kv_intros]: "kv_prog R (Get k)"
  unfolding Get_def
  by (rule kv_watched_read) (auto simp: get_law map_reply_cases get_reply_def split: option.splits rval.splits)

lemma hgetall_ne: "r_hgetall R n d k \<noteq> Error"
  using hgetall_law [where d=d and k=k and n=n] by (auto split: reply.splits)

lemma hscan_ne: "r_hscan R n d k c m \<noteq> Error"
  using hscan_law [where d=d and k=k and n=n and c=c and m=m] by (auto split: reply.splits)

lemma pttl_ne: "r_pttl R n d ks \<noteq> Error"
  using pttl_law [where n=n and d=d and ks=ks] by auto

lemma kv_ListPrefix [kv_intros]: "kv_prog R (ListPrefix k)"
  unfolding ListPrefix_def by (rule kv_watched_read) (auto simp: lrange_first map_reply_cases)

lemma kv_HGet [kv_intros]: "kv_prog R (HGet k f)"
  unfolding HGet_watched by (rule kv_watched_read) (auto simp: hget_law map_reply_cases)

lemma kv_HLen [kv_intros]: "kv_prog R (HLen k)"
  unfolding HLen_def by (rule kv_watched_read) (auto simp: hlen_law map_reply_cases)

lemma kv_HGetAll [kv_intros]: "kv_prog R (HGetAll k)"
  unfolding HGetAll_def
  by (rule kv_watched_read) (auto simp: map_reply_cases hgetall_ne intro!: arg_cong [where f = "map_reply Inr"] hgetall_local)

lemma kv_HScan [kv_intros]: "kv_prog R (HScan k c m)"
  unfolding HScan_def
  by (rule kv_watched_read) (auto simp: map_reply_cases hscan_ne intro!: arg_cong [where f = "map_reply Inr"] hscan_local)

lemma kv_PttlBatch [kv_intros]: "kv_prog R (PttlBatch ks)"
proof (cases "ks = []")
  case True
  show ?thesis
    unfolding True PttlBatch_Nil kv_prog_def by auto
next
  case False
  show ?thesis
    unfolding PttlBatch_watched [OF False]
    by (rule kv_watched_read) (auto simp: map_reply_cases pttl_ne intro!: arg_cong [where f = "map_reply _"] pttl_local)
qed

text \<open>The reads on one key space.\<close>

lemma snap_Get: "Get k (snap R d) t = (if has_writes t then (Ret (Inl kInvalidArgument), t)
    else (Ret (reply_res (map_reply found (get_reply (d k)))), after_read [k] t))"
  unfolding Get_def by (subst snap_watched_read) (simp_all add: get_law map_reply_cases)

lemma snap_HGet: "HGet k f (snap R d) t = (if has_writes t then (Ret (Inl kInvalidArgument), t)
    else (Ret (reply_res (map_reply (\<lambda>h. found (fmlookup h f)) (hash_reply (d k)))), after_read [k] t))"
  unfolding HGet_watched
  by (subst snap_watched_read) (simp_all add: hget_law map_reply_cases reply.map_comp comp_def)

lemma snap_HLen: "HLen k (snap R d) t = (if has_writes t then (Ret (Inl kInvalidArgument), t)
    else (Ret (reply_res (map_reply (\<lambda>h. Inr (of_nat (fcard (fmdom h)))) (hash_reply (d k)))), after_read [k] t))"
  unfolding HLen_def
  by (subst snap_watched_read) (simp_all add: hlen_law map_reply_cases reply.map_comp comp_def)

lemma snap_HGetAll: "HGetAll k (snap R d) t = (if has_writes t then (Ret (Inl kInvalidArgument), t)
    else (Ret (reply_res (map_reply Inr (r_hgetall R (Suc (clock t)) d k))), after_read [k] t))"
  unfolding HGetAll_def by (subst snap_watched_read) (simp_all add: map_reply_cases hgetall_ne)

lemma snap_HScan: "HScan k c m (snap R d) t = (if has_writes t then (Ret (Inl kInvalidArgument), t)
    else (Ret (reply_res (map_reply Inr (r_hscan R (Suc (clock t)) d k c m))), after_read [k] t))"
  unfolding HScan_def by (subst snap_watched_read) (simp_all add: map_reply_cases hscan_ne)

lemma snap_ListPrefix: "ListPrefix k (snap R d) t = (if has_writes t then (Ret (Inl kInvalidArgument), t)
    else (Ret (reply_res (map_reply (\<lambda>vs. Inr (take 1 vs)) (list_reply (d k)))), after_read [k] t))"
  unfolding ListPrefix_def
  by (subst snap_watched_read) (simp_all add: lrange_first map_reply_cases reply.map_comp comp_def)

lemma snap_PttlBatch:
  assumes "ks \<noteq> []"
  shows "\<exists>ts. list_all2 (\<lambda>k. ttl_ok (d k)) ks ts
    \<and> PttlBatch ks (snap R d) t = (if has_writes t then (Ret (Inl kInvalidArgument), t) else (Ret (Inr ts), after_read ks t))"
proof -
  obtain ts where ts: "r_pttl R (Suc (clock t)) d ks = Reply ts" "list_all2 (\<lambda>k. ttl_ok (d k)) ks ts"
    using pttl_law by blast
  then have "length ts = length ks"
    by (simp add: list_all2_lengthD)
  with ts show ?thesis
    unfolding PttlBatch_watched [OF assms] by (intro exI [of _ ts]) (subst snap_watched_read, auto)
qed

lemma Get_Inr: "Get k (snap R d) t = (Ret (Inr v), t') \<longleftrightarrow> \<not> has_writes t \<and> str_at d k = Some v \<and> t' = after_read [k] t"
  by (auto simp: snap_Get str_at_def get_reply_def split: option.splits rval.splits)

lemma Get_NotFound: "Get k (snap R d) t = (Ret (Inl kNotFound), t') \<longleftrightarrow> \<not> has_writes t \<and> d k = None \<and> t' = after_read [k] t"
  by (auto simp: snap_Get get_reply_def split: option.splits rval.splits)

lemma HGet_Inr: "HGet k f (snap R d) t = (Ret (Inr v), t') \<longleftrightarrow>
    \<not> has_writes t \<and> fmlookup (hash_at d k) f = Some v \<and> t' = after_read [k] t"
  by (auto simp: snap_HGet hash_at_def hash_reply_def split: option.splits rval.splits)

lemma HGet_NotFound: "HGet k f (snap R d) t = (Ret (Inl kNotFound), t') \<longleftrightarrow>
    \<not> has_writes t \<and> is_hash d k \<and> fmlookup (hash_at d k) f = None \<and> t' = after_read [k] t"
  by (auto simp: snap_HGet hash_at_def is_hash_def hash_reply_def split: option.splits rval.splits)

lemma HLen_Inr: "HLen k (snap R d) t = (Ret (Inr n), t') \<longleftrightarrow>
    \<not> has_writes t \<and> is_hash d k \<and> n = of_nat (fcard (fmdom (hash_at d k))) \<and> t' = after_read [k] t"
  by (auto simp: snap_HLen hash_at_def is_hash_def hash_reply_def split: option.splits rval.splits)

lemma HGetAll_Inr: "HGetAll k (snap R d) t = (Ret (Inr es), t') \<Longrightarrow>
    \<not> has_writes t \<and> is_hash d k \<and> distinct (map fst es) \<and> map_of es = fmlookup (hash_at d k) \<and> t' = after_read [k] t"
  using hgetall_law [where d=d and k=k and n="Suc (clock t)"]
  by (auto simp: snap_HGetAll hash_at_def is_hash_def hash_reply_def split: option.splits rval.splits if_splits)

lemmas snap_reads = Get_Inr Get_NotFound HGet_Inr HGet_NotFound HLen_Inr

end

section \<open>A reference server\<close>

text \<open>A server that no other client uses and that answers every command: the key space is the one given.\<close>

definition mem_ttl :: "(rval \<times> nat option) option \<Rightarrow> int" where
  "mem_ttl x = (case x of None \<Rightarrow> - 2 | Some (_, None) \<Rightarrow> - 1 | Some (_, Some e) \<Rightarrow> int e)"

definition mem_redis :: "keyspace \<Rightarrow> redis" where
  "mem_redis d0 = \<lparr>
    r_db = \<lambda>_. d0, r_link = \<lambda>_. Reply (),
    r_get = \<lambda>d k. get_reply (d k),
    r_lrange = \<lambda>d k a b. if b = - 1 then list_reply (d k) else map_reply (take 1) (list_reply (d k)),
    r_hget = \<lambda>d k f. map_reply (\<lambda>h. fmlookup h f) (hash_reply (d k)),
    r_hlen = \<lambda>d k. map_reply (\<lambda>h. of_nat (fcard (fmdom h))) (hash_reply (d k)),
    r_hgetall = \<lambda>_ d k. map_reply sorted_list_of_fmap (hash_reply (d k)),
    r_hscan = \<lambda>_ d k _ _. map_reply (\<lambda>h. (sorted_list_of_fmap h, 0)) (hash_reply (d k)),
    r_pttl = \<lambda>_ d ks. Reply (map (\<lambda>k. mem_ttl (d k)) ks),
    r_apply = exec_cmds,
    r_exec = \<lambda>_ _. ExecReplies,
    r_mget = \<lambda>d ks. Reply (map (\<lambda>k. case d k of Some (RString s, _) \<Rightarrow> Some s | _ \<Rightarrow> None) ks),
    r_command = \<lambda>n. exec_single n,
    r_now = \<lambda>n. n,
    r_lost = \<lambda>_. False\<rparr>"

lemma mem_sel [simp]:
  "r_db (mem_redis d0) n = d0" "r_link (mem_redis d0) n = Reply ()" "r_exec (mem_redis d0) n ws = ExecReplies"
  "r_now (mem_redis d0) n = n" "r_lost (mem_redis d0) n = False"
  by (simp_all add: mem_redis_def)

lemma distinct_sorted_list_of_fmap: "distinct (map fst (sorted_list_of_fmap m))"
  by (simp add: sorted_list_of_fmap_def comp_def sorted_list_of_fset.rep_eq)

interpretation mem: redis_server "mem_redis d0" for d0
proof (unfold_locales, goal_cases)
  case (8 d k n c m)
  have "fmlookup h (fst p) = Some (snd p)" if "p \<in> set (sorted_list_of_fmap h)" for h :: "(bytes, bytes) fmap" and p
    using that distinct_sorted_list_of_fmap by (metis map_of_is_SomeI map_of_sorted_list prod.collapse)
  then show ?case
    by (auto simp: mem_redis_def split: reply.splits)
qed (auto simp: mem_redis_def distinct_sorted_list_of_fmap ttl_ok_def mem_ttl_def list_all2_conv_all_nth
    split: reply.splits option.splits)

text \<open>The reference server run by rewriting.\<close>

named_theorems mem_simps

lemma mem_snap: "mem_redis d = snap (mem_redis d) d"
  by (simp add: mem_redis_def snap_def)

lemma mem_reads [mem_simps]:
  "Get k (mem_redis d) t = (if has_writes t then (Ret (Inl kInvalidArgument), t)
     else (Ret (reply_res (map_reply found (get_reply (d k)))), after_read [k] t))"
  "HGet k f (mem_redis d) t = (if has_writes t then (Ret (Inl kInvalidArgument), t)
     else (Ret (reply_res (map_reply (\<lambda>h. found (fmlookup h f)) (hash_reply (d k)))), after_read [k] t))"
  "HLen k (mem_redis d) t = (if has_writes t then (Ret (Inl kInvalidArgument), t)
     else (Ret (reply_res (map_reply (\<lambda>h. Inr (of_nat (fcard (fmdom h)))) (hash_reply (d k)))), after_read [k] t))"
  "HGetAll k (mem_redis d) t = (if has_writes t then (Ret (Inl kInvalidArgument), t)
     else (Ret (reply_res (map_reply (\<lambda>h. Inr (sorted_list_of_fmap h)) (hash_reply (d k)))), after_read [k] t))"
  "HScan k c m (mem_redis d) t = (if has_writes t then (Ret (Inl kInvalidArgument), t)
     else (Ret (reply_res (map_reply (\<lambda>h. Inr (sorted_list_of_fmap h, 0)) (hash_reply (d k)))), after_read [k] t))"
  using mem.snap_Get [of k d d t] mem.snap_HGet [of k f d d t] mem.snap_HLen [of k d d t] mem.snap_HGetAll [of k d d t]
    mem.snap_HScan [of k c m d d t]
  by (simp_all only: mem_snap [symmetric]) (simp_all add: mem_redis_def reply.map_comp comp_def)

lemma mem_PttlBatch [mem_simps]:
  "PttlBatch ks (mem_redis d) t = (if has_writes t then (Ret (Inl kInvalidArgument), t)
     else if ks = [] then (Ret (Inr []), t) else (Ret (Inr (map (\<lambda>k. mem_ttl (d k)) ks)), after_read ks t))"
  by (auto simp: PttlBatch_def watched_read_def RunRedisCommand_def watch_def ask_def tick_def after_read_def mem_redis_def)

lemma mem_writes [mem_simps]:
  "Set k v (mem_redis d) t = (Ret (Inr ()), after_write (CSet k v) t)"
  "RPush k v (mem_redis d) t = (Ret (Inr ()), after_write (CRPush k v) t)"
  "HSet k f v (mem_redis d) t = (Ret (Inr ()), after_write (CHSet k f v) t)"
  "HDel k f (mem_redis d) t = (Ret (Inr ()), after_write (CHDel k f) t)"
  "IncrBy k i (mem_redis d) t = (Ret (Inr ()), after_write (CIncrBy k i) t)"
  "Del k (mem_redis d) t = (Ret (Inr ()), after_write (CDel k) t)"
  by (subst mem_snap, simp add: snap_writes)+

lemma mem_empty [mem_simps]: "sorted_list_of_fmap fmempty = []" "fcard {||} = 0"
  by (simp_all add: sorted_list_of_fmap_def sorted_list_of_fset.rep_eq fcard.rep_eq)

lemma mem_binds [mem_simps]:
  "tbind m f (mem_redis d) t = (case m (mem_redis d) t of
      (Ret (Inr x), t1) \<Rightarrow> f x (mem_redis d) t1 | (Ret (Inl e), t1) \<Rightarrow> (Ret (Inl e), t1) | (Throw, t1) \<Rightarrow> (Throw, t1))"
  "tcase m h (mem_redis d) t = (case m (mem_redis d) t of (Ret r, t1) \<Rightarrow> h r (mem_redis d) t1 | (Throw, t1) \<Rightarrow> (Throw, t1))"
  "treturn r (mem_redis d) t = (Ret r, t)"
  "tput g (mem_redis d) t = (Ret (Inr ()), t\<lparr>vars := g (vars t)\<rparr>)"
  by (simp_all add: tbind_def tcase_def treturn_def tput_def split: prod.splits out.splits sum.splits)

end
