(* ===== verification/RedisMetaClient.thy ===== *)
theory RedisMetaClient
  imports RedisKvTxn
begin

text \<open>
  The Redis client (\<open>metadata/redis/RedisMetaClient.cpp\<close>): single commands, the bounded retry loop
  \<open>Transact\<close> and the operations built on them. The state of a client is the number of commands it has sent
  and the list of effects its writes had, each the key space the server ran a queue or command on and the
  key space it left. The connection pool, the back-off sleep and the Lua interpreter are not modelled; the
  two Lua scripts of the source are definitions here.

  The main theorem is serializability: \<open>Transact\<close> has at most one effect, and the effect is that of the
  callback run at once on the key space the queue was executed on.
\<close>

record client =
  sent :: nat
  effects :: "effect list"

type_synonym 'a cop = "redis \<Rightarrow> client \<Rightarrow> 'a res \<times> client"

section \<open>Single commands\<close>

text \<open>\<open>MakeConnectionOptions\<close> only copies fields. \<open>ValidateConfig\<close> throws on a bad configuration: \<open>False\<close>.\<close>

record RedisMetaConfig =
  connect_timeout :: int
  socket_timeout :: int
  pool_size :: nat
  pool_wait_timeout :: int
  retry_attempts :: int
  retry_backoff :: int

definition ValidateConfig :: "RedisMetaConfig \<Rightarrow> bool" where
  "ValidateConfig c \<longleftrightarrow> \<not> connect_timeout c \<le> 0 \<and> \<not> socket_timeout c \<le> 0 \<and> pool_size c \<noteq> 0
     \<and> \<not> pool_wait_timeout c \<le> 0 \<and> \<not> retry_attempts c \<le> 0 \<and> \<not> retry_backoff c < 0"

definition RunReadOnlyCommand :: "(redis \<Rightarrow> nat \<Rightarrow> keyspace \<Rightarrow> 'a res reply) \<Rightarrow> 'a cop" where
  "RunReadOnlyCommand q R c =
    (let n = sent c; c' = c\<lparr>sent := Suc n\<rparr> in
     case r_link R n of
       ReplyError \<Rightarrow> (Inl kIOError, c')
     | Error \<Rightarrow> (Inl kUnavailable, c')
     | Reply _ \<Rightarrow> (case q R n (r_db R n) of
          Reply s \<Rightarrow> (s, c') | ReplyError \<Rightarrow> (Inl kIOError, c') | Error \<Rightarrow> (Inl kUnavailable, c')))"

definition Ping :: "unit cop" where
  "Ping = RunReadOnlyCommand (\<lambda>R n d. Reply (Inr ()))"

definition client_Get :: "bytes \<Rightarrow> bytes cop" where
  "client_Get k = RunReadOnlyCommand (\<lambda>R n d. map_reply found (r_get R d k))"

definition MGet :: "bytes list \<Rightarrow> bytes option list cop" where
  "MGet ks R c = (if ks = [] then (Inr [], c) else RunReadOnlyCommand (\<lambda>R n d. map_reply Inr (r_mget R d ks)) R c)"

definition client_HScan :: "bytes \<Rightarrow> u64 \<Rightarrow> nat \<Rightarrow> ((bytes \<times> bytes) list \<times> u64) cop" where
  "client_HScan k cursor count = RunReadOnlyCommand (\<lambda>R n d. map_reply Inr (r_hscan R n d k cursor count))"

definition LRange :: "bytes \<Rightarrow> bytes list cop" where
  "LRange k = RunReadOnlyCommand (\<lambda>R n d. map_reply Inr (r_lrange R d k 0 (- 1)))"

text \<open>\<open>kReadChunkAttachmentsScript\<close>: one atomic read; \<open>None\<close> stands for \<open>{'changed'}\<close>.\<close>

definition ReadChunkAttachmentsScript ::
    "redis \<Rightarrow> keyspace \<Rightarrow> bytes \<Rightarrow> bytes \<Rightarrow> bytes \<Rightarrow> bytes \<Rightarrow> bytes \<Rightarrow> (bytes option \<times> bytes option) option reply" where
  "ReadChunkAttachmentsScript R d inode_key refs_key expected f1 f2 = (case r_get R d inode_key of
      Reply v \<Rightarrow> if v \<noteq> Some expected then Reply None
        else (case r_hget R d refs_key f1 of
            Reply a \<Rightarrow> (case r_hget R d refs_key f2 of
                Reply b \<Rightarrow> Reply (Some (a, b)) | ReplyError \<Rightarrow> ReplyError | Error \<Rightarrow> Error)
          | ReplyError \<Rightarrow> ReplyError | Error \<Rightarrow> Error)
    | ReplyError \<Rightarrow> ReplyError | Error \<Rightarrow> Error)"

definition ReadChunkAttachmentsIfUnchanged ::
    "bytes \<Rightarrow> bytes \<Rightarrow> bytes \<Rightarrow> u64 \<Rightarrow> u64 \<Rightarrow> (bytes option \<times> bytes option) option cop" where
  "ReadChunkAttachmentsIfUnchanged inode_key refs_key expected index eof_index =
    RunReadOnlyCommand (\<lambda>R n d. map_reply Inr (ReadChunkAttachmentsScript R d inode_key refs_key expected
      (to_string (unat index)) (to_string (unat eof_index))))"

text \<open>A command that writes. Its effect counts when the reply arrived, and when only the reply was lost.\<close>

definition mutate :: "(redis \<Rightarrow> nat \<Rightarrow> keyspace \<Rightarrow> keyspace \<times> int reply) \<Rightarrow> redis \<Rightarrow> client \<Rightarrow> int reply \<times> client" where
  "mutate f R c =
    (let n = sent c; d = r_db R n; (d', r) = f R n d; c' = c\<lparr>sent := Suc n\<rparr> in
     case r_link R n of
       Reply _ \<Rightarrow> (r, if r = ReplyError then c' else c'\<lparr>effects := effects c @ [(d, d')]\<rparr>)
     | ReplyError \<Rightarrow> (ReplyError, c')
     | Error \<Rightarrow> (Error, if r_lost R n then c'\<lparr>effects := effects c @ [(d, d')]\<rparr> else c'))"

definition client_Incr :: "bytes \<Rightarrow> u64 cop" where
  "client_Incr k R c = (case mutate (\<lambda>R n d. r_command R n (SIncr k) d) R c of
      (Reply v, c') \<Rightarrow> (Inr (word_of_int v), c')
    | (ReplyError, c') \<Rightarrow> (Inl kIOError, c')
    | (Error, c') \<Rightarrow> (Inl kOutcomeUnknown, c'))"

text \<open>\<open>kIncrNonNegativeScript\<close>.\<close>

definition IncrNonNegativeScript :: "bytes \<Rightarrow> redis \<Rightarrow> nat \<Rightarrow> keyspace \<Rightarrow> keyspace \<times> int reply" where
  "IncrNonNegativeScript k R n d = (case r_get R d k of
      Reply (Some s) \<Rightarrow> if take 1 s = ascii ''-'' then (d, ReplyError) else r_command R n (SIncr k) d
    | Reply None \<Rightarrow> r_command R n (SIncr k) d
    | ReplyError \<Rightarrow> (d, ReplyError)
    | Error \<Rightarrow> (d, Error))"

definition IncrNonNegative :: "bytes \<Rightarrow> u64 cop" where
  "IncrNonNegative k R c = (case mutate (IncrNonNegativeScript k) R c of
      (Reply v, c') \<Rightarrow> (Inr (word_of_int v), c')
    | (ReplyError, c') \<Rightarrow> (Inl kIOError, c')
    | (Error, c') \<Rightarrow> (Inl kOutcomeUnknown, c'))"

definition RPushExisting :: "bytes \<Rightarrow> bytes \<Rightarrow> unit cop" where
  "RPushExisting k v R c = (case mutate (\<lambda>R n d. r_command R n (SRPushX k v) d) R c of
      (Reply count, c') \<Rightarrow> (if count = 0 then Inl kNotFound else Inr (), c')
    | (ReplyError, c') \<Rightarrow> (Inl kIOError, c')
    | (Error, c') \<Rightarrow> (Inl kOutcomeUnknown, c'))"

definition CreateOwnerLease :: "bytes \<Rightarrow> bytes \<Rightarrow> int \<Rightarrow> unit cop" where
  "CreateOwnerLease k nonce ttl R c =
    (if ttl \<le> 0 then (Inl kInvalidArgument, c)
     else case mutate (\<lambda>R n d. r_command R n (SSetNxPx k nonce (nat ttl)) d) R c of
      (Reply v, c') \<Rightarrow> (if v = 0 then Inl kAlreadyExists else Inr (), c')
    | (ReplyError, c') \<Rightarrow> (Inl kIOError, c')
    | (Error, c') \<Rightarrow> (Inl kOutcomeUnknown, c'))"

definition RenewOwnerLease :: "bytes \<Rightarrow> int \<Rightarrow> unit cop" where
  "RenewOwnerLease k ttl R c =
    (if ttl \<le> 0 then (Inl kInvalidArgument, c)
     else case mutate (\<lambda>R n d. r_command R n (SPExpireXx k (nat ttl)) d) R c of
      (Reply v, c') \<Rightarrow> (if v \<noteq> 1 then Inl kUnavailable else Inr (), c')
    | (ReplyError, c') \<Rightarrow> (Inl kIOError, c')
    | (Error, c') \<Rightarrow> (Inl kOutcomeUnknown, c'))"

definition RevokeOwnerLease :: "bytes \<Rightarrow> unit cop" where
  "RevokeOwnerLease k R c = (case mutate (\<lambda>R n d. r_command R n (SDel k) d) R c of
      (Reply v, c') \<Rightarrow> (Inr (), c')
    | (ReplyError, c') \<Rightarrow> (Inl kIOError, c')
    | (Error, c') \<Rightarrow> (Inl kOutcomeUnknown, c'))"

section \<open>Transactions\<close>

text \<open>One attempt. \<open>None\<close>: the exception handlers set \<open>retry\<close>. The callback's captured variables keep what
  it wrote to them.\<close>

definition attempt :: "('v, 'a) tx \<Rightarrow> redis \<Rightarrow> client \<Rightarrow> 'v \<Rightarrow> 'a res option \<times> client \<times> 'v" where
  "attempt callback R c v = (case r_link R (sent c) of
      ReplyError \<Rightarrow> (Some (Inl kIOError), c\<lparr>sent := Suc (sent c)\<rparr>, v)
    | Error \<Rightarrow> (None, c\<lparr>sent := Suc (sent c)\<rparr>, v)
    | Reply _ \<Rightarrow> (case callback R (new_txn (Suc (sent c)) v) of
        (Throw, t) \<Rightarrow> (if retryable t then None else Some (Inl kIOError), c\<lparr>sent := clock t\<rparr>, vars t)
      | (Ret (Inl e), t) \<Rightarrow> (Some (Inl e), c\<lparr>sent := clock (Discard R t)\<rparr>, vars t)
      | (Ret (Inr x), t) \<Rightarrow> (case Commit R t of
          (CStatus (Inr _), es, t') \<Rightarrow> (Some (Inr x), \<lparr>sent = clock t', effects = effects c @ es\<rparr>, vars t)
        | (CStatus (Inl e), es, t') \<Rightarrow> (Some (Inl e), \<lparr>sent = clock t', effects = effects c @ es\<rparr>, vars t)
        | (CWatchConflict, es, t') \<Rightarrow> (None, \<lparr>sent = clock t', effects = effects c @ es\<rparr>, vars t)
        | (CError, es, t') \<Rightarrow> (if retryable t' then None else Some (Inl kIOError),
              \<lparr>sent = clock t', effects = effects c @ es\<rparr>, vars t))))"

fun Transact :: "nat \<Rightarrow> ('v, 'a) tx \<Rightarrow> redis \<Rightarrow> client \<Rightarrow> 'v \<Rightarrow> 'a res \<times> client \<times> 'v" where
  "Transact 0 callback R c v = (Inl kUnavailable, c, v)"
| "Transact (Suc n) callback R c v = (case attempt callback R c v of
      (Some r, c', v') \<Rightarrow> (r, c', v')
    | (None, c', v') \<Rightarrow> Transact n callback R c' v')"

section \<open>Operations built on transactions\<close>

definition incr_existing_txn :: "bytes \<Rightarrow> (unit, u64) tx" where
  "incr_existing_txn k = tbind (Get k) (\<lambda>raw.
    case from_chars (2 ^ 64 - 1) raw of
      None \<Rightarrow> treturn (Inl kMalformed)
    | Some (current, rest) \<Rightarrow>
        if rest \<noteq> [] \<or> 2 ^ 63 - 1 \<le> current then treturn (Inl kMalformed)
        else tbind (Set k (to_string (current + 1))) (\<lambda>_. treturn (Inr (of_nat (current + 1)))))"

definition IncrExistingNonNegative :: "nat \<Rightarrow> bytes \<Rightarrow> u64 cop" where
  "IncrExistingNonNegative attempts k R c = (case Transact attempts (incr_existing_txn k) R c () of (r, c', _) \<Rightarrow> (r, c'))"

definition create_list_txn :: "bytes \<Rightarrow> bytes \<Rightarrow> (unit, unit) tx" where
  "create_list_txn k v = tbind (ListPrefix k) (\<lambda>prefix.
    if prefix \<noteq> [] then treturn (Inl kAlreadyExists) else RPush k v)"

definition CreateListWithFirstRecord :: "nat \<Rightarrow> bytes \<Rightarrow> bytes \<Rightarrow> unit cop" where
  "CreateListWithFirstRecord attempts k v R c = (case Transact attempts (create_list_txn k v) R c () of (r, c', _) \<Rightarrow> (r, c'))"

section \<open>Serializability\<close>

text \<open>The callback run at once on \<open>d\<close> returns \<open>x\<close> and has the effects \<open>E\<close>.\<close>

definition ran_at :: "('v, 'a) tx \<Rightarrow> redis \<Rightarrow> 'v \<Rightarrow> keyspace \<Rightarrow> 'a \<Rightarrow> effect list \<Rightarrow> bool" where
  "ran_at callback R v d x E \<longleftrightarrow> (\<exists>n t. callback (snap R d) (new_txn n v) = (Ret (Inr x), t)
     \<and> E = (if has_writes t then [(d, fst (exec_cmds (queue t) d))] else []))"

text \<open>What an attempt or a whole call may do to the server.\<close>

definition serial :: "('v, 'a) tx \<Rightarrow> redis \<Rightarrow> client \<Rightarrow> client \<Rightarrow> 'a res \<Rightarrow> effect list \<Rightarrow> bool" where
  "serial callback R c c' r E \<longleftrightarrow> effects c' = effects c @ E
     \<and> (E \<noteq> [] \<longrightarrow> (\<exists>v x m. sent c \<le> m \<and> m < sent c' \<and> ran_at callback R v (r_db R m) x E))
     \<and> (\<forall>x. r = Inr x \<longrightarrow> (\<exists>v m. sent c \<le> m \<and> m < sent c' \<and> ran_at callback R v (r_db R m) x E))
     \<and> (\<forall>e. r = Inl e \<and> E \<noteq> [] \<longrightarrow> e = kIOError \<or> e = kOutcomeUnknown)"

lemma clock_tick [simp]: "clock (tick t) = Suc (clock t)" "watched (tick t) = watched t"
  by (simp_all add: tick_def)

lemma clock_Discard: "clock t \<le> clock (Discard R t)"
  by (simp add: Discard_def split: reply.splits)

lemma clock_ReleaseConnection: "ReleaseConnection R t = (o1, t') \<Longrightarrow> clock t < clock t'"
  by (auto simp: ReleaseConnection_def Let_def tick_def split: reply.splits exec_reply.splits)

lemma ReleaseConnection_ok:
  "ReleaseConnection R t = (CStatus (Inr u), t') \<Longrightarrow>
     r_exec R (Suc (clock t)) (watched t) = ExecReplies \<and> clock t' = clock t + 2"
  by (auto simp: ReleaseConnection_def Let_def split: reply.splits exec_reply.splits)

lemma Commit_spec:
  assumes "Commit R t = (o1, E, t')"
  shows "clock t < clock t'
     \<and> (E \<noteq> [] \<longrightarrow> has_writes t \<and> executed (r_exec R (clock t) (watched t))
          \<and> E = [(r_db R (clock t), fst (r_apply R (queue t) (r_db R (clock t))))]
          \<and> (o1 = CStatus (Inl kIOError) \<or> o1 = CStatus (Inl kOutcomeUnknown) \<or> o1 = CStatus (Inr ())))
     \<and> (o1 = CStatus (Inr ()) \<and> has_writes t \<longrightarrow> E \<noteq> [])
     \<and> (o1 = CStatus (Inr ()) \<and> \<not> has_writes t \<longrightarrow>
          E = [] \<and> r_exec R (Suc (clock t)) (watched t) = ExecReplies \<and> clock t' = clock t + 2)"
proof -
  consider (ro) "\<not> has_writes t" | (nil) "has_writes t" "r_exec R (clock t) (watched t) = ExecNil"
    | (other) "has_writes t" "r_exec R (clock t) (watched t) \<noteq> ExecNil"
    by blast
  then show ?thesis
  proof cases
    case ro
    then show ?thesis
      using assms by (auto simp: Commit_def split: prod.splits dest: clock_ReleaseConnection ReleaseConnection_ok)
  next
    case nil
    then show ?thesis
      using assms clock_ReleaseConnection [of R "tick t\<lparr>watched := [], queue := []\<rparr>"]
      by (auto simp: Commit_def Let_def split: prod.splits commit_out.splits)
  next
    case other
    then show ?thesis
      using assms by (auto simp: Commit_def Let_def executed_def ValidateWriteExecReplies_def
          split: prod.splits exec_reply.splits if_splits)
  qed
qed

lemma ran_atI:
  "callback (snap R d) (new_txn n v) = (Ret (Inr x), t) \<Longrightarrow>
     ran_at callback R v d x (if has_writes t then [(d, fst (exec_cmds (queue t) d))] else [])"
  unfolding ran_at_def by blast

context redis_server
begin

text \<open>The queue ran on a key space that the transaction's reads agree with.\<close>

lemma commit_ran_at:
  assumes cb: "kv_prog R callback" "callback R (new_txn n v) = (Ret (Inr x), t)"
    and cm: "Commit R t = (o1, E, t')" and ok: "E \<noteq> [] \<or> o1 = CStatus (Inr ())"
  shows "\<exists>m. clock t \<le> m \<and> m < clock t' \<and> ran_at callback R v (r_db R m) x E"
proof (cases "has_writes t")
  case True
  then have "E \<noteq> []"
    using Commit_spec [OF cm] ok by blast
  then have E: "executed (r_exec R (clock t) (watched t))"
      "E = [(r_db R (clock t), fst (exec_cmds (queue t) (r_db R (clock t))))]" "clock t < clock t'"
    using Commit_spec [OF cm] unfolding apply_law by blast+
  have "agree R t (r_db R (clock t))"
    unfolding agree_def by (auto intro: watch_law [OF E(1)])
  then have "callback (snap R (r_db R (clock t))) (new_txn n v) = (Ret (Inr x), t)"
    using kv_progD(4) [OF cb] by simp
  then have "ran_at callback R v (r_db R (clock t)) x E"
    using True E(2) by (auto dest: ran_atI)
  then show ?thesis
    using E(3) by blast
next
  case False
  then have E: "E = []" "executed (r_exec R (Suc (clock t)) (watched t))" "clock t' = clock t + 2"
    using Commit_spec [OF cm] ok unfolding executed_def by blast+
  have "agree R t (r_db R (Suc (clock t)))"
    unfolding agree_def by (auto intro: watch_law [OF E(2)])
  then have "callback (snap R (r_db R (Suc (clock t)))) (new_txn n v) = (Ret (Inr x), t)"
    using kv_progD(4) [OF cb] by simp
  then have "ran_at callback R v (r_db R (Suc (clock t))) x E"
    using False E(1) by (auto dest: ran_atI)
  then show ?thesis
    using E(3) by (intro exI [of _ "Suc (clock t)"]) simp
qed

lemma attempt_serial:
  assumes cb: "kv_prog R callback" and run: "attempt callback R c v = (ro, c', v')"
  shows "sent c < sent c' \<and> (ro = None \<longrightarrow> effects c' = effects c)
     \<and> (\<forall>r. ro = Some r \<longrightarrow> (\<exists>E. serial callback R c c' r E))"
proof (cases "r_link R (sent c)")
  case (Reply u)
  obtain o1 t where cb1: "callback R (new_txn (Suc (sent c)) v) = (o1, t)"
    by fastforce
  have clk: "sent c < clock t"
    using kv_progD(1) [OF cb cb1] by (simp add: grows_def)
  show ?thesis
  proof (cases o1)
    case Throw
    then show ?thesis
      using run Reply cb1 clk by (auto simp: attempt_def serial_def split: if_splits)
  next
    case (Ret r)
    show ?thesis
    proof (cases r)
      case (Inl e)
      then show ?thesis
        using run Reply cb1 clk Ret clock_Discard [of t R] by (auto simp: attempt_def serial_def)
    next
      case (Inr x)
      obtain o2 E t' where cm: "Commit R t = (o2, E, t')"
        using prod_cases3 by blast
      have sp: "sent c < clock t'" "E = [] \<or> o2 = CStatus (Inl kIOError) \<or> o2 = CStatus (Inl kOutcomeUnknown) \<or> o2 = CStatus (Inr ())"
        using Commit_spec [OF cm] clk less_trans by blast+
      have at: "\<exists>v m. sent c \<le> m \<and> m < clock t' \<and> ran_at callback R v (r_db R m) x E"
        if "E \<noteq> [] \<or> o2 = CStatus (Inr ())"
        using commit_ran_at [OF cb _ cm that] cb1 Ret Inr clk by (meson less_imp_le less_le_trans)
      have ro: "ro = (case o2 of CStatus (Inr _) \<Rightarrow> Some (Inr x) | CStatus (Inl e) \<Rightarrow> Some (Inl e) | CWatchConflict \<Rightarrow> None
          | CError \<Rightarrow> if retryable t' then None else Some (Inl kIOError))"
        and c': "sent c' = clock t'" "effects c' = effects c @ E"
        using run Reply cb1 Ret Inr cm by (auto simp: attempt_def split: commit_out.splits sum.splits)
      have "serial callback R c c' r1 E" if "ro = Some r1" for r1
        unfolding serial_def c' using that ro sp at
        by (auto split: commit_out.splits sum.splits if_splits)
      moreover have "E = []" if "ro = None"
        using that ro sp(2) by (auto split: commit_out.splits sum.splits)
      ultimately show ?thesis
        using sp(1) c' by auto
    qed
  qed
qed (use run in \<open>auto simp: attempt_def serial_def\<close>)

lemma Transact_serial:
  "\<lbrakk> kv_prog R callback; Transact n callback R c v = (r, c', v') \<rbrakk> \<Longrightarrow> sent c \<le> sent c' \<and> (\<exists>E. serial callback R c c' r E)"
proof (induction n arbitrary: c v)
  case 0
  then show ?case
    by (auto simp: serial_def)
next
  case (Suc n)
  obtain ro c1 v1 where at: "attempt callback R c v = (ro, c1, v1)"
    using prod_cases3 by blast
  note sp = attempt_serial [OF Suc.prems(1) at]
  show ?case
  proof (cases ro)
    case None
    then have tr: "Transact n callback R c1 v1 = (r, c', v')"
      using Suc.prems(2) at by simp
    obtain E where E: "serial callback R c1 c' r E" "sent c1 \<le> sent c'"
      using Suc.IH [OF Suc.prems(1) tr] by blast
    have "serial callback R c c' r E"
      using E(1) sp None unfolding serial_def by (metis less_imp_le order_trans)
    then show ?thesis
      using sp E(2) by auto
  next
    case (Some r1)
    then show ?thesis
      using Suc.prems(2) at sp by auto
  qed
qed

end

text \<open>\<open>steps P c c'\<close>: between two states of a client, every effect its writes had is a \<open>P\<close> step. A transaction
  whose runs are \<open>P\<close> steps makes \<open>P\<close> steps only, and a successful one ends in a run.\<close>

definition steps :: "(keyspace \<Rightarrow> keyspace \<Rightarrow> bool) \<Rightarrow> client \<Rightarrow> client \<Rightarrow> bool" where
  "steps P c c' \<longleftrightarrow> sent c \<le> sent c' \<and> (\<exists>E. effects c' = effects c @ E \<and> (\<forall>(d, d')\<in>set E. P d d'))"

lemma steps_refl [simp, intro]: "steps P c c"
  by (auto simp: steps_def)

lemma steps_trans: "\<lbrakk> steps P c c'; steps P c' c'' \<rbrakk> \<Longrightarrow> steps P c c''"
  by (fastforce simp: steps_def)

lemma steps_mono: "\<lbrakk> steps P c c'; \<And>d d'. P d d' \<Longrightarrow> Q d d' \<rbrakk> \<Longrightarrow> steps Q c c'"
  by (fastforce simp: steps_def)

text \<open>An effect of the client's writes between two of its states, on the key space the server had meanwhile.\<close>

definition effect_in :: "redis \<Rightarrow> client \<Rightarrow> client \<Rightarrow> keyspace \<Rightarrow> keyspace \<Rightarrow> bool" where
  "effect_in R c c' d d' \<longleftrightarrow> (\<exists>E i. effects c' = effects c @ E \<and> (d, d') \<in> set E \<and> d = r_db R i \<and> sent c \<le> i \<and> i < sent c')"

lemma effect_in_mono:
  assumes "effect_in R c c' d d'" "steps P b c" "steps Q c' e"
  shows "effect_in R b e d d'"
proof -
  obtain E i where "effects c' = effects c @ E" "(d, d') \<in> set E" "d = r_db R i" "sent c \<le> i" "i < sent c'"
    using assms(1) by (auto simp: effect_in_def)
  moreover obtain B where "effects c = effects b @ B" "sent b \<le> sent c"
    using assms(2) by (auto simp: steps_def)
  moreover obtain F where "effects e = effects c' @ F" "sent c' \<le> sent e"
    using assms(3) by (auto simp: steps_def)
  ultimately show ?thesis
    unfolding effect_in_def by (intro exI [of _ "B @ E @ F"] exI [of _ i]) auto
qed

text \<open>The callback that also returns the captured variables.\<close>

definition with_vars :: "('v, 'a) tx \<Rightarrow> ('v, 'a \<times> 'v) tx" where
  "with_vars m R t = (case m R t of (o1, t') \<Rightarrow> (map_out (\<lambda>x. (x, vars t')) o1, t'))"

lemma map_out_iff [simp]:
  "map_out f o1 = Throw \<longleftrightarrow> o1 = Throw" "map_out f o1 = Ret (Inl e) \<longleftrightarrow> o1 = Ret (Inl e)"
  "map_out f o1 = Ret (Inr y) \<longleftrightarrow> (\<exists>x. o1 = Ret (Inr x) \<and> y = f x)"
  by (cases o1; auto simp: map_sum_def split: sum.splits)+

lemma attempt_with_vars:
  "attempt (with_vars m) R c v = (case attempt m R c v of (ro, c', v') \<Rightarrow> (map_option (map_sum id (\<lambda>x. (x, v'))) ro, c', v'))"
  by (auto simp: attempt_def with_vars_def split: reply.splits prod.splits out.splits sum.splits commit_out.splits)

lemma Transact_with_vars:
  "Transact n (with_vars m) R c v = (case Transact n m R c v of (r, c', v') \<Rightarrow> (map_sum id (\<lambda>x. (x, v')) r, c', v'))"
  by (induction n arbitrary: c v) (auto simp: attempt_with_vars split: prod.splits option.splits)

lemma kv_with_vars:
  assumes "kv_prog R m"
  shows "kv_prog R (with_vars m)"
  unfolding kv_prog_def
proof (intro allI impI)
  fix t o2 t'
  assume "with_vars m R t = (o2, t')"
  then obtain o1 where m1: "m R t = (o1, t')" and o2: "o2 = map_out (\<lambda>x. (x, vars t')) o1"
    by (auto simp: with_vars_def split: prod.splits)
  have "with_vars m (snap R d) t = (o2, t')" if "o2 \<noteq> Throw" "o2 \<noteq> Ret (Inl kIOError)" "agree R t' d" for d
    using kv_progD(4) [OF assms m1 _ _ that(3)] that(1,2) by (simp add: with_vars_def o2)
  then show "grows t t' \<and> (o2 = Throw \<longrightarrow> retryable t') \<and> ((\<forall>n. r_link R n = Reply ()) \<longrightarrow> o2 \<noteq> Throw)
    \<and> (o2 \<noteq> Throw \<and> o2 \<noteq> Ret (Inl kIOError) \<longrightarrow> (\<forall>d. agree R t' d \<longrightarrow> with_vars m (snap R d) t = (o2, t')))"
    using kv_progD [OF assms m1] by (simp add: o2)
qed

context redis_server
begin

lemma Transact_steps:
  assumes kv: "kv_prog R m" and tr: "Transact n m R c v = (r, c', v')"
    and run: "\<And>d v x i t. \<lbrakk> m (snap R d) (new_txn i v) = (Ret (Inr x), t); has_writes t \<rbrakk> \<Longrightarrow> P d (fst (exec_cmds (queue t) d))"
  shows "steps P c c'"
proof -
  obtain E where "sent c \<le> sent c'" "serial m R c c' r E"
    using Transact_serial [OF kv tr] by blast
  then show ?thesis
    using run by (cases "E = []") (auto simp: steps_def serial_def ran_at_def)
qed

lemma Transact_ok:
  assumes kv: "kv_prog R m" and tr: "Transact n m R c v = (Inr x, c', v')"
  shows "\<exists>i j v t. sent c \<le> j \<and> j < sent c' \<and> m (snap R (r_db R j)) (new_txn i v) = (Ret (Inr x), t) \<and> vars t = v'
    \<and> effects c' = effects c @ (if has_writes t then [(r_db R j, fst (exec_cmds (queue t) (r_db R j)))] else [])"
proof -
  have "Transact n (with_vars m) R c v = (Inr (x, v'), c', v')"
    using tr by (simp add: Transact_with_vars)
  then obtain E v0 j where E: "effects c' = effects c @ E" "sent c \<le> j" "j < sent c'"
    and at: "ran_at (with_vars m) R v0 (r_db R j) (x, v') E"
    using Transact_serial [OF kv_with_vars [OF kv]] unfolding serial_def by blast
  then obtain i t where
    run: "with_vars m (snap R (r_db R j)) (new_txn i v0) = (Ret (Inr (x, v')), t)" and
    "E = (if has_writes t then [(r_db R j, fst (exec_cmds (queue t) (r_db R j)))] else [])"
    unfolding ran_at_def by blast
  moreover have "m (snap R (r_db R j)) (new_txn i v0) = (Ret (Inr x), t) \<and> vars t = v'"
    using run by (auto simp: with_vars_def split: prod.splits)
  ultimately show ?thesis
    using E by blast
qed

lemma Transact_effect:
  assumes "kv_prog R m" "Transact n m R c v = (Inr x, c', v')"
    and run: "\<And>d i v t. m (snap R d) (new_txn i v) = (Ret (Inr x), t) \<Longrightarrow> has_writes t \<and> P (vars t) d (fst (exec_cmds (queue t) d))"
  shows "\<exists>d d'. effect_in R c c' d d' \<and> P v' d d'"
proof -
  obtain i j v t where "sent c \<le> j" "j < sent c'" and m: "m (snap R (r_db R j)) (new_txn i v) = (Ret (Inr x), t)" "vars t = v'"
    and "effects c' = effects c @ (if has_writes t then [(r_db R j, fst (exec_cmds (queue t) (r_db R j)))] else [])"
    using Transact_ok [OF assms(1,2)] by blast
  then have "effect_in R c c' (r_db R j) (fst (exec_cmds (queue t) (r_db R j)))" "P v' (r_db R j) (fst (exec_cmds (queue t) (r_db R j)))"
    using run [OF m(1)] by (auto simp: effect_in_def)
  then show ?thesis
    by blast
qed

end

text \<open>C11: A transaction is serializable and happens at most once: whatever other clients do between its
  commands and whatever replies get lost, a call of \<open>Transact\<close> with a callback whose reads are watched has no
  effect, or exactly the effect the callback has when it runs at once on the key space its \<open>EXEC\<close> found during the
  call; it has that effect whenever it reports success, and the reported value is the one of that run; an error
  other than the two that announce an uncertain commit means that nothing was written.\<close>

theorem transact_serializable:
  assumes "redis_server R" and "kv_prog R callback" and "Transact n callback R c v = (r, c', v')"
  shows "\<exists>E. effects c' = effects c @ E \<and> length E \<le> 1
     \<and> (E \<noteq> [] \<longrightarrow> (\<exists>v x m. sent c \<le> m \<and> m < sent c' \<and> ran_at callback R v (r_db R m) x E))
     \<and> (\<forall>x. r = Inr x \<longrightarrow> (\<exists>v m. sent c \<le> m \<and> m < sent c' \<and> ran_at callback R v (r_db R m) x E))
     \<and> (\<forall>e. r = Inl e \<and> e \<noteq> kIOError \<and> e \<noteq> kOutcomeUnknown \<longrightarrow> E = [])"
proof -
  obtain E where E: "serial callback R c c' r E"
    using redis_server.Transact_serial [OF assms] by blast
  then have "length E \<le> 1"
    by (cases "E = []") (auto simp: serial_def ran_at_def)
  with E show ?thesis
    unfolding serial_def by blast
qed

section \<open>Counters and list heads\<close>

text \<open>The value of a counter key.\<close>

definition counter_at :: "keyspace \<Rightarrow> bytes \<Rightarrow> nat option" where
  "counter_at d k = (case str_at d k of None \<Rightarrow> None
     | Some s \<Rightarrow> (case from_chars (2 ^ 64 - 1) s of Some (v, []) \<Rightarrow> Some v | _ \<Rightarrow> None))"

lemma counter_at_set: "n < 2 ^ 64 \<Longrightarrow> counter_at (d(k \<mapsto> (RString (to_string n), x))) k = Some n"
  using from_chars_to_string [of n "2 ^ 64 - 1" "[]"] by (simp add: counter_at_def str_at_def)

context redis_server
begin

lemma kv_incr_existing: "kv_prog R (incr_existing_txn k)"
  unfolding incr_existing_txn_def by (auto intro!: kv_intros split: option.splits)

lemma kv_create_list: "kv_prog R (create_list_txn k v)"
  unfolding create_list_txn_def by (auto intro!: kv_intros)

lemma snap_incr_existing:
  "incr_existing_txn k (snap R d) t = (Ret (Inr x), t') \<Longrightarrow>
    \<exists>n. counter_at d k = Some n \<and> n + 1 < 2 ^ 63 \<and> x = of_nat (n + 1)
      \<and> t' = after_write (CSet k (to_string (n + 1))) (after_read [k] t)"
proof -
  assume "incr_existing_txn k (snap R d) t = (Ret (Inr x), t')"
  then obtain raw where raw: "str_at d k = Some raw" and
    rest: "(case from_chars (2 ^ 64 - 1) raw of None \<Rightarrow> treturn (Inl kMalformed)
      | Some (current, rest) \<Rightarrow> if rest \<noteq> [] \<or> 2 ^ 63 - 1 \<le> current then treturn (Inl kMalformed)
        else tbind (Set k (to_string (current + 1))) (\<lambda>_. treturn (Inr (of_nat (current + 1)))))
      (snap R d) (after_read [k] t) = (Ret (Inr x), t')"
    unfolding incr_existing_txn_def tbind_Inr Get_Inr by blast
  show ?thesis
  proof (cases "from_chars (2 ^ 64 - 1) raw")
    case (Some p)
    then show ?thesis
      using rest raw by (cases p) (auto simp: counter_at_def snap_simps split: if_splits)
  qed (use rest in \<open>simp add: treturn_def\<close>)
qed

lemma snap_create_list:
  "create_list_txn k v (snap R d) t = (Ret (Inr x), t') \<Longrightarrow>
    list_reply (d k) = Reply [] \<and> t' = after_write (CRPush k v) (after_read [k] t)"
  by (cases "list_reply (d k)") (auto simp: create_list_txn_def snap_simps snap_ListPrefix treturn_def split: if_splits)

end

lemma incr_existing_run:
  assumes "redis_server R" "ran_at (incr_existing_txn k) R v d x E"
  shows "E = [(d, d(k \<mapsto> (RString (to_string (unat x)), None)))] \<and> 0 < unat x \<and> unat x < 2 ^ 63
     \<and> counter_at d k = Some (unat x - 1) \<and> counter_at (d(k \<mapsto> (RString (to_string (unat x)), None))) k = Some (unat x)"
proof -
  obtain n0 t where run: "incr_existing_txn k (snap R d) (new_txn n0 v) = (Ret (Inr x), t)"
    and Eeq: "E = (if has_writes t then [(d, fst (exec_cmds (queue t) d))] else [])"
    using assms(2) unfolding ran_at_def by blast
  obtain i where i: "counter_at d k = Some i" "i + 1 < 2 ^ 63" "x = of_nat (i + 1)"
    and t: "t = after_write (CSet k (to_string (i + 1))) (after_read [k] (new_txn n0 v))"
    using redis_server.snap_incr_existing [OF assms(1) run] by blast
  have ux: "unat x = i + 1"
    using i(2,3) by (simp only: unat_of_nat) simp
  have "E = [(d, d(k \<mapsto> (RString (to_string (unat x)), None)))]"
    using Eeq t ux by (simp add: exec_cmds_Cons exec_cmd.simps)
  moreover have "counter_at (d(k \<mapsto> (RString (to_string (unat x)), None))) k = Some (unat x)"
    using i(2) ux by (intro counter_at_set) simp
  ultimately show ?thesis
    using i ux by simp
qed

text \<open>A history of the key spaces of a server in which allocation calls, of any clients, are the only writers of the counter
  \<open>k\<close>: every step leaves the counter as it is, or is the effect of such a call, whatever reply the caller got.\<close>

definition counter_history :: "bytes \<Rightarrow> (nat \<Rightarrow> keyspace) \<Rightarrow> bool" where
  "counter_history k h \<longleftrightarrow> (\<forall>p. h (Suc p) k = h p k
     \<or> (\<exists>R n c r c'. redis_server R \<and> IncrExistingNonNegative n k R c = (r, c') \<and> effects c' = effects c @ [(h p, h (Suc p))]))"

lemma incr_existing_serial:
  assumes "redis_server R" "IncrExistingNonNegative n k R c = (r, c')"
  shows "\<exists>E. serial (incr_existing_txn k) R c c' r E"
  using assms redis_server.Transact_serial [OF assms(1) redis_server.kv_incr_existing [OF assms(1)]]
  by (fastforce simp: IncrExistingNonNegative_def split: prod.splits)

lemma counter_history_step:
  assumes "counter_history k h" "counter_at (h p) k = Some a"
  shows "\<exists>b\<ge>a. counter_at (h (Suc p)) k = Some b"
proof (cases "h (Suc p) k = h p k")
  case True
  then have "counter_at (h (Suc p)) k = counter_at (h p) k"
    by (simp add: counter_at_def str_at_def)
  with assms(2) show ?thesis
    by auto
next
  case False
  then obtain R n c r c' where R: "redis_server R" and c: "IncrExistingNonNegative n k R c = (r, c')"
    and e: "effects c' = effects c @ [(h p, h (Suc p))]"
    using assms(1) unfolding counter_history_def by blast
  obtain v x d where at: "ran_at (incr_existing_txn k) R v d x [(h p, h (Suc p))]"
    using incr_existing_serial [OF R c] e unfolding serial_def by auto
  then show ?thesis
    using incr_existing_run [OF R at] assms(2) by (intro exI [of _ "unat x"]) auto
qed

lemma counter_history_mono:
  assumes "counter_history k h" "counter_at (h p) k = Some a" "p \<le> q"
  shows "\<exists>b\<ge>a. counter_at (h q) k = Some b"
  using assms(3)
proof (induction q rule: dec_induct)
  case (step n)
  then obtain b where "a \<le> b" "counter_at (h n) k = Some b"
    by blast
  then show ?case
    using counter_history_step [OF assms(1)] order_trans by blast
qed (use assms(2) in auto)

lemma incr_existing_ok:
  assumes "redis_server R" "IncrExistingNonNegative n k R c = (Inr x, c')"
  shows "\<exists>m d. sent c \<le> m \<and> m < sent c' \<and> d = r_db R m
     \<and> effects c' = effects c @ [(d, d(k \<mapsto> (RString (to_string (unat x)), None)))]
     \<and> 0 < unat x \<and> unat x < 2 ^ 63 \<and> counter_at d k = Some (unat x - 1)
     \<and> counter_at (d(k \<mapsto> (RString (to_string (unat x)), None))) k = Some (unat x)"
proof -
  obtain E v m where "effects c' = effects c @ E" "sent c \<le> m" "m < sent c'" "ran_at (incr_existing_txn k) R v (r_db R m) x E"
    using incr_existing_serial [OF assms] unfolding serial_def by blast
  then show ?thesis
    using incr_existing_run [OF assms(1)] by blast
qed

text \<open>C18: Identifier allocation never hands out a number twice. Take two successful calls of \<open>IncrExistingNonNegative\<close>, by the
  same client or by different ones, whose effects are the steps \<open>p\<close> and \<open>q\<close>, \<open>p < q\<close>, of one history of the server in which only
  such calls write the counter (calls whose reply was lost included). The later call returns the greater number. Each call, on the
  key space it found, replaced a counter that held \<open>x - 1\<close> by one that holds the \<open>x\<close> it returns, touched no other key and had no
  other effect; the result is positive and stays below \<open>2 ^ 63\<close>.\<close>

theorem id_allocation_unique:
  assumes "counter_history k h"
    and "redis_server R" "IncrExistingNonNegative n k R c = (Inr x, c')" "last (effects c') = (h p, h (Suc p))"
    and "redis_server S" "IncrExistingNonNegative m k S e = (Inr y, e')" "last (effects e') = (h q, h (Suc q))"
    and "p < q"
  shows "x < y \<and> (\<exists>j. sent c \<le> j \<and> j < sent c' \<and> h p = r_db R j) \<and> effects c' = effects c @ [(h p, h (Suc p))]
     \<and> h (Suc p) = (h p)(k \<mapsto> (RString (to_string (unat x)), None)) \<and> 0 < unat x \<and> unat x < 2 ^ 63
     \<and> counter_at (h p) k = Some (unat x - 1) \<and> counter_at (h (Suc p)) k = Some (unat x)"
proof -
  have 1: "(\<exists>j. sent c \<le> j \<and> j < sent c' \<and> h p = r_db R j) \<and> effects c' = effects c @ [(h p, h (Suc p))]
     \<and> h (Suc p) = (h p)(k \<mapsto> (RString (to_string (unat x)), None)) \<and> 0 < unat x \<and> unat x < 2 ^ 63
     \<and> counter_at (h p) k = Some (unat x - 1) \<and> counter_at (h (Suc p)) k = Some (unat x)"
    using incr_existing_ok [OF assms(2,3)] assms(4) by auto
  moreover have 2: "counter_at (h q) k = Some (unat y - 1)" "0 < unat y"
    using incr_existing_ok [OF assms(5,6)] assms(7) by auto
  moreover have "unat x \<le> unat y - 1"
    using counter_history_mono [OF assms(1), of "Suc p" "unat x" q] 1 2 assms(8) by auto
  ultimately have "unat x < unat y"
    by linarith
  then show ?thesis
    using 1 by (blast intro: word_less_nat_alt [THEN iffD2])
qed

lemma mem_Transact:
  assumes "m (mem_redis d) (new_txn (Suc (sent c)) v) = (Ret (Inr x), t)" "has_writes t" "\<forall>r\<in>set (snd (exec_cmds (queue t) d)). r = Reply ()"
  shows "\<exists>i. Transact (Suc n) m (mem_redis d) c v = (Inr x, \<lparr>sent = i, effects = effects c @ [(d, fst (exec_cmds (queue t) d))]\<rparr>, vars t)"
  using assms by (auto simp: attempt_def Commit_def ValidateWriteExecReplies_def mem_redis_def Let_def case_prod_beta)

lemma mem_Transact_read:
  assumes "m (mem_redis d) (new_txn (Suc (sent c)) v) = (Ret (Inr x), t)" "\<not> has_writes t"
  shows "\<exists>i. Transact (Suc n) m (mem_redis d) c v = (Inr x, \<lparr>sent = i, effects = effects c\<rparr>, vars t)"
  using assms by (auto simp: attempt_def Commit_def ReleaseConnection_def mem_redis_def Let_def)

text \<open>A volume whose counter stands at 41, with one client.\<close>

definition ex_counter_db :: keyspace where
  "ex_counter_db = [ascii ''next'' \<mapsto> (RString (ascii ''41''), None)]"

definition ex_client :: client where
  "ex_client = \<lparr>sent = 0, effects = []\<rparr>"

lemma ex_incr: "Transact 1 (incr_existing_txn (ascii ''next'')) (mem_redis ex_counter_db) ex_client ()
    = (Inr 42, \<lparr>sent = 5, effects = [(ex_counter_db, ex_counter_db(ascii ''next'' \<mapsto> (RString (ascii ''42''), None)))]\<rparr>, ())"
proof -
  have d: "from_chars (2 ^ 64 - 1) (ascii ''41'') = Some (41, [])" "to_string 42 = ascii ''42''"
    by (simp_all add: from_chars_def is_digit_def dec_value_def to_string.simps)
  show ?thesis
    using d by (simp add: incr_existing_txn_def mem_redis_def ex_client_def attempt_def Get_def Set_def watched_read_def
        watch_def ask_def RunRedisCommand_def queue_write_def tbind_def tcase_def treturn_def tick_def new_txn_def
        get_reply_def Commit_def ValidateWriteExecReplies_def numeral_eq_Suc [of "num.One"] ex_counter_db_def
        exec_cmd.simps exec_cmds.simps)
qed

theorem transact_serializable_witness:
  "redis_server (mem_redis ex_counter_db) \<and> kv_prog (mem_redis ex_counter_db) (incr_existing_txn (ascii ''next''))
   \<and> ran_at (incr_existing_txn (ascii ''next'')) (mem_redis ex_counter_db) () ex_counter_db 42
       [(ex_counter_db, ex_counter_db(ascii ''next'' \<mapsto> (RString (ascii ''42''), None)))]"
  using transact_serializable [OF mem.redis_server_axioms mem.kv_incr_existing ex_incr]
  by (auto simp: ex_client_def mem.redis_server_axioms mem.kv_incr_existing)

text \<open>Two clients that allocate one after the other: the second finds the key space the first left.\<close>

definition ex_history :: "nat \<Rightarrow> keyspace" where
  "ex_history p = ex_counter_db(ascii ''next'' \<mapsto> (RString (to_string (if p = 0 then 41 else if p = 1 then 42 else 43)), None))"

lemma mem_incr:
  assumes "d k = Some (RString (to_string i), None)" "i + 1 < 2 ^ 63"
  shows "\<exists>s. IncrExistingNonNegative (Suc n) k (mem_redis d) c
    = (Inr (of_nat (i + 1)), \<lparr>sent = s, effects = effects c @ [(d, d(k \<mapsto> (RString (to_string (i + 1)), None)))]\<rparr>)"
proof -
  have f: "from_chars (2 ^ 64 - 1) (to_string i) = Some (i, [])"
    using from_chars_to_string [of i "2 ^ 64 - 1" "[]"] assms(2) by simp
  define t where "t = after_write (CSet k (to_string (i + 1))) (after_read [k] (new_txn (Suc (sent c)) ()))"
  have "incr_existing_txn k (mem_redis d) (new_txn (Suc (sent c)) ()) = (Ret (Inr (of_nat (i + 1))), t)"
    using assms f by (simp add: t_def incr_existing_txn_def mem_redis_def Get_def Set_def watched_read_def watch_def ask_def RunRedisCommand_def
        queue_write_def tbind_def tcase_def treturn_def tick_def get_reply_def after_write_def after_read_def)
  from mem_Transact [where m="incr_existing_txn k", OF this, of n] show ?thesis
    using assms by (auto simp: t_def after_write_def after_read_def exec_cmds.simps exec_cmd.simps IncrExistingNonNegative_def new_txn_def)
qed

lemma ex_history_calls:
  assumes "p < (2 :: nat)"
  shows "\<exists>s. IncrExistingNonNegative 1 (ascii ''next'') (mem_redis (ex_history p)) ex_client
    = (Inr (of_nat (42 + p)), \<lparr>sent = s, effects = [(ex_history p, ex_history (Suc p))]\<rparr>)"
  using mem_incr [of "ex_history p" "ascii ''next''" "41 + p" 0 ex_client] assms
  by (cases p) (simp_all add: ex_history_def ex_client_def)

lemma ex_history_ok: "counter_history (ascii ''next'') ex_history"
  unfolding counter_history_def
proof
  fix p :: nat
  consider "p < 2" | "p \<ge> 2"
    by linarith
  then show "ex_history (Suc p) (ascii ''next'') = ex_history p (ascii ''next'')
     \<or> (\<exists>R n c r c'. redis_server R \<and> IncrExistingNonNegative n (ascii ''next'') R c = (r, c')
         \<and> effects c' = effects c @ [(ex_history p, ex_history (Suc p))])"
  proof cases
    case 1
    then show ?thesis
      using ex_history_calls [OF 1] mem.redis_server_axioms [of "ex_history p"]
      by (intro disjI2 exI [of _ "mem_redis (ex_history p)"] exI [of _ 1] exI [of _ ex_client]) (auto simp: ex_client_def)
  qed (simp add: ex_history_def)
qed

theorem id_allocation_unique_witness:
  "counter_history (ascii ''next'') ex_history
   \<and> fst (IncrExistingNonNegative 1 (ascii ''next'') (mem_redis (ex_history 0)) ex_client) = Inr 42
   \<and> fst (IncrExistingNonNegative 1 (ascii ''next'') (mem_redis (ex_history 1)) ex_client) = Inr 43
   \<and> (42 :: u64) < 43 \<and> counter_at (ex_history 0) (ascii ''next'') = Some 41"
proof -
  obtain s s' where
    c: "IncrExistingNonNegative 1 (ascii ''next'') (mem_redis (ex_history 0)) ex_client
      = (Inr 42, \<lparr>sent = s, effects = [(ex_history 0, ex_history (Suc 0))]\<rparr>)"
      "IncrExistingNonNegative 1 (ascii ''next'') (mem_redis (ex_history 1)) ex_client
      = (Inr 43, \<lparr>sent = s', effects = [(ex_history 1, ex_history (Suc 1))]\<rparr>)"
    using ex_history_calls [of 0] ex_history_calls [of 1] by auto
  show ?thesis
    using id_allocation_unique [OF ex_history_ok mem.redis_server_axioms c(1) _ mem.redis_server_axioms c(2)] c ex_history_ok by simp
qed

end
