(* ===== verification/LockAuthority.thy ===== *)
theory LockAuthority
  imports LockRanges RedisMetaClient "HOL-Library.AList"
begin

text \<open>
  The Redis lock authority (\<open>metadata/redis/RedisLockAuthority.cpp\<close>): record locks (\<open>SetPosix\<close>, \<open>GetPosix\<close>,
  \<open>Inspect\<close>), whole-file locks (\<open>SetFlock\<close>) and the removal of the state of dead owners (\<open>CleanupStale\<close>).

  The lock table of an inode is one Redis hash; its fields name an owner as \<open>generation:kernel_owner\<close>, and an
  owner counts while the lease key of its generation exists. Every operation is one optimistic transaction. The
  local owner lease is seen through \<open>lease_view\<close>: its generation, and the answer of \<open>CanGrant\<close> at the moment the
  client has sent \<open>n\<close> commands. The in-process mutexes only order the calls of one mount and are not modelled.

  The theorems say that no two live owners ever hold conflicting locks, whatever clients run concurrently, and that
  a granted request is in force.
\<close>

record lock_vars =
  saw_stale :: bool
  released_on_conflict :: bool

record lease_view =
  lv_generation :: u64
  lv_can_grant :: "nat \<Rightarrow> bool"

record lock_authority =
  la_client :: client
  gc_cursors :: "(bytes \<times> u64) list"
  gc_begin :: "(bytes \<times> u64) list \<Rightarrow> nat"

section \<open>Reading the table\<close>

definition new_holder :: "u64 \<Rightarrow> u64 \<Rightarrow> Holder" where
  "new_holder g k = \<lparr>h_generation = g, h_kernel_owner = k, h_ranges = [], h_flock = fUnlock\<rparr>"

text \<open>The loop that parses the owner fields and collects one lease key per generation.\<close>

definition add_lease :: "RedisKey \<Rightarrow> u64 \<Rightarrow> bytes list \<times> (u64 \<times> nat) list \<Rightarrow> bytes list \<times> (u64 \<times> nat) list" where
  "add_lease K g kp = (if g \<in> fst ` set (snd kp) then kp
     else (fst kp @ [K_OwnerLease K g], snd kp @ [(g, length (fst kp))]))"

fun collect_owners :: "RedisKey \<Rightarrow> (bytes \<times> bytes) list \<Rightarrow> Holder list \<Rightarrow> bytes list \<times> (u64 \<times> nat) list
    \<Rightarrow> (Holder list \<times> bytes list \<times> (u64 \<times> nat) list) res" where
  "collect_owners K [] cands kp = Inr (cands, kp)"
| "collect_owners K ((field, data) # es) cands kp = (case ParseOwner K field of
      None \<Rightarrow> Inl kMalformed
    | Some (g, k) \<Rightarrow> collect_owners K es (cands @ [new_holder g k]) (add_lease K g kp))"

text \<open>The loop over the candidates: a holder whose lease is gone only sets \<open>saw_stale\<close>.\<close>

fun scan_holders :: "bool \<Rightarrow> (u64 \<Rightarrow> int) \<Rightarrow> (Holder \<times> bytes) list \<Rightarrow> bool \<Rightarrow> Holder list \<Rightarrow> bool \<times> Holder list res" where
  "scan_holders flock ttl_of [] stale hs = (stale, Inr hs)"
| "scan_holders flock ttl_of ((h, data) # cs) stale hs =
    (let ttl = ttl_of (h_generation h) in
     if ttl = - 1 then (stale, Inl kMalformed)
     else if ttl \<ge> 0 then (case Decode data flock h of
         Inl e \<Rightarrow> (stale, Inl e)
       | Inr h' \<Rightarrow> scan_holders flock ttl_of cs stale (hs @ [h']))
     else scan_holders flock ttl_of cs True hs)"

definition ReadHolders :: "RedisKey \<Rightarrow> bytes \<Rightarrow> u64 \<Rightarrow> bool \<Rightarrow> (lock_vars, Holder list \<times> nat) tx" where
  "ReadHolders K hash requester_generation flock =
    tbind (tput (saw_stale_update (\<lambda>_. False))) (\<lambda>_.
    tbind (HLen hash) (\<lambda>count.
    if unat count > kMaxHolders then treturn (Inl kNoLocks) else
    tbind (HGetAll hash) (\<lambda>entries.
    if length entries > kMaxHolders then treturn (Inl kNoLocks) else
    tcheck (collect_owners K entries [] ([K_OwnerLease K requester_generation], [(requester_generation, 0)]))
      (\<lambda>(candidates, lease_keys, lease_positions).
    tbind (PttlBatch lease_keys) (\<lambda>ttl_values.
    if ttl_values ! 0 \<le> 0 then treturn (Inl kUnavailable) else
    let scan = scan_holders flock (\<lambda>g. ttl_values ! the (map_of lease_positions g)) (zip candidates (map snd entries)) False []
    in tbind (tput (saw_stale_update (\<lambda>_. fst scan))) (\<lambda>_.
       tcheck (snd scan) (\<lambda>holders. treturn (Inr (holders, length entries)))))))))"

definition SetState :: "bytes \<Rightarrow> bytes \<Rightarrow> bytes \<Rightarrow> bool \<Rightarrow> ('v, unit) tx" where
  "SetState hash field data exists =
    (if data \<noteq> [] then HSet hash field data
     else if exists then HDel hash field
     else tbind (HSet hash kFenceField (ascii ''1'')) (\<lambda>_. tbind (HDel hash field) (\<lambda>_. HDel hash kFenceField)))"

definition CheckLease :: "lease_view \<Rightarrow> lock_authority \<Rightarrow> unit res" where
  "CheckLease L a = (if lv_can_grant L (sent (la_client a)) then Inr () else Inl kUnavailable)"

section \<open>Removing the state of dead owners\<close>

fun stale_candidates :: "RedisKey \<Rightarrow> (bytes \<times> bytes) list \<Rightarrow> (bytes \<times> u64) list \<Rightarrow> bytes list \<times> (u64 \<times> nat) list
    \<Rightarrow> (bytes \<times> u64) list \<times> bytes list \<times> (u64 \<times> nat) list" where
  "stale_candidates K [] cs kp = (cs, kp)"
| "stale_candidates K ((field, data) # es) cs kp = (case ParseOwner K field of
      None \<Rightarrow> stale_candidates K es cs kp
    | Some (g, k) \<Rightarrow> stale_candidates K es (cs @ [(field, g)]) (add_lease K g kp))"

definition cleanup_txn :: "RedisKey \<Rightarrow> bytes \<Rightarrow> u64 \<Rightarrow> (lock_vars, u64) tx" where
  "cleanup_txn K hash start_cursor =
    tbind (HScan hash start_cursor 128) (\<lambda>(entries, next_cursor).
    case stale_candidates K entries [] ([], []) of (candidates, lease_keys, lease_positions) \<Rightarrow>
    tbind (PttlBatch lease_keys) (\<lambda>ttl_values.
    tbind (tseq (map (\<lambda>(field, g). HDel hash field)
        (filter (\<lambda>(field, g). ttl_values ! the (map_of lease_positions g) = - 2) candidates))) (\<lambda>_.
    treturn (Inr next_cursor))))"

text \<open>\<open>erase(begin())\<close> on an \<open>unordered_map\<close>: which entry comes first is not specified, so it is a choice that the
  authority object carries (\<open>gc_begin\<close>).\<close>

definition erase_begin :: "('a list \<Rightarrow> nat) \<Rightarrow> 'a list \<Rightarrow> 'a list" where
  "erase_begin first xs = (let n = first xs mod length xs in take n xs @ drop (Suc n) xs)"

definition CleanupStale :: "nat \<Rightarrow> RedisKey \<Rightarrow> redis \<Rightarrow> bytes \<Rightarrow> lock_authority \<Rightarrow> lock_authority" where
  "CleanupStale attempts K R hash a =
    (let start_cursor = (case map_of (gc_cursors a) hash of Some c \<Rightarrow> c | None \<Rightarrow> 0) in
     case Transact attempts (cleanup_txn K hash start_cursor) R (la_client a) \<lparr>saw_stale = False, released_on_conflict = False\<rparr> of
       (Inl _, c', _) \<Rightarrow> a\<lparr>la_client := c'\<rparr>
     | (Inr next_cursor, c', _) \<Rightarrow>
         (let cur = gc_cursors a in
          a\<lparr>la_client := c', gc_cursors :=
             (if next_cursor = 0 then filter (\<lambda>p. fst p \<noteq> hash) cur
              else let cur' = (if map_of cur hash = None \<and> length cur \<ge> kMaxCachedGcCursors then erase_begin (gc_begin a) cur else cur)
                   in AList.update hash next_cursor cur')\<rparr>))"

section \<open>Record locks\<close>

definition conflicts :: "Interval \<Rightarrow> Interval \<Rightarrow> bool" where
  "conflicts q other \<longleftrightarrow> Overlaps q other \<and> (iv_type q = pWrite \<or> iv_type other = pWrite)"

text \<open>The loop over the holders: the caller's own ranges, or the first conflict.\<close>

fun own_ranges :: "u64 \<Rightarrow> u64 \<Rightarrow> Interval \<Rightarrow> Holder list \<Rightarrow> bool \<times> Interval list \<Rightarrow> (bool \<times> Interval list) res" where
  "own_ranges g k q [] acc = Inr acc"
| "own_ranges g k q (h # hs) acc =
    (if h_generation h = g \<and> h_kernel_owner h = k then own_ranges g k q hs (True, h_ranges h)
     else if iv_type q \<noteq> pUnlock \<and> (\<exists>other\<in>set (h_ranges h). conflicts q other) then Inl kWouldBlock
     else own_ranges g k q hs acc)"

definition set_posix_txn :: "RedisKey \<Rightarrow> bytes \<Rightarrow> u64 \<Rightarrow> u64 \<Rightarrow> Interval \<Rightarrow> (lock_vars, unit) tx" where
  "set_posix_txn K hash generation kernel_owner interval =
    tbind (ReadHolders K hash generation False) (\<lambda>(holders, stored_fields).
    tcheck (own_ranges generation kernel_owner interval holders (False, [])) (\<lambda>(exists, owned).
    tcheck (UpdateRanges K owned interval) (\<lambda>owned'.
    if \<not> exists \<and> owned' \<noteq> [] \<and> stored_fields \<ge> kMaxHolders then treturn (Inl kNoLocks)
    else SetState hash (owner_field K generation kernel_owner) (if owned' = [] then [] else Encode K owned') exists)))"

text \<open>The tail shared by the operations: stale state is removed after the transaction.\<close>

definition after_lock_txn :: "nat \<Rightarrow> RedisKey \<Rightarrow> redis \<Rightarrow> bytes \<Rightarrow> 'a res \<Rightarrow> lock_vars \<Rightarrow> lock_authority \<Rightarrow> lock_authority" where
  "after_lock_txn attempts K R hash r v a =
    (if saw_stale v \<or> ToErrno r = Some ENOLCK then CleanupStale attempts K R hash a else a)"

definition no_vars :: lock_vars where
  "no_vars = \<lparr>saw_stale = False, released_on_conflict = False\<rparr>"

fun set_posix_loop :: "nat \<Rightarrow> nat \<Rightarrow> RedisKey \<Rightarrow> redis \<Rightarrow> lease_view \<Rightarrow> bytes \<Rightarrow> u64 \<Rightarrow> Interval \<Rightarrow> lock_authority
    \<Rightarrow> unit res \<times> lock_authority" where
  "set_posix_loop 0 attempts K R L hash kernel_owner interval a = (Inl kIOError, a)"
| "set_posix_loop (Suc n) attempts K R L hash kernel_owner interval a =
    (case CheckLease L a of Inl e \<Rightarrow> (Inl e, a)
     | Inr _ \<Rightarrow> (case Transact attempts (set_posix_txn K hash (lv_generation L) kernel_owner interval) R (la_client a) no_vars of
         (status, c', v) \<Rightarrow> (let a1 = a\<lparr>la_client := c'\<rparr> in
           if status = Inl kOutcomeUnknown then set_posix_loop n attempts K R L hash kernel_owner interval a1
           else let a2 = after_lock_txn attempts K R hash status v a1 in
             (if ok status then CheckLease L a2 else status, a2))))"

definition SetPosix :: "nat \<Rightarrow> RedisKey \<Rightarrow> redis \<Rightarrow> lease_view \<Rightarrow> u64 \<Rightarrow> u64 \<Rightarrow> PosixRange \<Rightarrow> lock_authority
    \<Rightarrow> unit res \<times> lock_authority" where
  "SetPosix attempts K R L ino kernel_owner request a = (case ValidateRange request of
      Inl e \<Rightarrow> (Inl e, a)
    | Inr interval \<Rightarrow> set_posix_loop kUncertainAttempts attempts K R L (K_PosixLock K ino) kernel_owner interval a)"

text \<open>\<open>GetPosix\<close> reports the first conflicting interval of another owner.\<close>

definition iv_length :: "Interval \<Rightarrow> u64" where
  "iv_length iv = (if iv_end iv = UINT64_MAX then 0 else iv_end iv - iv_start iv)"

fun first_conflict :: "u64 \<Rightarrow> u64 \<Rightarrow> Interval \<Rightarrow> Holder list \<Rightarrow> PosixConflict option" where
  "first_conflict g k q [] = None"
| "first_conflict g k q (h # hs) =
    (if h_generation h = g \<and> h_kernel_owner h = k then first_conflict g k q hs
     else case find (conflicts q) (h_ranges h) of
         Some other \<Rightarrow> Some \<lparr>pc_start = iv_start other, pc_length = iv_length other, pc_kernel_owner = h_kernel_owner h,
             pc_type = iv_type other, pc_pid = iv_pid other\<rparr>
       | None \<Rightarrow> first_conflict g k q hs)"

definition get_posix_txn :: "RedisKey \<Rightarrow> bytes \<Rightarrow> u64 \<Rightarrow> u64 \<Rightarrow> Interval \<Rightarrow> (lock_vars, PosixConflict option) tx" where
  "get_posix_txn K hash generation kernel_owner interval =
    tbind (ReadHolders K hash generation False) (\<lambda>(holders, _).
    treturn (Inr (first_conflict generation kernel_owner interval holders)))"

definition GetPosix :: "nat \<Rightarrow> RedisKey \<Rightarrow> redis \<Rightarrow> lease_view \<Rightarrow> u64 \<Rightarrow> u64 \<Rightarrow> PosixRange \<Rightarrow> lock_authority
    \<Rightarrow> PosixConflict option res \<times> lock_authority" where
  "GetPosix attempts K R L ino kernel_owner request a =
    (if pr_type request = pUnlock then (Inl kInvalidArgument, a)
     else case ValidateRange request of Inl e \<Rightarrow> (Inl e, a)
     | Inr interval \<Rightarrow> (case CheckLease L a of Inl e \<Rightarrow> (Inl e, a)
       | Inr _ \<Rightarrow> (case Transact attempts (get_posix_txn K (K_PosixLock K ino) (lv_generation L) kernel_owner interval) R
              (la_client a) no_vars of
           (status, c', v) \<Rightarrow> (let a2 = after_lock_txn attempts K R (K_PosixLock K ino) status v (a\<lparr>la_client := c'\<rparr>) in
             (case status of Inl e \<Rightarrow> (Inl e, a2)
              | Inr result \<Rightarrow> (chk (CheckLease L a2) (\<lambda>_. Inr result), a2))))))"

definition lock_holder_of :: "u64 \<Rightarrow> Holder \<Rightarrow> LockHolder" where
  "lock_holder_of generation h = \<lparr>lh_kernel_owner = h_kernel_owner h, lh_local_generation = (h_generation h = generation),
     lh_ranges = map (\<lambda>r. \<lparr>pr_start = iv_start r, pr_length = iv_length r, pr_type = iv_type r, pr_pid = iv_pid r\<rparr>) (h_ranges h),
     lh_flock = h_flock h\<rparr>"

definition Inspect :: "nat \<Rightarrow> RedisKey \<Rightarrow> redis \<Rightarrow> lease_view \<Rightarrow> u64 \<Rightarrow> bool \<Rightarrow> lock_authority
    \<Rightarrow> LockHolder list res \<times> lock_authority" where
  "Inspect attempts K R L ino flock a =
    (case CheckLease L a of Inl e \<Rightarrow> (Inl e, a)
     | Inr _ \<Rightarrow> (case Transact attempts (ReadHolders K (if flock then K_FlockLock K ino else K_PosixLock K ino) (lv_generation L) flock)
            R (la_client a) no_vars of
         (Inl e, c', v) \<Rightarrow> (Inl e, a\<lparr>la_client := c'\<rparr>)
       | (Inr (holders, _), c', v) \<Rightarrow> (let a1 = a\<lparr>la_client := c'\<rparr> in
           (chk (CheckLease L a1) (\<lambda>_. Inr (map (lock_holder_of (lv_generation L)) holders)), a1))))"

section \<open>Whole-file locks\<close>

fun flock_scan :: "u64 \<Rightarrow> u64 \<Rightarrow> FlockType \<Rightarrow> Holder list \<Rightarrow> bool \<times> FlockType \<times> bool \<Rightarrow> bool \<times> FlockType \<times> bool" where
  "flock_scan g k ty [] acc = acc"
| "flock_scan g k ty (h # hs) (exists, owned_type, conflict) =
    (if h_generation h = g \<and> h_kernel_owner h = k then flock_scan g k ty hs (True, h_flock h, conflict)
     else flock_scan g k ty hs
       (exists, owned_type, conflict \<or> (ty \<noteq> fUnlock \<and> (ty = fExclusive \<or> h_flock h = fExclusive))))"

definition flock_data :: "FlockType \<Rightarrow> bytes" where
  "flock_data ty = (if ty = fUnlock then [] else if ty = fShared then ascii ''F1|S'' else ascii ''F1|X'')"

definition set_flock_txn :: "RedisKey \<Rightarrow> bytes \<Rightarrow> u64 \<Rightarrow> u64 \<Rightarrow> FlockType \<Rightarrow> (lock_vars, unit) tx" where
  "set_flock_txn K hash generation kernel_owner ty =
    tbind (tput (released_on_conflict_update (\<lambda>_. False))) (\<lambda>_.
    tbind (ReadHolders K hash generation True) (\<lambda>(holders, stored_fields).
    case flock_scan generation kernel_owner ty holders (False, fUnlock, False) of (exists, owned_type, conflict) \<Rightarrow>
    if conflict then
      (if exists \<and> owned_type \<noteq> ty then
         tbind (tput (released_on_conflict_update (\<lambda>_. True))) (\<lambda>_.
         SetState hash (owner_field K generation kernel_owner) [] True)
       else treturn (Inl kWouldBlock))
    else if \<not> exists \<and> ty \<noteq> fUnlock \<and> stored_fields \<ge> kMaxHolders then treturn (Inl kNoLocks)
    else SetState hash (owner_field K generation kernel_owner) (flock_data ty) exists))"

fun set_flock_loop :: "nat \<Rightarrow> nat \<Rightarrow> RedisKey \<Rightarrow> redis \<Rightarrow> lease_view \<Rightarrow> bytes \<Rightarrow> u64 \<Rightarrow> FlockType \<Rightarrow> lock_authority
    \<Rightarrow> unit res \<times> lock_authority" where
  "set_flock_loop 0 attempts K R L hash kernel_owner ty a = (Inl kIOError, a)"
| "set_flock_loop (Suc n) attempts K R L hash kernel_owner ty a =
    (case CheckLease L a of Inl e \<Rightarrow> (Inl e, a)
     | Inr _ \<Rightarrow> (case Transact attempts (set_flock_txn K hash (lv_generation L) kernel_owner ty) R (la_client a) no_vars of
         (status, c', v) \<Rightarrow> (let a1 = a\<lparr>la_client := c'\<rparr> in
           if status = Inl kOutcomeUnknown then set_flock_loop n attempts K R L hash kernel_owner ty a1
           else let a2 = after_lock_txn attempts K R hash status v a1 in
             (case status of Inl e \<Rightarrow> (Inl e, a2)
              | Inr _ \<Rightarrow> (chk (CheckLease L a2) (\<lambda>_. if released_on_conflict v then Inl kWouldBlock else Inr ()), a2)))))"

definition SetFlock :: "nat \<Rightarrow> RedisKey \<Rightarrow> redis \<Rightarrow> lease_view \<Rightarrow> u64 \<Rightarrow> u64 \<Rightarrow> FlockType \<Rightarrow> lock_authority
    \<Rightarrow> unit res \<times> lock_authority" where
  "SetFlock attempts K R L ino kernel_owner ty a =
    set_flock_loop kUncertainAttempts attempts K R L (K_FlockLock K ino) kernel_owner ty a"

section \<open>What the table means\<close>

text \<open>A generation is live while its lease key exists and expires; the locks of an owner are what its field decodes to
  while its generation is live.\<close>

definition live :: "RedisKey \<Rightarrow> keyspace \<Rightarrow> u64 \<Rightarrow> bool" where
  "live K d g \<longleftrightarrow> (\<exists>v e. d (K_OwnerLease K g) = Some (v, Some e))"

definition stored :: "RedisKey \<Rightarrow> keyspace \<Rightarrow> bytes \<Rightarrow> bool \<Rightarrow> u64 \<Rightarrow> u64 \<Rightarrow> Holder option" where
  "stored K d hash flock g k =
    (if live K d g then case fmlookup (hash_at d hash) (owner_field K g k) of
        Some data \<Rightarrow> (case Decode data flock (new_holder g k) of Inr h \<Rightarrow> Some h | Inl _ \<Rightarrow> None)
      | None \<Rightarrow> None
     else None)"

definition posix_of :: "RedisKey \<Rightarrow> keyspace \<Rightarrow> u64 \<Rightarrow> u64 \<Rightarrow> u64 \<Rightarrow> Interval list" where
  "posix_of K d ino g k = (case stored K d (K_PosixLock K ino) False g k of Some h \<Rightarrow> h_ranges h | None \<Rightarrow> [])"

definition flock_of :: "RedisKey \<Rightarrow> keyspace \<Rightarrow> u64 \<Rightarrow> u64 \<Rightarrow> u64 \<Rightarrow> FlockType" where
  "flock_of K d ino g k = (case stored K d (K_FlockLock K ino) True g k of Some h \<Rightarrow> h_flock h | None \<Rightarrow> fUnlock)"

definition compatible :: "(PosixType \<times> u32) option \<Rightarrow> (PosixType \<times> u32) option \<Rightarrow> bool" where
  "compatible a b \<longleftrightarrow> a = None \<or> b = None \<or> map_option fst a = Some pRead \<and> map_option fst b = Some pRead"

definition posix_safe :: "RedisKey \<Rightarrow> keyspace \<Rightarrow> u64 \<Rightarrow> bool" where
  "posix_safe K d ino \<longleftrightarrow> (\<forall>g k g' k' x. (g, k) \<noteq> (g', k') \<longrightarrow>
     compatible (view (posix_of K d ino g k) x) (view (posix_of K d ino g' k') x))"

definition flock_safe :: "RedisKey \<Rightarrow> keyspace \<Rightarrow> u64 \<Rightarrow> bool" where
  "flock_safe K d ino \<longleftrightarrow> (\<forall>g k g' k'. (g, k) \<noteq> (g', k') \<longrightarrow> flock_of K d ino g k = fExclusive \<longrightarrow>
     flock_of K d ino g' k' = fUnlock)"

section \<open>Reading the table gives the live locks\<close>

definition lease_table :: "RedisKey \<Rightarrow> bytes list \<Rightarrow> (u64 \<times> nat) list \<Rightarrow> bool" where
  "lease_table K ks pos \<longleftrightarrow> (\<forall>(g, i)\<in>set pos. i < length ks \<and> ks ! i = K_OwnerLease K g)"

lemma add_lease_table:
  assumes "lease_table K (fst kp) (snd kp)"
  shows "lease_table K (fst (add_lease K g kp)) (snd (add_lease K g kp))" "g \<in> fst ` set (snd (add_lease K g kp))"
    "fst ` set (snd kp) \<subseteq> fst ` set (snd (add_lease K g kp))" "\<exists>ks'. fst (add_lease K g kp) = fst kp @ ks'"
  using assms by (auto simp: add_lease_def lease_table_def nth_append split: if_splits)

lemma lease_table_lookup:
  assumes "lease_table K ks pos" "g \<in> fst ` set pos"
  shows "the (map_of pos g) < length ks \<and> ks ! the (map_of pos g) = K_OwnerLease K g"
proof -
  obtain i where "map_of pos g = Some i"
    using assms(2) by (metis map_of_eq_None_iff not_None_eq)
  then show ?thesis
    using assms(1) map_of_SomeD by (fastforce simp: lease_table_def)
qed

lemma collect_owners_spec:
  "\<lbrakk> collect_owners K es cands kp = Inr (cands', ks', pos'); lease_table K (fst kp) (snd kp) \<rbrakk> \<Longrightarrow>
     lease_table K ks' pos' \<and> fst ` set (snd kp) \<subseteq> fst ` set pos' \<and> (\<exists>ks. ks' = fst kp @ ks)
     \<and> (\<exists>hs. cands' = cands @ hs \<and> list_all2 (\<lambda>(f, _) h. \<exists>g k. ParseOwner K f = Some (g, k) \<and> h = new_holder g k \<and> g \<in> fst ` set pos') es hs)"
proof (induction K es cands kp rule: collect_owners.induct)
  case (1 K cands kp)
  then show ?case
    by auto
next
  case (2 K field data es cands kp)
  obtain g k where po: "ParseOwner K field = Some (g, k)"
    and rec: "collect_owners K es (cands @ [new_holder g k]) (add_lease K g kp) = Inr (cands', ks', pos')"
    using 2(2) by (auto split: option.splits)
  note at = add_lease_table [OF 2(3), of g]
  note IH = 2(1) [OF po refl rec at(1)]
  obtain hs where hs: "cands' = (cands @ [new_holder g k]) @ hs"
      "list_all2 (\<lambda>(f, _) h. \<exists>g k. ParseOwner K f = Some (g, k) \<and> h = new_holder g k \<and> g \<in> fst ` set pos') es hs"
    using IH by blast
  have "g \<in> fst ` set pos'"
    using IH at(2) by blast
  then have "list_all2 (\<lambda>(f, _) h. \<exists>g k. ParseOwner K f = Some (g, k) \<and> h = new_holder g k \<and> g \<in> fst ` set pos')
      ((field, data) # es) (new_holder g k # hs)"
    using hs(2) po by simp
  then show ?case
    using IH at(3,4) hs(1) by (auto intro!: exI [of _ "new_holder g k # hs"])
qed

lemma scan_holders_spec:
  "\<lbrakk> scan_holders flock ttl cs stale hs = (st, Inr hs') \<rbrakk> \<Longrightarrow>
     (\<exists>r. hs' = hs @ r \<and> (\<forall>h\<in>set r. \<exists>(h0, data)\<in>set cs. ttl (h_generation h0) \<ge> 0 \<and> Decode data flock h0 = Inr h)
        \<and> (\<forall>(h0, data)\<in>set cs. ttl (h_generation h0) \<ge> 0 \<longrightarrow> (\<exists>h\<in>set r. Decode data flock h0 = Inr h)))
     \<and> (\<forall>(h0, data)\<in>set cs. ttl (h_generation h0) \<noteq> - 1)"
proof (induction flock ttl cs stale hs rule: scan_holders.induct)
  case (2 flock ttl h data cs stale hs)
  show ?case
  proof (cases "ttl (h_generation h) \<ge> 0")
    case True
    then obtain h' where h': "Decode data flock h = Inr h'" "scan_holders flock ttl cs stale (hs @ [h']) = (st, Inr hs')"
      using 2(3) by (auto simp: Let_def split: if_splits sum.splits)
    obtain r where "hs' = (hs @ [h']) @ r" "\<forall>h\<in>set r. \<exists>(h0, data)\<in>set cs. ttl (h_generation h0) \<ge> 0 \<and> Decode data flock h0 = Inr h"
        "\<forall>(h0, data)\<in>set cs. ttl (h_generation h0) \<ge> 0 \<longrightarrow> (\<exists>h\<in>set r. Decode data flock h0 = Inr h)"
        "\<forall>(h0, data)\<in>set cs. ttl (h_generation h0) \<noteq> - 1"
      using 2(1) [OF refl _ True h'] True by auto
    then show ?thesis
      using True h' by (intro conjI exI [of _ "h' # r"]) auto
  next
    case False
    then show ?thesis
      using 2 by (auto simp: Let_def split: if_splits)
  qed
qed simp

lemma Decode_owner: "Decode data flock h = Inr h' \<Longrightarrow> h_generation h' = h_generation h \<and> h_kernel_owner h' = h_kernel_owner h"
  by (auto simp: Decode_def Let_def result_simps split: if_splits)

locale lock_table = redis_server R + key_schema K for R and K
begin

lemma ttl_classes:
  "ttl_ok (d (K_OwnerLease K g)) n \<Longrightarrow> (n \<ge> 0 \<longleftrightarrow> live K d g) \<and> (n = - 2 \<longrightarrow> \<not> live K d g)"
  by (auto simp: ttl_ok_def live_def split: option.splits prod.splits)

lemma ttl_lookup:
  assumes "list_all2 (\<lambda>k. ttl_ok (d k)) ks ts" "lease_table K ks pos" "g \<in> fst ` set pos"
  shows "ttl_ok (d (K_OwnerLease K g)) (ts ! the (map_of pos g))"
  using lease_table_lookup [OF assms(2,3)] assms(1) by (auto simp: list_all2_conv_all_nth)

lemma ReadHolders_spec:
  assumes run: "ReadHolders K hash gen flock (snap R d) t = (Ret (Inr (hs, n)), t1)"
  shows "\<not> has_writes t \<and> \<not> has_writes t1 \<and> queue t1 = queue t \<and> is_hash d hash \<and> live K d gen"
    and "\<forall>h\<in>set hs. stored K d hash flock (h_generation h) (h_kernel_owner h) = Some h"
    and "\<forall>g k h. stored K d hash flock g k = Some h \<longrightarrow> h \<in> set hs"
    and "\<forall>g k. live K d g \<longrightarrow> fmlookup (hash_at d hash) (owner_field K g k) \<noteq> None \<longrightarrow> stored K d hash flock g k \<noteq> None"
proof -
  obtain c0 t0 t2 es t3 where
    len: "HLen hash (snap R d) t0 = (Ret (Inr c0), t2)" and t0: "t0 = t\<lparr>vars := saw_stale_update (\<lambda>_. False) (vars t)\<rparr>" and
    all: "HGetAll hash (snap R d) t2 = (Ret (Inr es), t3)" and
    r3: "tcheck (collect_owners K es [] ([K_OwnerLease K gen], [(gen, 0)])) (\<lambda>(candidates, lease_keys, lease_positions).
      tbind (PttlBatch lease_keys) (\<lambda>ttl_values. if ttl_values ! 0 \<le> 0 then treturn (Inl kUnavailable) else
      let scan = scan_holders flock (\<lambda>g. ttl_values ! the (map_of lease_positions g)) (zip candidates (map snd es)) False []
      in tbind (tput (saw_stale_update (\<lambda>_. fst scan))) (\<lambda>_.
         tcheck (snd scan) (\<lambda>holders. treturn (Inr (holders, length es)))))) (snap R d) t3 = (Ret (Inr (hs, n)), t1)"
    using run unfolding ReadHolders_def tbind_Inr [of "tput _"] tbind_Inr [of "HLen _"] tbind_Inr [of "HGetAll _"]
      if_tx_Inr tput_eq by blast
  obtain cands ks pos where
    col: "collect_owners K es [] ([K_OwnerLease K gen], [(gen, 0)]) = Inr (cands, ks, pos)" and
    r4: "tbind (PttlBatch ks) (\<lambda>ttl_values. if ttl_values ! 0 \<le> 0 then treturn (Inl kUnavailable) else
      let scan = scan_holders flock (\<lambda>g. ttl_values ! the (map_of pos g)) (zip cands (map snd es)) False []
      in tbind (tput (saw_stale_update (\<lambda>_. fst scan))) (\<lambda>_.
         tcheck (snd scan) (\<lambda>holders. treturn (Inr (holders, length es))))) (snap R d) t3 = (Ret (Inr (hs, n)), t1)"
    using r3 unfolding tcheck_Inr by (auto split: prod.splits)
  obtain ts t4 st where tt: "PttlBatch ks (snap R d) t3 = (Ret (Inr ts), t4)" and ts0: "0 < ts ! 0" and
    sc: "scan_holders flock (\<lambda>g. ts ! the (map_of pos g)) (zip cands (map snd es)) False [] = (st, Inr hs)" and
    t1: "t1 = t4\<lparr>vars := saw_stale_update (\<lambda>_. st) (vars t4)\<rparr>"
  proof -
    obtain ts t4 where "PttlBatch ks (snap R d) t3 = (Ret (Inr ts), t4)" "\<not> ts ! 0 \<le> 0"
      and "tbind (tput (saw_stale_update (\<lambda>_. fst (scan_holders flock (\<lambda>g. ts ! the (map_of pos g)) (zip cands (map snd es)) False []))))
         (\<lambda>_. tcheck (snd (scan_holders flock (\<lambda>g. ts ! the (map_of pos g)) (zip cands (map snd es)) False []))
           (\<lambda>holders. treturn (Inr (holders, length es)))) (snap R d) t4 = (Ret (Inr (hs, n)), t1)"
      using r4 unfolding tbind_Inr [of "PttlBatch _"] if_tx_Inr Let_def by blast
    then show ?thesis
      by (intro that [of ts t4 "fst (scan_holders flock (\<lambda>g. ts ! the (map_of pos g)) (zip cands (map snd es)) False [])"])
        (auto simp: tbind_Inr tput_eq tcheck_Inr treturn_def not_le intro: prod_eqI)
  qed
  note h1 = len [unfolded HLen_Inr]
  note h2 = HGetAll_Inr [OF all]
  note lt = collect_owners_spec [OF col]
  have table: "lease_table K ks pos" "gen \<in> fst ` set pos" "\<exists>ks'. ks = K_OwnerLease K gen # ks'"
    using lt by (auto simp: lease_table_def)
  have owners: "list_all2 (\<lambda>(f, _) h. \<exists>g k. ParseOwner K f = Some (g, k) \<and> h = new_holder g k \<and> g \<in> fst ` set pos) es cands"
    using lt by (auto simp: lease_table_def)
  have ne: "ks \<noteq> []"
    using table(3) by auto
  have hw: "\<not> has_writes t3" "t4 = after_read ks t3" "list_all2 (\<lambda>k. ttl_ok (d k)) ks ts"
    using snap_PttlBatch [OF ne, of d t3] tt h1 h2 by (auto split: if_splits)
  have "live K d gen"
    using ttl_classes [of d gen "ts ! 0"] hw(3) table(3) ts0 by (auto simp: list_all2_Cons1)
  then show "\<not> has_writes t \<and> \<not> has_writes t1 \<and> queue t1 = queue t \<and> is_hash d hash \<and> live K d gen"
    using h1 h2 hw t0 t1 by auto
  have es: "(f, data) \<in> set es \<longleftrightarrow> fmlookup (hash_at d hash) f = Some data" for f data
    using h2 by (metis map_of_SomeD map_of_is_SomeI)
  have fwd: "\<exists>g k. h0 = new_holder g k \<and> g \<in> fst ` set pos \<and> fmlookup (hash_at d hash) (owner_field K g k) = Some data"
    if z: "(h0, data) \<in> set (zip cands (map snd es))" for h0 data
  proof -
    obtain i where i: "i < length es" "h0 = cands ! i" "data = snd (es ! i)"
      using z list_all2_lengthD [OF owners] by (auto simp: set_zip)
    then obtain g k where "ParseOwner K (fst (es ! i)) = Some (g, k)" "h0 = new_holder g k" "g \<in> fst ` set pos"
      using list_all2_nthD [OF owners i(1)] by (auto simp: case_prod_beta)
    moreover have "(fst (es ! i), data) \<in> set es"
      using i by simp
    ultimately show ?thesis
      using es by (metis ParseOwner_SomeD)
  qed
  have bwd: "(new_holder g k, data) \<in> set (zip cands (map snd es))"
    if z: "fmlookup (hash_at d hash) (owner_field K g k) = Some data" for g k data
  proof -
    obtain i where i: "i < length es" "es ! i = (owner_field K g k, data)"
      using z es by (metis in_set_conv_nth)
    then obtain g' k' where "ParseOwner K (owner_field K g k) = Some (g', k')" "cands ! i = new_holder g' k'"
      using list_all2_nthD [OF owners i(1)] by auto
    then have "cands ! i = new_holder g k"
      using ParseOwner_SomeD owner_field_inject by metis
    then show ?thesis
      using i list_all2_lengthD [OF owners] by (auto simp: set_zip intro!: exI [of _ i])
  qed
  have ttl: "ts ! the (map_of pos g) \<ge> 0 \<longleftrightarrow> live K d g" if "g \<in> fst ` set pos" for g
    using ttl_classes ttl_lookup [OF hw(3) table(1) that] by blast
  note sp = scan_holders_spec [OF sc]
  have gen [simp]: "h_generation (new_holder g k) = g" "h_kernel_owner (new_holder g k) = k" for g k
    by (simp_all add: new_holder_def)
  show "\<forall>h\<in>set hs. stored K d hash flock (h_generation h) (h_kernel_owner h) = Some h"
  proof
    fix h
    assume "h \<in> set hs"
    then obtain h0 data where h: "(h0, data) \<in> set (zip cands (map snd es))" "ts ! the (map_of pos (h_generation h0)) \<ge> 0"
        "Decode data flock h0 = Inr h"
      using sp by fastforce
    from fwd [OF h(1)] obtain g k where "h0 = new_holder g k" "g \<in> fst ` set pos"
        "fmlookup (hash_at d hash) (owner_field K g k) = Some data"
      by blast
    then show "stored K d hash flock (h_generation h) (h_kernel_owner h) = Some h"
      using h ttl Decode_owner [OF h(3)] by (simp add: stored_def)
  qed
  have in_pos: "g \<in> fst ` set pos" if "fmlookup (hash_at d hash) (owner_field K g k) = Some data" for g k data
    using fwd [OF bwd [OF that]] by (auto simp: new_holder_def)
  have dec: "\<exists>h\<in>set hs. Decode data flock (new_holder g k) = Inr h"
    if "live K d g" "fmlookup (hash_at d hash) (owner_field K g k) = Some data" for g k data
    using sp bwd [OF that(2)] ttl [OF in_pos [OF that(2)]] that(1) by fastforce
  show "\<forall>g k h. stored K d hash flock g k = Some h \<longrightarrow> h \<in> set hs"
    using dec by (fastforce simp: stored_def split: if_splits option.splits sum.splits)
  show "\<forall>g k. live K d g \<longrightarrow> fmlookup (hash_at d hash) (owner_field K g k) \<noteq> None \<longrightarrow> stored K d hash flock g k \<noteq> None"
    using dec by (fastforce simp: stored_def split: if_splits option.splits sum.splits)
qed

lemma ReadHolders_stored:
  assumes "ReadHolders K hash gen flock (snap R d) t = (Ret (Inr (hs, n)), t1)"
  shows "h \<in> set hs \<longleftrightarrow> stored K d hash flock (h_generation h) (h_kernel_owner h) = Some h"
    and "stored K d hash flock g k = Some h \<Longrightarrow> h \<in> set hs \<and> h_generation h = g \<and> h_kernel_owner h = k"
proof -
  note sp = ReadHolders_spec [OF assms]
  show "h \<in> set hs \<longleftrightarrow> stored K d hash flock (h_generation h) (h_kernel_owner h) = Some h"
    using sp(2,3) by blast
  assume st: "stored K d hash flock g k = Some h"
  then have "h_generation h = g \<and> h_kernel_owner h = k"
    by (auto simp: stored_def new_holder_def split: if_splits option.splits sum.splits dest!: Decode_owner)
  then show "h \<in> set hs \<and> h_generation h = g \<and> h_kernel_owner h = k"
    using sp(3) st by blast
qed

lemma SetState_effect:
  fixes t' d hash
  defines "d' \<equiv> fst (exec_cmds (queue t') d)"
  assumes run: "SetState hash (owner_field K g k) data present (snap R d) t = (Ret (Inr u), t')"
    and d: "is_hash d hash" "queue t = []" and lease: "\<And>g. K_OwnerLease K g \<noteq> hash"
  shows "has_writes t'" "\<And>x. x \<noteq> hash \<Longrightarrow> d' x = d x" "is_hash d' hash" "live K d' = live K d"
    "stored K d' hash flock g' k' = (if g' = g \<and> k' = k then
        (if live K d g \<and> data \<noteq> [] then case Decode data flock (new_holder g k) of Inr h \<Rightarrow> Some h | Inl _ \<Rightarrow> None else None)
      else stored K d hash flock g' k')"
proof -

  show w: "has_writes t'"
    using run by (auto simp: SetState_def snap_simps split: if_splits)
  have eff: "(\<forall>x. x \<noteq> hash \<longrightarrow> d' x = d x) \<and> is_hash d' hash
    \<and> (\<forall>f. f \<noteq> kFenceField \<longrightarrow> fmlookup (hash_at d' hash) f =
        (if f = owner_field K g k then (if data = [] then None else Some data) else fmlookup (hash_at d hash) f))"
  proof -
    have ne: "owner_field K g k \<noteq> kFenceField"
      by (rule owner_field_not_fence)
    consider (set) "data \<noteq> []" "queue t' = [CHSet hash (owner_field K g k) data]"
      | (del) "data = []" "queue t' = [CHDel hash (owner_field K g k)]"
      | (fence) "data = []" "queue t' = [CHSet hash kFenceField (ascii ''1''), CHDel hash (owner_field K g k), CHDel hash kFenceField]"
      using run d(2) by (auto simp: SetState_def snap_simps split: if_splits)
    then show ?thesis
      using d(1) ne by cases (auto simp: d'_def exec_simps exec_frame cmd_key_def)
  qed
  then show frame: "\<And>x. x \<noteq> hash \<Longrightarrow> d' x = d x" "is_hash d' hash"
    by auto
  then show live: "live K d' = live K d"
    using lease by (simp add: live_def fun_eq_iff)
  show "stored K d' hash flock g' k' = (if g' = g \<and> k' = k then
        (if live K d g \<and> data \<noteq> [] then case Decode data flock (new_holder g k) of Inr h \<Rightarrow> Some h | Inl _ \<Rightarrow> None else None)
      else stored K d hash flock g' k')"
    using eff owner_field_not_fence by (auto simp: stored_def live owner_field_inject)
qed

lemma own_ranges_spec:
  "own_ranges g k q hs acc = Inr (present, owned) \<Longrightarrow>
     (\<forall>h\<in>set hs. \<not> (h_generation h = g \<and> h_kernel_owner h = k) \<longrightarrow> iv_type q \<noteq> pUnlock \<longrightarrow> (\<forall>other\<in>set (h_ranges h). \<not> conflicts q other))
   \<and> ((\<exists>h\<in>set hs. h_generation h = g \<and> h_kernel_owner h = k \<and> present \<and> owned = h_ranges h)
      \<or> (\<forall>h\<in>set hs. \<not> (h_generation h = g \<and> h_kernel_owner h = k)) \<and> (present, owned) = acc)"
proof (induction g k q hs acc rule: own_ranges.induct)
  case (2 g k q h hs acc)
  show ?case
  proof (cases "h_generation h = g \<and> h_kernel_owner h = k")
    case True
    then show ?thesis
      using 2(1) [OF True] 2(3) True by (simp only: own_ranges.simps if_True list.set ball_simps bex_simps simp_thms) blast
  next
    case False
    have c: "\<not> (iv_type q \<noteq> pUnlock \<and> (\<exists>other\<in>set (h_ranges h). conflicts q other))"
      using 2(3) False by (metis Inl_Inr_False own_ranges.simps(2))
    then have "own_ranges g k q hs acc = Inr (present, owned)"
      using 2(3) False by (simp only: own_ranges.simps if_False)
    note IH = 2(2) [OF False c this]
    have "\<forall>other\<in>set (h_ranges h). iv_type q \<noteq> pUnlock \<longrightarrow> \<not> conflicts q other"
      using c by blast
    with IH show ?thesis
      using False unfolding list.set ball_simps bex_simps by blast
  qed
qed simp

lemma posix_of_canonical: "canonical (posix_of K d ino g k)"
proof (cases "stored K d (K_PosixLock K ino) False g k")
  case None
  then show ?thesis
    by (simp add: posix_of_def canonical_def)
next
  case (Some h)
  then show ?thesis
    by (auto simp: posix_of_def stored_def new_holder_def split: if_splits option.splits sum.splits dest!: Decode_canonical)
qed

lemma compatible_view:
  assumes "iv_type q \<noteq> pUnlock" "canonical rs" "\<forall>other\<in>set rs. \<not> conflicts q other" "holds q x"
  shows "compatible (Some (tag q)) (view rs x)"
proof (cases "view rs x")
  case (Some v)
  then obtain a where a: "a \<in> set rs" "holds a x" "v = tag a"
    using view_Some by blast
  then have "Overlaps q a" "wf_iv a"
    using assms(2,4) by (auto simp: Overlaps_def holds_def canonical_def dest: separated_wf)
  then have "iv_type q = pRead" "iv_type a = pRead"
    using assms(1,3) a(1) by (auto simp: conflicts_def wf_iv_def) (metis PosixType.exhaust)+
  then show ?thesis
    using Some a(3) by (simp add: compatible_def tag_def)
qed (simp add: compatible_def)

end

text \<open>The step a granted record-lock request takes on the table of an inode: the locks of every other owner stay as
  they are and are compatible with the request, and the caller holds what it asked for in the requested range.\<close>

definition posix_step :: "RedisKey \<Rightarrow> u64 \<Rightarrow> u64 \<Rightarrow> u64 \<Rightarrow> Interval \<Rightarrow> keyspace \<Rightarrow> keyspace \<Rightarrow> bool" where
  "posix_step K ino g k q d d' \<longleftrightarrow> live K d g \<and> (\<forall>x. x \<noteq> K_PosixLock K ino \<longrightarrow> d' x = d x)
     \<and> (\<forall>g' k'. (g', k') \<noteq> (g, k) \<longrightarrow> posix_of K d' ino g' k' = posix_of K d ino g' k'
          \<and> (\<forall>x. iv_type q \<noteq> pUnlock \<and> holds q x \<longrightarrow> compatible (Some (tag q)) (view (posix_of K d ino g' k') x)))
     \<and> (\<forall>x. view (posix_of K d' ino g k) x =
          (if holds q x then (if iv_type q = pUnlock then None else Some (tag q)) else view (posix_of K d ino g k) x))"

lemma compatible_sym: "compatible a b \<longleftrightarrow> compatible b a"
  by (auto simp: compatible_def)

lemma posix_step_safe:
  assumes "posix_step K ino g k q d d'" "posix_safe K d ino"
  shows "posix_safe K d' ino"
proof -
  have own: "compatible (view (posix_of K d' ino g k) x) (view (posix_of K d' ino g' k') x)" if "(g', k') \<noteq> (g, k)" for g' k' x
    using assms that unfolding posix_step_def posix_safe_def by (auto simp: compatible_def [of None])
  show ?thesis
    unfolding posix_safe_def
  proof (intro allI impI)
    fix g1 k1 g2 k2 x :: u64
    assume ne: "(g1, k1) \<noteq> (g2, k2)"
    show "compatible (view (posix_of K d' ino g1 k1) x) (view (posix_of K d' ino g2 k2) x)"
    proof (cases "(g1, k1) = (g, k) \<or> (g2, k2) = (g, k)")
      case True
      then show ?thesis
        using own [of g2 k2 x] own [of g1 k1 x] ne by (metis compatible_sym prod.inject)
    next
      case False
      then show ?thesis
        using assms ne unfolding posix_step_def posix_safe_def by auto
    qed
  qed
qed

context lock_table
begin

lemma lease_not_lock: "K_OwnerLease K g \<noteq> K_PosixLock K ino" "K_OwnerLease K g \<noteq> K_FlockLock K ino"
  "K_PosixLock K i \<noteq> K_FlockLock K ino"
  by simp_all

lemma set_posix_step:
  assumes run: "set_posix_txn K (K_PosixLock K ino) g k q (snap R d) (new_txn i v) = (Ret (Inr u), t)"
    and q: "iv_start q < iv_end q" "0 \<le> sint (iv_pid q)"
  shows "has_writes t \<and> posix_step K ino g k q d (fst (exec_cmds (queue t) d))"
proof -
  obtain hs n t1 where rd: "ReadHolders K (K_PosixLock K ino) g False (snap R d) (new_txn i v) = (Ret (Inr (hs, n)), t1)"
    and r2: "tcheck (own_ranges g k q hs (False, [])) (\<lambda>(exists, owned). tcheck (UpdateRanges K owned q) (\<lambda>owned'.
      if \<not> exists \<and> owned' \<noteq> [] \<and> n \<ge> kMaxHolders then treturn (Inl kNoLocks)
      else SetState (K_PosixLock K ino) (owner_field K g k) (if owned' = [] then [] else Encode K owned') exists)) (snap R d) t1
      = (Ret (Inr u), t)"
    using run unfolding set_posix_txn_def tbind_Inr by auto
  obtain present owned rs where own: "own_ranges g k q hs (False, []) = Inr (present, owned)" and up: "UpdateRanges K owned q = Inr rs"
    and st: "SetState (K_PosixLock K ino) (owner_field K g k) (if rs = [] then [] else Encode K rs) present (snap R d) t1 = (Ret (Inr u), t)"
    using r2 unfolding tcheck_Inr by (fastforce simp: tcheck_Inr if_tx_Inr)
  note rh = ReadHolders_spec(1) [OF rd]
  note hold = ReadHolders_stored [OF rd]
  note os = own_ranges_spec [OF own]
  have owned: "owned = posix_of K d ino g k"
  proof (cases "stored K d (K_PosixLock K ino) False g k")
    case None
    then have "\<forall>h\<in>set hs. \<not> (h_generation h = g \<and> h_kernel_owner h = k)"
      using hold(1) by force
    then show ?thesis
      using os None by (auto simp: posix_of_def)
  next
    case (Some h)
    then have "h \<in> set hs" "h_generation h = g" "h_kernel_owner h = k"
      using hold(2) by blast+
    then obtain h' where "h' \<in> set hs" "h_generation h' = g" "h_kernel_owner h' = k" "owned = h_ranges h'"
      using os by blast
    then show ?thesis
      using hold(1) [of h'] by (simp add: posix_of_def)
  qed
  have rs: "rs = next_ranges owned q" "length rs \<le> kMaxIntervals" "length (Encode K rs) \<le> kMaxValueBytes"
    using up by (auto simp: UpdateRanges_def Let_def split: if_splits)
  have sep: "separated owned"
    using posix_of_canonical unfolding owned canonical_def by blast
  note nr = next_ranges_correct [OF q sep, folded rs(1)]
  have eff: "has_writes t" "\<And>x. x \<noteq> K_PosixLock K ino \<Longrightarrow> fst (exec_cmds (queue t) d) x = d x"
    "\<And>g' k'. stored K (fst (exec_cmds (queue t) d)) (K_PosixLock K ino) False g' k' = (if g' = g \<and> k' = k then
        (if live K d g \<and> (if rs = [] then [] else Encode K rs) \<noteq> [] then case Decode (if rs = [] then [] else Encode K rs) False (new_holder g k) of Inr h \<Rightarrow> Some h | Inl _ \<Rightarrow> None else None)
      else stored K d (K_PosixLock K ino) False g' k')"
    using SetState_effect [OF st _ _ lease_not_lock(1)] rh by simp_all
  have new: "posix_of K (fst (exec_cmds (queue t) d)) ino g k = rs"
    using Decode_Encode [OF nr(1) _ rs(2,3), of "new_holder g k"] eff(3) [of g k] rh
    by (auto simp: posix_of_def new_holder_def Encode_def)
  have compat: "compatible (Some (tag q)) (view (posix_of K d ino g' k') x)"
    if ne: "(g', k') \<noteq> (g, k)" "iv_type q \<noteq> pUnlock" "holds q x" for g' k' x
  proof -
    have "\<forall>other\<in>set (posix_of K d ino g' k'). \<not> conflicts q other"
    proof (cases "stored K d (K_PosixLock K ino) False g' k'")
      case (Some h)
      then have "h \<in> set hs" "h_generation h = g'" "h_kernel_owner h = k'"
        using hold(2) by blast+
      then have "\<forall>other\<in>set (h_ranges h). \<not> conflicts q other"
        using os ne(1,2) by blast
      then show ?thesis
        using Some by (simp add: posix_of_def)
    qed (simp add: posix_of_def)
    then show ?thesis
      using compatible_view [OF ne(2) posix_of_canonical _ ne(3)] by blast
  qed
  show ?thesis
    using eff new nr(2) compat rh by (auto simp: posix_step_def posix_of_def owned)
qed

end

section \<open>Whole-file locks and cleaning\<close>

text \<open>The step of a whole-file lock request: it ends unlocked, or holding the requested mode next to no incompatible
  holder.\<close>

definition flock_step :: "RedisKey \<Rightarrow> u64 \<Rightarrow> u64 \<Rightarrow> u64 \<Rightarrow> FlockType \<Rightarrow> keyspace \<Rightarrow> keyspace \<Rightarrow> bool" where
  "flock_step K ino g k ty d d' \<longleftrightarrow> live K d g \<and> (\<forall>x. x \<noteq> K_FlockLock K ino \<longrightarrow> d' x = d x)
     \<and> (\<forall>g' k'. (g', k') \<noteq> (g, k) \<longrightarrow> flock_of K d' ino g' k' = flock_of K d ino g' k')
     \<and> (flock_of K d' ino g k = fUnlock \<or> flock_of K d' ino g k = ty
        \<and> (\<forall>g' k'. (g', k') \<noteq> (g, k) \<longrightarrow> (ty = fExclusive \<longrightarrow> flock_of K d ino g' k' = fUnlock)
             \<and> (ty = fShared \<longrightarrow> flock_of K d ino g' k' \<noteq> fExclusive)))"

text \<open>The step of cleaning: only fields of owners whose generation has no lease disappear.\<close>

definition cleanup_step :: "RedisKey \<Rightarrow> bytes \<Rightarrow> keyspace \<Rightarrow> keyspace \<Rightarrow> bool" where
  "cleanup_step K hash d d' \<longleftrightarrow> (\<forall>x. x \<noteq> hash \<longrightarrow> d' x = d x)
     \<and> (\<forall>f. fmlookup (hash_at d' hash) f \<noteq> fmlookup (hash_at d hash) f \<longrightarrow>
          fmlookup (hash_at d' hash) f = None \<and> (\<exists>g k. f = owner_field K g k \<and> \<not> live K d g))"

lemma flock_scan_spec:
  "flock_scan g k ty hs acc = (present, ot, cf) \<Longrightarrow>
     cf = (snd (snd acc) \<or> (\<exists>h\<in>set hs. \<not> (h_generation h = g \<and> h_kernel_owner h = k) \<and> ty \<noteq> fUnlock \<and> (ty = fExclusive \<or> h_flock h = fExclusive)))"
proof (induction g k ty hs acc rule: flock_scan.induct)
  case (2 g k ty h hs present' owned_type conflict)
  then show ?case
    by (cases "h_generation h = g \<and> h_kernel_owner h = k") auto
qed simp

lemma stale_candidates_spec:
  "\<lbrakk> stale_candidates K es cs kp = (cs', ks', pos'); lease_table K (fst kp) (snd kp) \<rbrakk> \<Longrightarrow>
     lease_table K ks' pos' \<and> fst ` set (snd kp) \<subseteq> fst ` set pos'
     \<and> (\<forall>(f, g)\<in>set cs'. (f, g) \<in> set cs \<or> g \<in> fst ` set pos' \<and> (\<exists>k. ParseOwner K f = Some (g, k)))"
proof (induction K es cs kp rule: stale_candidates.induct)
  case (2 K field data es cs kp)
  show ?case
  proof (cases "ParseOwner K field")
    case None
    then show ?thesis
      using 2 by simp
  next
    case (Some gk)
    then obtain g k where po: "ParseOwner K field = Some (g, k)"
      by (cases gk) auto
    then have "stale_candidates K es (cs @ [(field, g)]) (add_lease K g kp) = (cs', ks', pos')"
      using 2(3) by simp
    note IH = 2(2) [OF po refl this add_lease_table(1) [OF 2(4)]]
    have "g \<in> fst ` set pos'" "fst ` set (snd kp) \<subseteq> fst ` set pos'"
      using IH add_lease_table(2,3) [OF 2(4), of g] by blast+
    then show ?thesis
      using IH po by auto
  qed
qed auto

lemma tseq_HDel:
  "tseq (map (HDel hash) fs) (snap R d) t = (Ret (Inr u), t') \<Longrightarrow> queue t' = queue t @ map (CHDel hash) fs"
  by (induction fs arbitrary: t) (auto simp: snap_simps)

lemma exec_hdels:
  "fmlookup (hash_at (fst (exec_cmds (map (CHDel hash) fs) d)) hash) f = (if f \<in> set fs then None else fmlookup (hash_at d hash) f)"
  by (induction fs arbitrary: d) (auto simp: exec_simps)

lemma flock_step_safe:
  assumes "flock_step K ino g k ty d d'" "flock_safe K d ino"
  shows "flock_safe K d' ino"
  unfolding flock_safe_def
proof (intro allI impI)
  fix g1 k1 g2 k2 :: u64
  assume ne: "(g1, k1) \<noteq> (g2, k2)" and ex: "flock_of K d' ino g1 k1 = fExclusive"
  consider "(g1, k1) = (g, k)" | "(g2, k2) = (g, k)" | "(g1, k1) \<noteq> (g, k)" "(g2, k2) \<noteq> (g, k)"
    by blast
  then show "flock_of K d' ino g2 k2 = fUnlock"
    using assms ne ex unfolding flock_step_def flock_safe_def by cases (auto, (metis FlockType.exhaust FlockType.distinct)+)
qed

context lock_table
begin

lemma cleanup_stored:
  assumes "cleanup_step K hash d d'" "\<And>g. K_OwnerLease K g \<noteq> hash"
  shows "stored K d' h flock g k = stored K d h flock g k"
proof -
  have live: "live K d' g = live K d g"
    using assms by (simp add: cleanup_step_def live_def)
  have "fmlookup (hash_at d' h) (owner_field K g k) = fmlookup (hash_at d h) (owner_field K g k)" if "live K d g"
  proof (cases "h = hash")
    case True
    then show ?thesis
      using assms(1) that unfolding cleanup_step_def by (metis owner_field_inject)
  next
    case False
    then show ?thesis
      using assms(1) by (simp add: cleanup_step_def hash_at_def)
  qed
  then show ?thesis
    by (simp add: stored_def live)
qed

lemma cleanup_run:
  assumes run: "cleanup_txn K hash cur (snap R d) (new_txn i v) = (Ret (Inr nxt), t)"
  shows "cleanup_step K hash d (fst (exec_cmds (queue t) d))"
proof -
  obtain es c t1 where sc: "HScan hash cur 128 (snap R d) (new_txn i v) = (Ret (Inr (es, c)), t1)"
    and r1: "(case stale_candidates K es [] ([], []) of (candidates, lease_keys, lease_positions) \<Rightarrow>
      tbind (PttlBatch lease_keys) (\<lambda>ttl_values.
      tbind (tseq (map (\<lambda>(field, g). HDel hash field)
        (filter (\<lambda>(field, g). ttl_values ! the (map_of lease_positions g) = - 2) candidates))) (\<lambda>_.
      treturn (Inr c)))) (snap R d) t1 = (Ret (Inr nxt), t)"
    using run unfolding cleanup_txn_def tbind_Inr [of "HScan _ _ _"] by auto
  have t1: "queue t1 = []"
    using sc by (auto simp: snap_HScan split: if_splits)
  obtain cs ks pos where st: "stale_candidates K es [] ([], []) = (cs, ks, pos)"
    using prod_cases3 by blast
  have spec: "lease_table K ks pos" "\<forall>(f, g)\<in>set cs. g \<in> fst ` set pos \<and> (\<exists>k. ParseOwner K f = Some (g, k))"
    using stale_candidates_spec [OF st] by (auto simp: lease_table_def)
  obtain ts t2 where tt: "PttlBatch ks (snap R d) t1 = (Ret (Inr ts), t2)"
    and r2: "tseq (map (HDel hash) (map fst (filter (\<lambda>(field, g). ts ! the (map_of pos g) = - 2) cs))) (snap R d) t2
      = (Ret (Inr ()), t)"
    using r1 by (auto simp: st tbind_Inr treturn_eq comp_def case_prod_unfold)
  have ttl: "list_all2 (\<lambda>k. ttl_ok (d k)) ks ts" "queue t2 = []"
  proof -
    show "list_all2 (\<lambda>k. ttl_ok (d k)) ks ts" "queue t2 = []"
      using tt snap_PttlBatch [of ks d t1] t1 by (cases "ks = []"; auto simp: PttlBatch_Nil split: if_splits)+
  qed
  define fs where "fs = map fst (filter (\<lambda>(field, g). ts ! the (map_of pos g) = - 2) cs)"
  have q: "queue t = map (CHDel hash) fs"
    using tseq_HDel [OF r2 [folded fs_def]] ttl(2) by simp
  have dead: "\<exists>g k. f = owner_field K g k \<and> \<not> live K d g" if f: "f \<in> set fs" for f
  proof -
    obtain g where g: "(f, g) \<in> set cs" "ts ! the (map_of pos g) = - 2"
      using f by (auto simp: fs_def)
    obtain k where "ParseOwner K f = Some (g, k)" "g \<in> fst ` set pos"
      using bspec [OF spec(2) g(1)] by auto
    then show ?thesis
      using ttl_lookup [OF ttl(1) spec(1)] ttl_classes g(2) by (metis ParseOwner_SomeD)
  qed
  have "fst (exec_cmds (map (CHDel hash) fs) d) x = d x" if "x \<noteq> hash" for x
    using that by (intro exec_cmds_frame) (auto simp: cmd_key_def)
  then show ?thesis
    unfolding cleanup_step_def q using dead by (auto simp: exec_hdels)
qed

lemma set_flock_step:
  assumes run: "set_flock_txn K (K_FlockLock K ino) g k ty (snap R d) (new_txn i v) = (Ret (Inr u), t)"
  shows "has_writes t \<and> flock_step K ino g k ty d (fst (exec_cmds (queue t) d))
    \<and> (\<not> released_on_conflict (vars t) \<longrightarrow> flock_of K (fst (exec_cmds (queue t) d)) ino g k = ty)"
proof -
  define t0 where "t0 = (new_txn i v)\<lparr>vars := released_on_conflict_update (\<lambda>_. False) v\<rparr>"
  obtain hs n t1 where rd: "ReadHolders K (K_FlockLock K ino) g True (snap R d) t0 = (Ret (Inr (hs, n)), t1)"
    and r1: "(case flock_scan g k ty hs (False, fUnlock, False) of (exists, owned_type, conflict) \<Rightarrow>
      if conflict then
        (if exists \<and> owned_type \<noteq> ty then
           tbind (tput (released_on_conflict_update (\<lambda>_. True))) (\<lambda>_.
           SetState (K_FlockLock K ino) (owner_field K g k) [] True)
         else treturn (Inl kWouldBlock))
      else if \<not> exists \<and> ty \<noteq> fUnlock \<and> n \<ge> kMaxHolders then treturn (Inl kNoLocks)
      else SetState (K_FlockLock K ino) (owner_field K g k) (flock_data ty) exists) (snap R d) t1 = (Ret (Inr u), t)"
    using run unfolding set_flock_txn_def tbind_Inr [of "tput _"] tbind_Inr [of "ReadHolders _ _ _ _"] tput_eq
    by (auto simp: t0_def)
  obtain present ot cf where fs: "flock_scan g k ty hs (False, fUnlock, False) = (present, ot, cf)"
    using prod_cases3 by blast
  note rh = ReadHolders_spec(1) [OF rd]
  note hold = ReadHolders_stored [OF rd]
  have q1: "is_hash d (K_FlockLock K ino)" "queue t1 = []" "live K d g"
    using rh by (simp_all add: t0_def)
  have compat: "(ty = fExclusive \<longrightarrow> flock_of K d ino g' k' = fUnlock) \<and> (ty = fShared \<longrightarrow> flock_of K d ino g' k' \<noteq> fExclusive)"
    if "\<not> cf" "(g', k') \<noteq> (g, k)" for g' k'
  proof (cases "stored K d (K_FlockLock K ino) True g' k'")
    case (Some h)
    then have "h \<in> set hs" "h_generation h = g'" "h_kernel_owner h = k'"
      using hold(2) by blast+
    then have "\<not> (ty \<noteq> fUnlock \<and> (ty = fExclusive \<or> h_flock h = fExclusive))"
      using flock_scan_spec [OF fs] that by auto
    then show ?thesis
      using Some by (auto simp: flock_of_def)
  qed (simp add: flock_of_def)
  consider (release) t2 where "cf" "t2 = t1\<lparr>vars := released_on_conflict_update (\<lambda>_. True) (vars t1)\<rparr>"
      "SetState (K_FlockLock K ino) (owner_field K g k) [] True (snap R d) t2 = (Ret (Inr u), t)"
    | (grant) "\<not> cf" "SetState (K_FlockLock K ino) (owner_field K g k) (flock_data ty) present (snap R d) t1 = (Ret (Inr u), t)"
    using r1 by (auto simp: fs tbind_Inr tput_eq treturn_eq split: if_splits)
  then show ?thesis
  proof cases
    case release
    note eff = SetState_effect [OF release(3) q1(1) _ lease_not_lock(2)]
    have "released_on_conflict (vars t)"
      using release(2,3) by (auto simp: SetState_def snap_simps)
    then show ?thesis
      using eff(1,2) eff(5) [of True] release(2) q1 by (simp add: flock_step_def flock_of_def)
  next
    case grant
    note eff = SetState_effect [OF grant(2) q1(1,2) lease_not_lock(2)]
    have "flock_of K (fst (exec_cmds (queue t) d)) ino g k = ty"
      using eff(5) [of True g k] q1 by (cases ty) (simp_all add: flock_of_def flock_data_def Decode_def kMaxValueBytes_def new_holder_def)
    then show ?thesis
      using eff(1,2) eff(5) [of True] q1 compat [OF grant(1)] by (auto simp: flock_step_def flock_of_def)
  qed
qed

lemma kv_ReadHolders [kv_intros]: "kv_prog R (ReadHolders K hash gen flock)"
  unfolding ReadHolders_def Let_def by (auto intro!: kv_intros split: prod.splits)

lemma kv_lock_txns [kv_intros]:
  "kv_prog R (set_posix_txn K hash g k q)" "kv_prog R (cleanup_txn K hash cur)" "kv_prog R (set_flock_txn K hash g k ty)"
  "kv_prog R (get_posix_txn K hash g k q)"
  unfolding set_posix_txn_def cleanup_txn_def set_flock_txn_def get_posix_txn_def SetState_def
  by (auto intro!: kv_intros split: prod.splits)

text \<open>What the operations do to the shared state. \<open>lock_step\<close> collects the three kinds of step.\<close>

lemma cleanup_steps: "steps (cleanup_step K hash) (la_client a) (la_client (CleanupStale n K R hash a))"
proof -
  define cur where "cur = (case map_of (gc_cursors a) hash of Some c \<Rightarrow> c | None \<Rightarrow> 0)"
  obtain r c' v where tr: "Transact n (cleanup_txn K hash cur) R (la_client a) \<lparr>saw_stale = False, released_on_conflict = False\<rparr>
      = (r, c', v)"
    using prod_cases3 by blast
  have "la_client (CleanupStale n K R hash a) = c'"
    by (simp add: CleanupStale_def Let_def tr flip: cur_def split: sum.splits)
  then show ?thesis
    using Transact_steps [OF kv_lock_txns(2) tr] cleanup_run by metis
qed

lemma after_lock_steps:
  "steps (cleanup_step K hash) (la_client a) (la_client (after_lock_txn n K R hash r v a))"
  by (simp add: after_lock_txn_def cleanup_steps)

text \<open>A round of a lock operation: the transaction, then possibly a cleaning.\<close>

lemma lock_round:
  assumes kv: "kv_prog R m" and tr: "Transact n m R (la_client a) no_vars = (r, c', v')"
    and run: "\<forall>d v x i t. m (snap R d) (new_txn i v) = (Ret (Inr x), t) \<longrightarrow> has_writes t \<and> P d (fst (exec_cmds (queue t) d)) \<and> Q (vars t) d (fst (exec_cmds (queue t) d))"
    and a1: "a1 = a\<lparr>la_client := c'\<rparr>" and a2: "a2 = after_lock_txn n K R hash r v' a1"
  shows "steps (\<lambda>d d'. P d d' \<or> cleanup_step K hash d d') (la_client a) (la_client a1)"
    "steps (\<lambda>d d'. P d d' \<or> cleanup_step K hash d d') (la_client a) (la_client a2)"
    "r = Inr x \<Longrightarrow> \<exists>d d'. effect_in R (la_client a) (la_client a2) d d' \<and> P d d' \<and> Q v' d d'"
proof -
  have "steps P (la_client a) c'"
    using run by (intro Transact_steps [OF kv tr]) blast
  then show 1: "steps (\<lambda>d d'. P d d' \<or> cleanup_step K hash d d') (la_client a) (la_client a1)"
    by (auto simp: a1 elim: steps_mono)
  have 2: "steps (cleanup_step K hash) (la_client a1) (la_client a2)"
    unfolding a2 by (rule after_lock_steps)
  then show "steps (\<lambda>d d'. P d d' \<or> cleanup_step K hash d d') (la_client a) (la_client a2)"
    by (intro steps_trans [OF 1]) (auto elim: steps_mono)
  assume "r = Inr x"
  then obtain d d' where "effect_in R (la_client a) c' d d'" "P d d' \<and> Q v' d d'"
    using Transact_effect [OF kv, of n "la_client a" no_vars x c' v' "\<lambda>v d d'. P d d' \<and> Q v d d'"] tr run by blast
  then show "\<exists>d d'. effect_in R (la_client a) (la_client a2) d d' \<and> P d d' \<and> Q v' d d'"
    using effect_in_mono [OF _ steps_refl, of R "la_client a" c'] 2 unfolding a1 by (simp, blast)
qed

lemma posix_loop_steps:
  fixes L ino k q
  defines "P \<equiv> posix_step K ino (lv_generation L) k q" and "hash \<equiv> K_PosixLock K ino"
  assumes q: "iv_start q < iv_end q" "0 \<le> sint (iv_pid q)"
  shows "set_posix_loop m n K R L hash k q a = (r, a') \<Longrightarrow>
    steps (\<lambda>d d'. P d d' \<or> cleanup_step K hash d d') (la_client a) (la_client a')
    \<and> (r = Inr () \<longrightarrow> lv_can_grant L (sent (la_client a')) \<and> (\<exists>d d'. effect_in R (la_client a) (la_client a') d d' \<and> P d d'))"
proof (induction m arbitrary: a)
  case (Suc m)
  show ?case
  proof (cases "lv_can_grant L (sent (la_client a))")
    case False
    then show ?thesis
      using Suc.prems by (auto simp: CheckLease_def)
  next
    case True
    obtain st c1 v1 where tr: "Transact n (set_posix_txn K hash (lv_generation L) k q) R (la_client a) no_vars = (st, c1, v1)"
      using prod_cases3 by blast
    define a1 where "a1 = a\<lparr>la_client := c1\<rparr>"
    define a2 where "a2 = after_lock_txn n K R hash st v1 a1"
    have "\<forall>d v x i t. set_posix_txn K hash (lv_generation L) k q (snap R d) (new_txn i v) = (Ret (Inr x), t) \<longrightarrow>
        has_writes t \<and> P d (fst (exec_cmds (queue t) d)) \<and> True"
      using set_posix_step [OF _ q] unfolding P_def hash_def by blast
    note rnd = lock_round [OF kv_lock_txns(1) tr this a1_def a2_def]
    show ?thesis
    proof (cases "st = Inl kOutcomeUnknown")
      case unknown: True
      then have "set_posix_loop m n K R L hash k q a1 = (r, a')"
        using Suc.prems True tr by (simp add: CheckLease_def a1_def)
      note IH = Suc.IH [OF this]
      then show ?thesis
        using rnd(1) steps_trans [OF rnd(1)] effect_in_mono [OF _ rnd(1) steps_refl] by blast
    next
      case False
      then have r: "r = (if ok st then CheckLease L a2 else st)" and a': "a' = a2"
        using Suc.prems True tr by (auto simp: CheckLease_def [of L a] a1_def a2_def Let_def)
      have "st = Inr ()" "lv_can_grant L (sent (la_client a2))" if "r = Inr ()"
        using that r by (auto simp: CheckLease_def split: if_splits) (cases st; simp)
      then show ?thesis
        using rnd(2) rnd(3) [of "()"] a' by blast
    qed
  qed
qed auto

lemma flock_loop_steps:
  fixes L ino k ty
  defines "P \<equiv> flock_step K ino (lv_generation L) k ty" and "hash \<equiv> K_FlockLock K ino"
  shows "set_flock_loop m n K R L hash k ty a = (r, a') \<Longrightarrow>
    steps (\<lambda>d d'. P d d' \<or> cleanup_step K hash d d') (la_client a) (la_client a')
    \<and> (r = Inr () \<longrightarrow> lv_can_grant L (sent (la_client a'))
        \<and> (\<exists>d d'. effect_in R (la_client a) (la_client a') d d' \<and> P d d' \<and> flock_of K d' ino (lv_generation L) k = ty))"
proof (induction m arbitrary: a)
  case (Suc m)
  show ?case
  proof (cases "lv_can_grant L (sent (la_client a))")
    case False
    then show ?thesis
      using Suc.prems by (auto simp: CheckLease_def)
  next
    case True
    obtain st c1 v1 where tr: "Transact n (set_flock_txn K hash (lv_generation L) k ty) R (la_client a) no_vars = (st, c1, v1)"
      using prod_cases3 by blast
    define a1 where "a1 = a\<lparr>la_client := c1\<rparr>"
    define a2 where "a2 = after_lock_txn n K R hash st v1 a1"
    have "\<forall>d v x i t. set_flock_txn K hash (lv_generation L) k ty (snap R d) (new_txn i v) = (Ret (Inr x), t) \<longrightarrow>
        has_writes t \<and> P d (fst (exec_cmds (queue t) d))
        \<and> (\<not> released_on_conflict (vars t) \<longrightarrow> flock_of K (fst (exec_cmds (queue t) d)) ino (lv_generation L) k = ty)"
      using set_flock_step unfolding P_def hash_def by blast
    note rnd = lock_round [OF kv_lock_txns(3) tr this a1_def a2_def]
    show ?thesis
    proof (cases "st = Inl kOutcomeUnknown")
      case unknown: True
      then have "set_flock_loop m n K R L hash k ty a1 = (r, a')"
        using Suc.prems True tr by (simp add: CheckLease_def a1_def)
      note IH = Suc.IH [OF this]
      then show ?thesis
        using rnd(1) steps_trans [OF rnd(1)] effect_in_mono [OF _ rnd(1) steps_refl] by blast
    next
      case False
      then have r: "r = (case st of Inl e \<Rightarrow> Inl e
          | Inr _ \<Rightarrow> chk (CheckLease L a2) (\<lambda>_. if released_on_conflict v1 then Inl kWouldBlock else Inr ()))" and a': "a' = a2"
        using Suc.prems True tr by (auto simp: CheckLease_def [of L a] a1_def a2_def Let_def split: sum.splits)
      have "st = Inr ()" "lv_can_grant L (sent (la_client a2))" "\<not> released_on_conflict v1" if "r = Inr ()"
        using that r by (auto simp: CheckLease_def split: if_splits sum.splits)
      then show ?thesis
        using rnd(2) rnd(3) [of "()"] a' by blast
    qed
  qed
qed auto

lemma first_conflict_spec:
  "case first_conflict g k q hs of
     None \<Rightarrow> \<forall>h\<in>set hs. \<not> (h_generation h = g \<and> h_kernel_owner h = k) \<longrightarrow> (\<forall>other\<in>set (h_ranges h). \<not> conflicts q other)
   | Some c \<Rightarrow> \<exists>h\<in>set hs. \<not> (h_generation h = g \<and> h_kernel_owner h = k) \<and> (\<exists>other\<in>set (h_ranges h). conflicts q other
       \<and> c = \<lparr>pc_start = iv_start other, pc_length = iv_length other, pc_kernel_owner = h_kernel_owner h, pc_type = iv_type other, pc_pid = iv_pid other\<rparr>)"
proof (induction g k q hs rule: first_conflict.induct)
  case (2 g k q h hs)
  show ?case
  proof (cases "h_generation h = g \<and> h_kernel_owner h = k")
    case True
    then show ?thesis
      using 2(1) [OF True] by (auto split: option.splits)
  next
    case False
    show ?thesis
    proof (cases "find (conflicts q) (h_ranges h)")
      case None
      then have "\<forall>other\<in>set (h_ranges h). \<not> conflicts q other"
        by (auto simp: find_None_iff)
      then show ?thesis
        using False None 2(2) [OF False None] by (auto split: option.splits)
    next
      case (Some other)
      then have "other \<in> set (h_ranges h) \<and> conflicts q other"
        by (metis find_Some_iff nth_mem)
      then show ?thesis
        using False Some by auto
    qed
  qed
qed simp

lemma get_posix_run:
  assumes "get_posix_txn K (K_PosixLock K ino) g k q (snap R d) (new_txn i v) = (Ret (Inr c), t)"
  shows "\<not> has_writes t" "case c of
      None \<Rightarrow> \<forall>g' k'. (g', k') \<noteq> (g, k) \<longrightarrow> (\<forall>other\<in>set (posix_of K d ino g' k'). \<not> conflicts q other)
    | Some c \<Rightarrow> \<exists>g' k'. (g', k') \<noteq> (g, k) \<and> (\<exists>other\<in>set (posix_of K d ino g' k'). conflicts q other
        \<and> c = \<lparr>pc_start = iv_start other, pc_length = iv_length other, pc_kernel_owner = k', pc_type = iv_type other, pc_pid = iv_pid other\<rparr>)"
proof -
  obtain hs n where rd: "ReadHolders K (K_PosixLock K ino) g False (snap R d) (new_txn i v) = (Ret (Inr (hs, n)), t)"
    and c: "c = first_conflict g k q hs"
    using assms by (auto simp: get_posix_txn_def tbind_Inr treturn_eq)
  show "\<not> has_writes t"
    using ReadHolders_spec(1) [OF rd] by simp
  note hold = ReadHolders_stored [OF rd]
  have po: "posix_of K d ino (h_generation h) (h_kernel_owner h) = h_ranges h" if "h \<in> set hs" for h
    using that hold(1) [of h] by (simp add: posix_of_def)
  show "case c of
      None \<Rightarrow> \<forall>g' k'. (g', k') \<noteq> (g, k) \<longrightarrow> (\<forall>other\<in>set (posix_of K d ino g' k'). \<not> conflicts q other)
    | Some c \<Rightarrow> \<exists>g' k'. (g', k') \<noteq> (g, k) \<and> (\<exists>other\<in>set (posix_of K d ino g' k'). conflicts q other
        \<and> c = \<lparr>pc_start = iv_start other, pc_length = iv_length other, pc_kernel_owner = k', pc_type = iv_type other, pc_pid = iv_pid other\<rparr>)"
  proof (cases c)
    case None
    have "\<forall>other\<in>set (posix_of K d ino g' k'). \<not> conflicts q other" if "(g', k') \<noteq> (g, k)" for g' k'
    proof (cases "stored K d (K_PosixLock K ino) False g' k'")
      case (Some h)
      then have "h \<in> set hs" "h_generation h = g'" "h_kernel_owner h = k'"
        using hold(2) by blast+
      then show ?thesis
        using first_conflict_spec [where g = g and k = k and q = q and hs = hs] None c that po by fastforce
    qed (simp add: posix_of_def)
    then show ?thesis
      using None by simp
  next
    case (Some x)
    then obtain h other where "h \<in> set hs" "\<not> (h_generation h = g \<and> h_kernel_owner h = k)" "other \<in> set (h_ranges h)" "conflicts q other"
      "x = \<lparr>pc_start = iv_start other, pc_length = iv_length other, pc_kernel_owner = h_kernel_owner h, pc_type = iv_type other, pc_pid = iv_pid other\<rparr>"
      using first_conflict_spec [where g = g and k = k and q = q and hs = hs] c by auto
    then show ?thesis
      unfolding Some option.case(2)
      by (intro exI [of _ "h_generation h"] exI [of _ "h_kernel_owner h"] conjI bexI [of _ other]) (simp_all add: po)
  qed
qed

lemma read_steps:
  assumes "kv_prog R m" "Transact n m R c v = (r, c', v')"
    and ro: "\<And>d v x i t. m (snap R d) (new_txn i v) = (Ret (Inr x), t) \<Longrightarrow> \<not> has_writes t"
  shows "steps P c c'"
  by (rule Transact_steps [OF assms(1,2)]) (use ro in blast)

lemma stored_frame:
  assumes "\<And>x. x \<noteq> hash \<Longrightarrow> d' x = d x" "h \<noteq> hash" "\<And>g. K_OwnerLease K g \<noteq> hash"
  shows "stored K d' h = stored K d h"
  using assms by (simp add: stored_def live_def hash_at_def fun_eq_iff)

end

text \<open>A step that breaks no lock: whatever exclusion held before holds after it, on every inode.\<close>

definition locks_kept :: "RedisKey \<Rightarrow> keyspace \<Rightarrow> keyspace \<Rightarrow> bool" where
  "locks_kept K d d' \<longleftrightarrow> (\<forall>ino. (posix_safe K d ino \<longrightarrow> posix_safe K d' ino) \<and> (flock_safe K d ino \<longrightarrow> flock_safe K d' ino))"

context lock_table
begin

lemma posix_step_kept: "posix_step K ino g k q d d' \<Longrightarrow> locks_kept K d d'"
  unfolding locks_kept_def
proof (intro allI conjI impI)
  fix i
  assume st: "posix_step K ino g k q d d'"
  have fr: "stored K d' h = stored K d h" if "h \<noteq> K_PosixLock K ino" for h
    using st that by (intro stored_frame [of "K_PosixLock K ino"]) (auto simp: posix_step_def)
  show "posix_safe K d' i" if "posix_safe K d i"
    using posix_step_safe [OF st] that fr by (cases "i = ino") (simp_all add: posix_safe_def posix_of_def)
  show "flock_safe K d' i" if "flock_safe K d i"
    using that fr by (simp add: flock_safe_def flock_of_def)
qed

lemma flock_step_kept: "flock_step K ino g k ty d d' \<Longrightarrow> locks_kept K d d'"
  unfolding locks_kept_def
proof (intro allI conjI impI)
  fix i
  assume st: "flock_step K ino g k ty d d'"
  have fr: "stored K d' h = stored K d h" if "h \<noteq> K_FlockLock K ino" for h
    using st that by (intro stored_frame [of "K_FlockLock K ino"]) (auto simp: flock_step_def)
  show "posix_safe K d' i" if "posix_safe K d i"
    using that fr by (simp add: posix_safe_def posix_of_def)
  show "flock_safe K d' i" if "flock_safe K d i"
    using flock_step_safe [OF st] that fr by (cases "i = ino") (simp_all add: flock_safe_def flock_of_def)
qed

lemma cleanup_step_kept: "\<lbrakk> cleanup_step K hash d d'; \<And>g. K_OwnerLease K g \<noteq> hash \<rbrakk> \<Longrightarrow> locks_kept K d d'"
  using cleanup_stored [of hash d d'] by (simp add: locks_kept_def posix_safe_def flock_safe_def posix_of_def flock_of_def)

lemma SetPosix_kept: "steps (locks_kept K) (la_client a) (la_client (snd (SetPosix n K R L ino k req a)))"
proof (cases "ValidateRange req")
  case (Inr q)
  then obtain r a' where run: "set_posix_loop kUncertainAttempts n K R L (K_PosixLock K ino) k q a = (r, a')"
      "SetPosix n K R L ino k req a = (r, a')"
    by (fastforce simp: SetPosix_def)
  show ?thesis
    using posix_loop_steps [OF ValidateRange_Inr(7,4) [OF Inr] run(1)] run(2) posix_step_kept cleanup_step_kept
    by (auto elim!: steps_mono)
qed (simp add: SetPosix_def)

lemma SetFlock_kept: "steps (locks_kept K) (la_client a) (la_client (snd (SetFlock n K R L ino k ty a)))"
proof -
  obtain r a' where run: "set_flock_loop kUncertainAttempts n K R L (K_FlockLock K ino) k ty a = (r, a')"
    by fastforce
  show ?thesis
    using flock_loop_steps [OF run] flock_step_kept cleanup_step_kept
    by (auto simp: SetFlock_def run elim!: steps_mono)
qed

lemma cleanup_kept:
  "(\<And>g. K_OwnerLease K g \<noteq> hash) \<Longrightarrow> steps (locks_kept K) (la_client a) (la_client (CleanupStale n K R hash a))"
  "(\<And>g. K_OwnerLease K g \<noteq> hash) \<Longrightarrow> steps (locks_kept K) (la_client a) (la_client (after_lock_txn n K R hash r v a))"
  using cleanup_steps [of hash a n] after_lock_steps [of hash a n r v] cleanup_step_kept by (auto elim!: steps_mono)

lemma GetPosix_kept: "steps (locks_kept K) (la_client a) (la_client (snd (GetPosix n K R L ino k req a)))"
proof -
  show ?thesis
  proof (cases "pr_type req = pUnlock \<or> (\<exists>e. ValidateRange req = Inl e) \<or> \<not> lv_can_grant L (sent (la_client a))")
    case True
    then show ?thesis
      by (auto simp: GetPosix_def CheckLease_def split: sum.splits)
  next
    case False
    then obtain q where q: "ValidateRange req = Inr q"
      by (cases "ValidateRange req") auto
    obtain st c1 v1 where tr: "Transact n (get_posix_txn K (K_PosixLock K ino) (lv_generation L) k q) R (la_client a) no_vars = (st, c1, v1)"
      using prod_cases3 by blast
    have a': "snd (GetPosix n K R L ino k req a) = after_lock_txn n K R (K_PosixLock K ino) st v1 (a\<lparr>la_client := c1\<rparr>)"
      using False q tr by (auto simp: GetPosix_def CheckLease_def Let_def split: sum.splits)
    have "steps (locks_kept K) (la_client a) c1"
      by (rule read_steps [OF kv_lock_txns(4) tr]) (rule get_posix_run(1))
    then show ?thesis
      unfolding a' using cleanup_kept(2) [of "K_PosixLock K ino" "a\<lparr>la_client := c1\<rparr>"] by (auto intro: steps_trans)
  qed
qed

lemma Inspect_kept: "steps (locks_kept K) (la_client a) (la_client (snd (Inspect n K R L ino flock a)))"
proof -
  define hash where "hash = (if flock then K_FlockLock K ino else K_PosixLock K ino)"
  obtain st c1 v1 where tr: "Transact n (ReadHolders K hash (lv_generation L) flock) R (la_client a) no_vars = (st, c1, v1)"
    using prod_cases3 by blast
  have "steps (locks_kept K) (la_client a) c1"
  proof (rule read_steps [OF kv_ReadHolders tr])
    fix d v x i t
    assume "ReadHolders K hash (lv_generation L) flock (snap R d) (new_txn i v) = (Ret (Inr x), t)"
    then show "\<not> has_writes t"
      using ReadHolders_spec(1) by (cases x) blast
  qed
  then show ?thesis
    using tr unfolding Inspect_def hash_def [symmetric] by (auto simp: CheckLease_def Let_def split: sum.splits prod.splits)
qed

end

interpretation lk: lock_table "mem_redis d0" "dec_key db vol" for d0 db vol
  by unfold_locales

section \<open>Properties\<close>

text \<open>C12: Locks exclude each other across all mounts. Every change any lock operation makes to the shared state, at
  the moment the server runs it, keeps two promises on every inode: no two live owners hold overlapping record locks
  of which one is a write lock, and no live owner holds a whole-file lock next to another owner's exclusive one.
  This covers the retries after an uncertain outcome, the release on a failed conversion and the removal of stale
  state, with any interleaving of other clients and any lost replies.\<close>

theorem lock_mutual_exclusion:
  assumes "redis_server R" and "key_schema K"
  shows "steps (locks_kept K) (la_client a) (la_client (snd (SetPosix n K R L ino kernel_owner request a)))
    \<and> steps (locks_kept K) (la_client a) (la_client (snd (SetFlock n K R L ino kernel_owner ty a)))
    \<and> steps (locks_kept K) (la_client a) (la_client (snd (GetPosix n K R L ino kernel_owner request a)))
    \<and> steps (locks_kept K) (la_client a) (la_client (snd (Inspect n K R L ino flock a)))
    \<and> steps (locks_kept K) (la_client a) (la_client (CleanupStale n K R (K_PosixLock K ino) a))
    \<and> steps (locks_kept K) (la_client a) (la_client (CleanupStale n K R (K_FlockLock K ino) a))"
proof -
  have lt: "lock_table R K"
    using assms by (simp add: lock_table_def)
  have ne: "K_OwnerLease K g \<noteq> K_PosixLock K ino" "K_OwnerLease K g \<noteq> K_FlockLock K ino" for g
    using lock_table.lease_not_lock [OF lt] by blast+
  show ?thesis
    by (intro conjI lock_table.SetPosix_kept [OF lt] lock_table.SetFlock_kept [OF lt] lock_table.GetPosix_kept [OF lt]
        lock_table.Inspect_kept [OF lt] lock_table.cleanup_kept(1) [OF lt] ne)
qed

text \<open>C13: A granted record lock is in force. When \<open>SetPosix\<close> reports success, one of its writes took effect while
  the call ran, on a table where the caller's lease was live and no other live owner's lock was in conflict; it left
  the caller with exactly the requested mode in the requested range and with its previous locks elsewhere, changed no
  other owner's locks and no other key; and the lease could still grant when the call returned.\<close>

theorem posix_lock_granted:
  assumes "redis_server R" and "key_schema K" and "SetPosix n K R L ino kernel_owner request a = (Inr (), a')"
  shows "\<exists>q d d'. ValidateRange request = Inr q \<and> effect_in R (la_client a) (la_client a') d d'
     \<and> posix_step K ino (lv_generation L) kernel_owner q d d' \<and> lv_can_grant L (sent (la_client a'))"
proof -
  have lt: "lock_table R K"
    using assms by (simp add: lock_table_def)
  obtain q where q: "ValidateRange request = Inr q"
    and loop: "set_posix_loop kUncertainAttempts n K R L (K_PosixLock K ino) kernel_owner q a = (Inr (), a')"
    using assms(3) by (auto simp: SetPosix_def split: sum.splits)
  show ?thesis
    using lock_table.posix_loop_steps [OF lt ValidateRange_Inr(7,4) [OF q] loop] q by blast
qed

text \<open>C14: A granted whole-file lock is in force: when \<open>SetFlock\<close> reports success, one of its writes took effect while
  the call ran and left the caller with the requested mode, next to no incompatible live holder.\<close>

theorem flock_granted:
  assumes "redis_server R" and "key_schema K" and "SetFlock n K R L ino kernel_owner ty a = (Inr (), a')"
  shows "\<exists>d d'. effect_in R (la_client a) (la_client a') d d' \<and> flock_step K ino (lv_generation L) kernel_owner ty d d'
     \<and> flock_of K d' ino (lv_generation L) kernel_owner = ty \<and> lv_can_grant L (sent (la_client a'))"
proof -
  have lt: "lock_table R K"
    using assms by (simp add: lock_table_def)
  show ?thesis
    using lock_table.flock_loop_steps [OF lt assms(3) [unfolded SetFlock_def]] by blast
qed

text \<open>A volume on which only the caller's lease exists.\<close>

definition ex_key :: RedisKey where
  "ex_key = dec_key 0 (ascii ''v'')"

definition ex_lease_db :: keyspace where
  "ex_lease_db = [K_OwnerLease ex_key 1 \<mapsto> (RString [], Some 5)]"

definition ex_lease :: lease_view where
  "ex_lease = \<lparr>lv_generation = 1, lv_can_grant = \<lambda>_. True\<rparr>"

definition ex_authority :: lock_authority where
  "ex_authority = \<lparr>la_client = ex_client, gc_cursors = [], gc_begin = (\<lambda>_. 0)\<rparr>"

lemma ex_schema: "key_schema ex_key"
  unfolding ex_key_def by (rule dec_key.key_schema_axioms)

lemma ex_update: "UpdateRanges ex_key [] \<lparr>iv_start = 4, iv_end = 8, iv_type = pWrite, iv_pid = 7\<rparr>
    = Inr [\<lparr>iv_start = 4, iv_end = 8, iv_type = pWrite, iv_pid = 7\<rparr>]"
  by (simp add: UpdateRanges_def next_ranges_def Encode_def encode_entry_def ex_key_def
        dec_key_def new_RedisKey_def int_to_string_def to_string.simps kMaxIntervals_def kMaxValueBytes_def)

lemma ex_ReadHolders:
  assumes "\<not> has_writes t" "hash \<noteq> K_OwnerLease ex_key 1"
  obtains t' where "ReadHolders ex_key hash 1 flock (mem_redis ex_lease_db) t = (Ret (Inr ([], 0)), t')"
    "\<not> has_writes t'" "queue t' = queue t" "\<not> saw_stale (vars t')" "released_on_conflict (vars t') = released_on_conflict (vars t)"
proof -
  have "\<exists>t'. ReadHolders ex_key hash 1 flock (mem_redis ex_lease_db) t = (Ret (Inr ([], 0)), t') \<and> \<not> has_writes t' \<and> queue t' = queue t
      \<and> \<not> saw_stale (vars t') \<and> released_on_conflict (vars t') = released_on_conflict (vars t)"
    using assms by (auto simp: ReadHolders_def mem_simps hash_reply_def ex_lease_db_def mem_ttl_def kMaxHolders_def)
  then show thesis
    using that by blast
qed

lemma ex_hset: "hash \<noteq> K_OwnerLease ex_key 1 \<Longrightarrow> \<forall>r\<in>set (snd (exec_cmds [CHSet hash f v] ex_lease_db)). r = Reply ()"
  by (simp add: ex_lease_db_def exec_cmds.simps exec_cmd.simps)

lemma ex_SetPosix: "\<exists>a'. SetPosix 1 ex_key (mem_redis ex_lease_db) ex_lease 5 9 ex_lock_request ex_authority = (Inr (), a')"
proof -
  define q where "q = \<lparr>iv_start = 4, iv_end = 8, iv_type = pWrite, iv_pid = 7 :: u32\<rparr>"
  define hash where "hash = K_PosixLock ex_key 5"
  define t0 where "t0 = new_txn (Suc (sent (la_client ex_authority))) no_vars"
  have ne: "hash \<noteq> K_OwnerLease ex_key 1"
    unfolding hash_def by (rule key_schema.key_distinct [OF ex_schema])
  obtain t1 where rd: "ReadHolders ex_key hash 1 False (mem_redis ex_lease_db) t0 = (Ret (Inr ([], 0)), t1)"
      "\<not> has_writes t1" "queue t1 = []" "\<not> saw_stale (vars t1)"
    using ex_ReadHolders [OF _ ne, of t0] by (auto simp: t0_def)
  have run: "set_posix_txn ex_key hash 1 9 q (mem_redis ex_lease_db) t0
      = (Ret (Inr ()), after_write (CHSet hash (owner_field ex_key 1 9) (Encode ex_key [q])) t1)"
    using ex_update rd by (simp add: set_posix_txn_def mem_simps SetState_def q_def kMaxHolders_def) (simp add: Encode_def)
  obtain c v where tr: "Transact 1 (set_posix_txn ex_key hash 1 9 q) (mem_redis ex_lease_db) (la_client ex_authority) no_vars = (Inr (), c, v)"
      "\<not> saw_stale v"
    using mem_Transact [where m = "set_posix_txn ex_key hash 1 9 q" and n = 0, OF run [unfolded t0_def]] ex_hset [OF ne] rd(3,4) by auto
  show ?thesis
    using tr by (auto simp: SetPosix_def ex_request_valid [folded q_def] kUncertainAttempts_def numeral_3_eq_3 CheckLease_def
        ex_lease_def Let_def after_lock_txn_def ToErrno_def simp flip: hash_def)
qed

lemma ex_SetFlock: "\<exists>a'. SetFlock 1 ex_key (mem_redis ex_lease_db) ex_lease 5 9 fExclusive ex_authority = (Inr (), a')"
proof -
  define hash where "hash = K_FlockLock ex_key 5"
  define t0 where "t0 = new_txn (Suc (sent (la_client ex_authority))) no_vars"
  have ne: "hash \<noteq> K_OwnerLease ex_key 1"
    unfolding hash_def by (rule key_schema.key_distinct [OF ex_schema])
  obtain t1 where rd: "ReadHolders ex_key hash 1 True (mem_redis ex_lease_db) (t0\<lparr>vars := released_on_conflict_update (\<lambda>_. False) (vars t0)\<rparr>)
      = (Ret (Inr ([], 0)), t1)" "\<not> has_writes t1" "queue t1 = []" "\<not> saw_stale (vars t1)" "\<not> released_on_conflict (vars t1)"
    using ex_ReadHolders [OF _ ne, of "t0\<lparr>vars := released_on_conflict_update (\<lambda>_. False) (vars t0)\<rparr>" True] by (auto simp: t0_def)
  have run: "set_flock_txn ex_key hash 1 9 fExclusive (mem_redis ex_lease_db) t0
      = (Ret (Inr ()), after_write (CHSet hash (owner_field ex_key 1 9) (ascii ''F1|X'')) t1)"
    using rd by (simp add: set_flock_txn_def mem_simps SetState_def kMaxHolders_def flock_data_def)
  obtain c v where tr: "Transact 1 (set_flock_txn ex_key hash 1 9 fExclusive) (mem_redis ex_lease_db) (la_client ex_authority) no_vars = (Inr (), c, v)"
      "\<not> saw_stale v" "\<not> released_on_conflict v"
    using mem_Transact [where m = "set_flock_txn ex_key hash 1 9 fExclusive" and n = 0, OF run [unfolded t0_def]] ex_hset [OF ne] rd(3-5)
    by auto
  show ?thesis
    using tr by (auto simp: SetFlock_def kUncertainAttempts_def numeral_3_eq_3 CheckLease_def
        ex_lease_def Let_def after_lock_txn_def ToErrno_def simp flip: hash_def)
qed

theorem lock_mutual_exclusion_witness:
  "redis_server (mem_redis ex_lease_db) \<and> key_schema ex_key
   \<and> steps (locks_kept ex_key) (la_client ex_authority)
       (la_client (snd (SetPosix 1 ex_key (mem_redis ex_lease_db) ex_lease 5 9 ex_lock_request ex_authority)))"
  using lock_mutual_exclusion [OF mem.redis_server_axioms ex_schema] mem.redis_server_axioms ex_schema by blast

theorem posix_lock_granted_witness:
  "\<exists>q d d' a'. SetPosix 1 ex_key (mem_redis ex_lease_db) ex_lease 5 9 ex_lock_request ex_authority = (Inr (), a')
     \<and> effect_in (mem_redis ex_lease_db) (la_client ex_authority) (la_client a') d d' \<and> posix_step ex_key 5 1 9 q d d'"
proof -
  obtain a' where run: "SetPosix 1 ex_key (mem_redis ex_lease_db) ex_lease 5 9 ex_lock_request ex_authority = (Inr (), a')"
    using ex_SetPosix by blast
  show ?thesis
    using posix_lock_granted [OF mem.redis_server_axioms ex_schema run] run by (auto simp: ex_lease_def)
qed

theorem flock_granted_witness:
  "\<exists>d d' a'. SetFlock 1 ex_key (mem_redis ex_lease_db) ex_lease 5 9 fExclusive ex_authority = (Inr (), a')
     \<and> effect_in (mem_redis ex_lease_db) (la_client ex_authority) (la_client a') d d' \<and> flock_of ex_key d' 5 1 9 = fExclusive"
proof -
  obtain a' where run: "SetFlock 1 ex_key (mem_redis ex_lease_db) ex_lease 5 9 fExclusive ex_authority = (Inr (), a')"
    using ex_SetFlock by blast
  show ?thesis
    using flock_granted [OF mem.redis_server_axioms ex_schema run] run by (auto simp: ex_lease_def)
qed

text \<open>C15: A lock query is exact at one instant of the call: \<open>GetPosix\<close> reports no conflict only when, on a key space
  the server had during the call, no other live owner's record lock conflicts with the request; and a reported conflict
  is a lock another live owner held there, with its range, mode and process id.\<close>

theorem posix_query_exact:
  assumes "redis_server R" and "key_schema K" and "GetPosix n K R L ino kernel_owner request a = (Inr result, a')"
  shows "\<exists>q i. ValidateRange request = Inr q \<and> sent (la_client a) \<le> i \<and> i < sent (la_client a')
    \<and> (case result of
        None \<Rightarrow> \<forall>g k. (g, k) \<noteq> (lv_generation L, kernel_owner) \<longrightarrow> (\<forall>other\<in>set (posix_of K (r_db R i) ino g k). \<not> conflicts q other)
      | Some c \<Rightarrow> \<exists>g k. (g, k) \<noteq> (lv_generation L, kernel_owner) \<and> (\<exists>other\<in>set (posix_of K (r_db R i) ino g k). conflicts q other
          \<and> c = \<lparr>pc_start = iv_start other, pc_length = iv_length other, pc_kernel_owner = k, pc_type = iv_type other, pc_pid = iv_pid other\<rparr>))"
proof -
  have lt: "lock_table R K"
    using assms by (simp add: lock_table_def)
  obtain q where q: "ValidateRange request = Inr q"
    using assms(3) by (auto simp: GetPosix_def split: if_splits sum.splits)
  obtain st c1 v1 where tr: "Transact n (get_posix_txn K (K_PosixLock K ino) (lv_generation L) kernel_owner q) R (la_client a) no_vars = (st, c1, v1)"
    using prod_cases3 by blast
  have st: "st = Inr result" and a': "a' = after_lock_txn n K R (K_PosixLock K ino) st v1 (a\<lparr>la_client := c1\<rparr>)"
    using assms(3) q tr by (auto simp: GetPosix_def CheckLease_def Let_def split: if_splits sum.splits)
  obtain i j v t where j: "sent (la_client a) \<le> j" "j < sent c1"
    and run: "get_posix_txn K (K_PosixLock K ino) (lv_generation L) kernel_owner q (snap R (r_db R j)) (new_txn i v) = (Ret (Inr result), t)"
    using redis_server.Transact_ok [OF assms(1) lock_table.kv_lock_txns(4) [OF lt] tr [unfolded st]] by blast
  have "sent c1 \<le> sent (la_client a')"
    using lock_table.after_lock_steps [OF lt, of "K_PosixLock K ino" "a\<lparr>la_client := c1\<rparr>" n st v1] by (simp add: a' steps_def)
  then show ?thesis
    using q j lock_table.get_posix_run(2) [OF lt run] by (intro exI [of _ q] exI [of _ j]) auto
qed

lemma ex_GetPosix: "\<exists>a'. GetPosix 1 ex_key (mem_redis ex_lease_db) ex_lease 5 9 ex_lock_request ex_authority = (Inr None, a')"
proof -
  define q where "q = \<lparr>iv_start = 4, iv_end = 8, iv_type = pWrite, iv_pid = 7 :: u32\<rparr>"
  define hash where "hash = K_PosixLock ex_key 5"
  define t0 where "t0 = new_txn (Suc (sent (la_client ex_authority))) no_vars"
  have ne: "hash \<noteq> K_OwnerLease ex_key 1"
    unfolding hash_def by (rule key_schema.key_distinct [OF ex_schema])
  obtain t1 where rd: "ReadHolders ex_key hash 1 False (mem_redis ex_lease_db) t0 = (Ret (Inr ([], 0)), t1)"
      "\<not> has_writes t1" "\<not> saw_stale (vars t1)"
    using ex_ReadHolders [OF _ ne, of t0] by (auto simp: t0_def)
  have run: "get_posix_txn ex_key hash 1 9 q (mem_redis ex_lease_db) t0 = (Ret (Inr None), t1)"
    using rd by (simp add: get_posix_txn_def mem_simps)
  obtain c v where tr: "Transact 1 (get_posix_txn ex_key hash 1 9 q) (mem_redis ex_lease_db) (la_client ex_authority) no_vars = (Inr None, c, v)"
      "\<not> saw_stale v"
    using mem_Transact_read [where m = "get_posix_txn ex_key hash 1 9 q" and n = 0, OF run [unfolded t0_def] rd(2)] rd(3) by auto
  have "pr_type ex_lock_request \<noteq> pUnlock"
    by (simp add: ex_lock_request_def)
  then show ?thesis
    using tr by (auto simp: GetPosix_def ex_request_valid [folded q_def] CheckLease_def
        ex_lease_def Let_def after_lock_txn_def ToErrno_def simp flip: hash_def)
qed

theorem posix_query_exact_witness:
  "\<exists>a'. GetPosix 1 ex_key (mem_redis ex_lease_db) ex_lease 5 9 ex_lock_request ex_authority = (Inr None, a')
    \<and> (\<forall>g k. (g, k) \<noteq> (1, 9) \<longrightarrow> (\<forall>other\<in>set (posix_of ex_key ex_lease_db 5 g k).
          \<not> conflicts \<lparr>iv_start = 4, iv_end = 8, iv_type = pWrite, iv_pid = 7\<rparr> other))"
proof -
  obtain a' where run: "GetPosix 1 ex_key (mem_redis ex_lease_db) ex_lease 5 9 ex_lock_request ex_authority = (Inr None, a')"
    using ex_GetPosix by blast
  show ?thesis
    using posix_query_exact [OF mem.redis_server_axioms ex_schema run] run by (auto simp: ex_lease_def ex_request_valid)
qed

end
