(* ===== verification/RedisMetaTxn.thy ===== *)
theory RedisMetaTxn
  imports RedisMetaClient RedisKey Records MetaUtils ChunkSizePlan
begin

text \<open>
  Metadata operations bound to one optimistic transaction (\<open>metadata/redis/RedisMetaTxn.cpp\<close>): inode and directory
  records, hard links, rename, reclaim of unlinked inodes, chunk attachments and size changes. An operation is a
  transaction program; its output parameters are the value it returns, an inode passed by pointer is passed by value and
  returned updated. Where two pointers may be the same object (the two parents of a rename) the second one is
  \<open>None\<close> for the same object as the first. Outputs are never null.

  The environment \<open>meta_env\<close> holds what the object is built with: the keys, the byte codec of the records, the
  chunk size, the cleanup encoder of the chunk mechanism, and the wall clock, read by \<open>Touch\<close> (two readings between
  the same two commands are equal). \<open>me_fuel\<close> bounds the pages of a hash scan, whose cursors come from the server.
\<close>

record encoder =
  EncodeDetachedDelete :: "u64 \<Rightarrow> ChunkMapping \<Rightarrow> PendingDelete res"
  EncodeDetachedReclaim :: "u64 \<Rightarrow> ChunkMapping list \<Rightarrow> ReclaimWork res"

record meta_env =
  me_key :: RedisKey
  me_io :: folly_io
  me_now :: "nat \<Rightarrow> i64"
  me_chunk_size :: u64
  me_encoder :: "encoder option"
  me_fuel :: nat

record FileMappingSnapshot =
  fm_inode :: SwordFsInode
  fm_mappings :: "ChunkMapping list"

record ChunkSizeCommitResult =
  cr_inode :: SwordFsInode
  cr_detached :: "ChunkMapping list"
  cr_boundary :: "RetainedChunkBoundary option"

definition tnow :: "meta_env \<Rightarrow> ('v, i64) tx" where
  "tnow E R t = (Ret (Inr (me_now E (clock t))), t)"

definition number :: "u64 \<Rightarrow> bytes" where
  "number n = to_string (unat n)"

section \<open>Reads\<close>

definition ParseAttachedChunkID :: "bytes \<Rightarrow> u64 res" where
  "ParseAttachedChunkID encoded = (case from_chars (2 ^ 64 - 1) encoded of
      None \<Rightarrow> Inl kMalformed
    | Some (v, suffix) \<Rightarrow> if suffix \<noteq> [] \<or> v = 0 \<or> (of_nat v :: u64) > kMaxChunkIDValue then Inl kMalformed else Inr (of_nat v))"

definition LookupInode :: "meta_env \<Rightarrow> u64 \<Rightarrow> ('v, SwordFsInode) tx" where
  "LookupInode E ino = tbind (Get (K_Inode (me_key E) ino)) (\<lambda>value. treturn (inode_ParseFrom (me_io E) value))"

definition LookupEntryIn :: "meta_env \<Rightarrow> SwordFsInode \<Rightarrow> bytes \<Rightarrow> ('v, SwordFsInode) tx" where
  "LookupEntryIn E parent name =
    (if \<not> IsDir parent then treturn (Inl kNotDirectory) else
     tbind (HGet (K_Directory (me_key E) (i_ino parent)) name) (\<lambda>value.
     tcheck (entry_ParseFrom (me_io E) value) (\<lambda>entry.
     tcase (LookupInode E (e_ino entry)) (\<lambda>status.
       if status = Inl kNotFound then treturn (Inl kMalformed) else treturn status))))"

definition LookupEntry :: "meta_env \<Rightarrow> u64 \<Rightarrow> bytes \<Rightarrow> ('v, SwordFsInode) tx" where
  "LookupEntry E parent_ino name = tbind (LookupInode E parent_ino) (\<lambda>parent. LookupEntryIn E parent name)"

text \<open>The walk to the root; it ends because it stops at an inode it has visited.\<close>

function descend :: "meta_env \<Rightarrow> u64 \<Rightarrow> u64 \<Rightarrow> u64 list \<Rightarrow> ('v, bool) tx" where
  "descend E ancestor_ino current_ino visited =
    (if current_ino = 0 then treturn (Inr False)
     else if current_ino \<in> set visited then treturn (Inl kMalformed)
     else if current_ino = ancestor_ino then treturn (Inr True)
     else tbind (LookupInode E current_ino) (\<lambda>inode.
       if i_parent_ino inode = current_ino then treturn (Inr False)
       else descend E ancestor_ino (i_parent_ino inode) (current_ino # visited)))"
  by pat_completeness auto
termination
proof (relation "measure (\<lambda>(E, a, c, visited). card (- set visited))")
  fix E :: meta_env and a c p :: u64 and visited :: "u64 list"
  assume "c \<notin> set visited"
  then show "((E, a, p, c # visited), (E, a, c, visited)) \<in> measure (\<lambda>(E, a, c, visited). card (- set visited))"
    by (auto intro!: psubset_card_mono)
qed simp_all

declare descend.simps [simp del]

definition IsDescendantOf :: "meta_env \<Rightarrow> u64 \<Rightarrow> u64 \<Rightarrow> ('v, bool) tx" where
  "IsDescendantOf E ancestor_ino child_ino = descend E ancestor_ino child_ino []"

section \<open>Inode operations\<close>

definition AdjustInodeCount :: "meta_env \<Rightarrow> int \<Rightarrow> ('v, unit) tx" where
  "AdjustInodeCount E delta = IncrBy (K_InodeCount (me_key E)) delta"

definition SetInode :: "meta_env \<Rightarrow> SwordFsInode \<Rightarrow> ('v, unit) tx" where
  "SetInode E inode =
    (if i_ino inode = 0 \<or> a_ino (i_attr inode) \<noteq> i_ino inode then treturn (Inl kInvalidArgument) else
     tcheck (inode_SerializeTo (me_io E) inode) (\<lambda>value. Set (K_Inode (me_key E) (i_ino inode)) value))"

definition DeleteInode :: "meta_env \<Rightarrow> u64 \<Rightarrow> ('v, unit) tx" where
  "DeleteInode E ino = tbind (Del (K_Inode (me_key E) ino)) (\<lambda>_. AdjustInodeCount E (- 1))"

definition set_nlink :: "u64 \<Rightarrow> SwordFsInode \<Rightarrow> SwordFsInode" where
  "set_nlink n i = i\<lparr>i_attr := (i_attr i)\<lparr>a_nlink := n\<rparr>\<rparr>"

abbreviation i_nlink :: "SwordFsInode \<Rightarrow> u64" where
  "i_nlink i \<equiv> a_nlink (i_attr i)"

definition AdjustNlink :: "SwordFsInode \<Rightarrow> int \<Rightarrow> SwordFsInode res" where
  "AdjustNlink inode delta =
    (if delta < 0 then
       let amount = (of_int (- delta) :: u64) in
       if i_nlink inode < amount then Inl kMalformed else Inr (set_nlink (i_nlink inode - amount) inode)
     else Inr (set_nlink (i_nlink inode + of_int delta) inode))"

definition setattr_chain :: "i64 \<Rightarrow> SwordFsInode \<Rightarrow> SwordFsAttr \<Rightarrow> u32 \<Rightarrow> SwordFsInode" where
  "setattr_chain now i req fs =
    (let i = assign_if (HasSetAttrField fs fMode)
               (\<lambda>a. a\<lparr>a_mode := (a_mode a AND S_IFMT) OR (a_mode req AND 0xFFF)\<rparr>) i;
         i = assign_if (HasSetAttrField fs fUid) (\<lambda>a. a\<lparr>a_uid := a_uid req\<rparr>) i;
         i = assign_if (HasSetAttrField fs fGid) (\<lambda>a. a\<lparr>a_gid := a_gid req\<rparr>) i;
         i = assign_if (HasSetAttrField fs fAtime)
               (\<lambda>a. a\<lparr>a_atime := a_atime req, a_atime_nsec := a_atime_nsec req\<rparr>) i;
         i = assign_if (HasSetAttrField fs fMtime)
               (\<lambda>a. a\<lparr>a_mtime := a_mtime req, a_mtime_nsec := a_mtime_nsec req\<rparr>) i;
         i = touch_if now (HasSetAttrField fs fAtimeNow) fAtime i;
         i = touch_if now (HasSetAttrField fs fMtimeNow) fMtime i;
         i = assign_if (HasSetAttrField fs fCtime)
               (\<lambda>a. a\<lparr>a_ctime := a_ctime req, a_ctime_nsec := a_ctime_nsec req\<rparr>) i;
         i = assign_if (HasSetAttrField fs fKillSuidGid) ClearSetidForKillPriv i
     in touch_if now (\<not> HasSetAttrField fs fCtime) fCtime i)"

definition mt_SetAttr :: "meta_env \<Rightarrow> u64 \<Rightarrow> SwordFsAttr \<Rightarrow> u32 \<Rightarrow> ('v, SwordFsInode) tx" where
  "mt_SetAttr E ino requested fs =
    (if HasSetAttrField fs fSize then treturn (Inl kInvalidArgument) else
     tbind (LookupInode E ino) (\<lambda>inode.
     tcheck (CheckSetAttrPolicy (i_attr inode) fs) (\<lambda>_.
     tbind (tnow E) (\<lambda>now.
     let inode = setattr_chain now inode requested fs in
     tcheck (if HasSetAttrField fs fMode then SyncPosixAccessAclForMode inode (i_mode inode) else Inr inode) (\<lambda>inode.
     tbind (SetInode E inode) (\<lambda>_. treturn (Inr inode)))))))"

definition mt_SetInodeFlags :: "meta_env \<Rightarrow> u64 \<Rightarrow> u32 \<Rightarrow> ('v, SwordFsInode) tx" where
  "mt_SetInodeFlags E ino inode_flags =
    (if \<not> HasOnlySupportedInodeFlags inode_flags then treturn (Inl kInvalidArgument) else
     tbind (LookupInode E ino) (\<lambda>inode.
     if a_inode_flags (i_attr inode) \<noteq> inode_flags then
       tbind (tnow E) (\<lambda>now.
       let inode = Touch now fCtime (inode\<lparr>i_attr := (i_attr inode)\<lparr>a_inode_flags := inode_flags\<rparr>\<rparr>) in
       tbind (SetInode E inode) (\<lambda>_. treturn (Inr inode)))
     else treturn (Inr inode)))"

definition mt_SetXAttr :: "meta_env \<Rightarrow> u64 \<Rightarrow> bytes \<Rightarrow> bytes \<Rightarrow> XAttrSetMode \<Rightarrow> ('v, unit) tx" where
  "mt_SetXAttr E ino name v mode =
    tbind (LookupInode E ino) (\<lambda>inode.
    tcheck (CheckContentMetadataMutationPolicy (i_attr inode)) (\<lambda>_.
    tbind (tnow E) (\<lambda>now.
    tcheck (SetXAttr now inode name v mode) (\<lambda>inode. SetInode E inode))))"

definition mt_RemoveXAttr :: "meta_env \<Rightarrow> u64 \<Rightarrow> bytes \<Rightarrow> ('v, unit) tx" where
  "mt_RemoveXAttr E ino name =
    tbind (LookupInode E ino) (\<lambda>inode.
    tcheck (CheckContentMetadataMutationPolicy (i_attr inode)) (\<lambda>_.
    tbind (tnow E) (\<lambda>now.
    tcheck (RemoveXAttr now inode name) (\<lambda>inode. SetInode E inode))))"

definition mt_TouchInode :: "meta_env \<Rightarrow> u64 \<Rightarrow> u32 \<Rightarrow> ('v, unit) tx" where
  "mt_TouchInode E ino fs =
    tbind (LookupInode E ino) (\<lambda>inode. tbind (tnow E) (\<lambda>now. SetInode E (Touch now fs inode)))"

section \<open>Chunk attachments\<close>

definition LookupAttachment :: "meta_env \<Rightarrow> u64 \<Rightarrow> u64 \<Rightarrow> ('v, u64 option) tx" where
  "LookupAttachment E ino index =
    tcase (HGet (K_ChunkRefs (me_key E) ino) (number index)) (\<lambda>status.
      case status of
        Inl e \<Rightarrow> if e = kNotFound then treturn (Inr None) else treturn (Inl e)
      | Inr encoded \<Rightarrow> tcheck (ParseAttachedChunkID encoded) (\<lambda>chunk_id. treturn (Inr (Some chunk_id))))"

fun parse_page :: "(bytes \<times> bytes) list \<Rightarrow> ChunkMapping list \<Rightarrow> ChunkMapping list res" where
  "parse_page [] acc = Inr acc"
| "parse_page ((index_field, id_value) # page) acc = (case from_chars (2 ^ 64 - 1) index_field of
      None \<Rightarrow> Inl kMalformed
    | Some (index, suffix) \<Rightarrow> if suffix \<noteq> [] then Inl kMalformed
        else chk (ParseAttachedChunkID id_value) (\<lambda>chunk_id.
          parse_page page (acc @ [\<lparr>cm_index = of_nat index, cm_chunk_id = chunk_id\<rparr>])))"

fun scan_mappings :: "nat \<Rightarrow> bytes \<Rightarrow> u64 \<Rightarrow> ChunkMapping list \<Rightarrow> ('v, ChunkMapping list) tx" where
  "scan_mappings 0 k cursor acc = treturn (Inl kUnavailable)"
| "scan_mappings (Suc n) k cursor acc =
    tbind (HScan k cursor 128) (\<lambda>(page, next_cursor).
    tcheck (parse_page page acc) (\<lambda>acc.
    if next_cursor \<noteq> 0 then scan_mappings n k next_cursor acc else treturn (Inr acc)))"

fun has_duplicate :: "ChunkMapping list \<Rightarrow> bool" where
  "has_duplicate (a # b # r) \<longleftrightarrow> cm_index a = cm_index b \<or> has_duplicate (b # r)"
| "has_duplicate _ \<longleftrightarrow> False"

definition ReadFileMappingSnapshot :: "meta_env \<Rightarrow> u64 \<Rightarrow> ('v, FileMappingSnapshot) tx" where
  "ReadFileMappingSnapshot E ino =
    tbind (LookupInode E ino) (\<lambda>inode.
    if \<not> IsRegular inode then treturn (Inl kInvalidArgument) else
    tbind (scan_mappings (me_fuel E) (K_ChunkRefs (me_key E) ino) 0 []) (\<lambda>mappings.
    let mappings = sort_key cm_index mappings in
    if has_duplicate mappings then treturn (Inl kMalformed)
    else treturn (Inr \<lparr>fm_inode = inode, fm_mappings = mappings\<rparr>)))"

definition mt_ProbeAttachment :: "meta_env \<Rightarrow> u64 \<Rightarrow> u64 \<Rightarrow> ('v, u64 option) tx" where
  "mt_ProbeAttachment E ino index = tbind (LookupInode E ino) (\<lambda>_. LookupAttachment E ino index)"

text \<open>The check of the attachment at the old EOF, shared by \<open>AttachPrepared\<close> and \<open>FinalizeAttachedWrite\<close>.\<close>

definition check_boundary :: "meta_env \<Rightarrow> u64 \<Rightarrow> FileSizePrecondition \<Rightarrow> ('v, unit) tx" where
  "check_boundary E ino expected = (case fp_boundary expected of
      None \<Rightarrow> treturn (Inr ())
    | Some b \<Rightarrow> tbind (LookupAttachment E ino (bs_index b)) (\<lambda>observed.
        if observed \<noteq> bs_chunk_id b then treturn (Inl kAlreadyExists) else treturn (Inr ())))"

definition grow_to :: "u64 \<Rightarrow> SwordFsInode \<Rightarrow> SwordFsInode" where
  "grow_to end_off i = i\<lparr>i_attr := (i_attr i)\<lparr>a_size := max (a_size (i_attr i)) end_off\<rparr>\<rparr>"

definition mt_AttachPrepared :: "meta_env \<Rightarrow> u64 \<Rightarrow> u64 \<Rightarrow> u64 \<Rightarrow> u64 \<Rightarrow> FileSizePrecondition \<Rightarrow> ('v, unit) tx" where
  "mt_AttachPrepared E ino index chunk_id end_off expected =
    tcheck (ValidateFileChunkWrite index chunk_id end_off (me_chunk_size E)) (\<lambda>_.
    tcheck (ValidateFileSizePrecondition expected (me_chunk_size E)) (\<lambda>_.
    tbind (LookupInode E ino) (\<lambda>inode.
    if \<not> IsRegular inode then treturn (Inl kInvalidArgument) else
    tbind (LookupAttachment E ino index) (\<lambda>current.
    tcheck (CheckContentMetadataMutationPolicy (i_attr inode)) (\<lambda>_.
    if a_size (i_attr inode) \<noteq> fp_eof expected \<or> current \<noteq> None then treturn (Inl kAlreadyExists) else
    tbind (check_boundary E ino expected) (\<lambda>_.
    tbind (tnow E) (\<lambda>now.
    tbind (SetInode E (Touch now (fMtime OR fCtime) (grow_to end_off inode))) (\<lambda>_.
    HSet (K_ChunkRefs (me_key E) ino) (number index) (number chunk_id)))))))))"

definition mt_FinalizeAttachedWrite :: "meta_env \<Rightarrow> u64 \<Rightarrow> u64 \<Rightarrow> u64 \<Rightarrow> u64 \<Rightarrow> FileSizePrecondition \<Rightarrow> ('v, unit) tx" where
  "mt_FinalizeAttachedWrite E ino index chunk_id end_off expected =
    tcheck (ValidateFileChunkWrite index chunk_id end_off (me_chunk_size E)) (\<lambda>_.
    tcheck (ValidateFileSizePrecondition expected (me_chunk_size E)) (\<lambda>_.
    tbind (LookupInode E ino) (\<lambda>inode.
    if \<not> IsRegular inode then treturn (Inl kInvalidArgument) else
    tbind (LookupAttachment E ino index) (\<lambda>current.
    if current \<noteq> Some chunk_id then treturn (Inl kAlreadyExists) else
    tbind (check_boundary E ino expected) (\<lambda>_.
    if a_size (i_attr inode) \<noteq> fp_eof expected then treturn (Inl kAlreadyExists) else
    tcheck (CheckContentMetadataMutationPolicy (i_attr inode)) (\<lambda>_.
    tbind (tnow E) (\<lambda>now.
    SetInode E (Touch now (fMtime OR fCtime) (grow_to end_off inode)))))))))"

section \<open>Size changes\<close>

definition QueuePendingDelete :: "meta_env \<Rightarrow> PendingDelete \<Rightarrow> ('v, unit) tx" where
  "QueuePendingDelete E pending =
    tcheck (pending_SerializeTo (me_io E) pending) (\<lambda>encoded. HSet (K_PendingDeletes (me_key E)) (pd_id pending) encoded)"

definition mt_RegisterPendingDeletes :: "meta_env \<Rightarrow> PendingDelete list \<Rightarrow> ('v, unit) tx" where
  "mt_RegisterPendingDeletes E work = tseq (map (QueuePendingDelete E) work)"

definition queue_detached :: "meta_env \<Rightarrow> u64 \<Rightarrow> ChunkMapping list \<Rightarrow> ('v, unit) tx" where
  "queue_detached E ino detached =
    (if detached = [] then treturn (Inr ())
     else case me_encoder E of
        None \<Rightarrow> treturn (Inl kInternal)
      | Some enc \<Rightarrow> tseq (map (\<lambda>m. tcheck (EncodeDetachedDelete enc ino m) (QueuePendingDelete E)) detached))"

definition detach_mappings :: "meta_env \<Rightarrow> u64 \<Rightarrow> ChunkMapping list \<Rightarrow> ('v, unit) tx" where
  "detach_mappings E ino detached = tseq (map (\<lambda>m. HDel (K_ChunkRefs (me_key E) ino) (number (cm_index m))) detached)"

definition CommitSizeChange :: "meta_env \<Rightarrow> u64 \<Rightarrow> ChunkSizePlan \<Rightarrow> SwordFsAttr \<Rightarrow> u32 \<Rightarrow> bool \<Rightarrow> ('v, ChunkSizeCommitResult) tx" where
  "CommitSizeChange E ino plan requested fs is_shrink =
    (if \<not> HasSetAttrField fs fSize \<or> a_size requested \<noteq> pl_target_eof plan then treturn (Inl kInvalidArgument) else
     tbind (ReadFileMappingSnapshot E ino) (\<lambda>snapshot.
     let old_size = a_size (i_attr (fm_inode snapshot)) in
     tcheck (ValidateSizeCommitPlan plan old_size (me_chunk_size E) (fm_mappings snapshot) is_shrink) (\<lambda>current.
     tbind (tnow E) (\<lambda>now.
     tcheck (PrepareSetAttrMutation now (fm_inode snapshot) requested fs) (\<lambda>updated.
     tcheck (PlanChunkSizeLayout old_size (me_chunk_size E)) (\<lambda>old_layout.
     tcheck (PlanChunkSizeLayout (pl_target_eof plan) (me_chunk_size E)) (\<lambda>new_layout.
     let detached = filter (\<lambda>m. is_shrink \<and> ShouldDetach new_layout (cm_index m)
           \<or> \<not> is_shrink \<and> ShouldDetach old_layout (cm_index m)) (fm_mappings snapshot) in
     tbind (queue_detached E ino detached) (\<lambda>_.
     tbind (if is_shrink then tbind (SetInode E updated) (\<lambda>_. detach_mappings E ino detached)
            else tbind (detach_mappings E ino detached) (\<lambda>_. SetInode E updated)) (\<lambda>_.
     treturn (Inr \<lparr>cr_inode = updated, cr_detached = detached, cr_boundary = pl_boundary current\<rparr>))))))))))"

definition mt_CommitShrink :: "meta_env \<Rightarrow> u64 \<Rightarrow> ChunkSizePlan \<Rightarrow> SwordFsAttr \<Rightarrow> u32 \<Rightarrow> ('v, ChunkSizeCommitResult) tx" where
  "mt_CommitShrink E ino plan requested fs = CommitSizeChange E ino plan requested fs True"

definition mt_CommitGrow :: "meta_env \<Rightarrow> u64 \<Rightarrow> ChunkSizePlan \<Rightarrow> SwordFsAttr \<Rightarrow> u32 \<Rightarrow> ('v, ChunkSizeCommitResult) tx" where
  "mt_CommitGrow E ino plan requested fs = CommitSizeChange E ino plan requested fs False"

section \<open>Reclaim\<close>

definition ClearOrphanMarker :: "meta_env \<Rightarrow> u64 \<Rightarrow> ('v, unit) tx" where
  "ClearOrphanMarker E ino = HDel (K_Orphans (me_key E)) (number ino)"

definition mt_CompleteReclaim :: "meta_env \<Rightarrow> u64 \<Rightarrow> ('v, unit) tx" where
  "mt_CompleteReclaim E ino = HDel (K_Reclaims (me_key E)) (number ino)"

definition mt_CompletePendingDelete :: "meta_env \<Rightarrow> bytes \<Rightarrow> ('v, unit) tx" where
  "mt_CompletePendingDelete E object_key = HDel (K_PendingDeletes (me_key E)) object_key"

definition reclaim_inode :: "meta_env \<Rightarrow> u64 \<Rightarrow> ChunkMapping list \<Rightarrow> ('v, ReclaimWork option) tx" where
  "reclaim_inode E ino mappings = (case me_encoder E of
      None \<Rightarrow> treturn (Inl kInternal)
    | Some enc \<Rightarrow>
        tcheck (EncodeDetachedReclaim enc ino mappings) (\<lambda>pending.
        tcheck (reclaim_SerializeTo (me_io E) pending) (\<lambda>serialized.
        tbind (Del (K_Inode (me_key E) ino)) (\<lambda>_.
        tbind (Del (K_ChunkRefs (me_key E) ino)) (\<lambda>_.
        tbind (ClearOrphanMarker E ino) (\<lambda>_.
        tbind (HSet (K_Reclaims (me_key E)) (number ino) serialized) (\<lambda>_.
        treturn (Inr (Some pending)))))))))"

definition mt_PrepareReclaim :: "meta_env \<Rightarrow> u64 \<Rightarrow> ('v, ReclaimWork option) tx" where
  "mt_PrepareReclaim E ino =
    tcase (LookupInode E ino) (\<lambda>status.
      case status of
        Inl e \<Rightarrow> if e \<noteq> kNotFound then treturn (Inl e)
          else tbind (ClearOrphanMarker E ino) (\<lambda>_. treturn (Inr None))
      | Inr inode \<Rightarrow>
          if IsDir inode \<or> i_nlink inode \<noteq> 0 then
            tbind (ClearOrphanMarker E ino) (\<lambda>_. tbind (mt_CompleteReclaim E ino) (\<lambda>_. treturn (Inr None)))
          else if IsRegular inode then
            tbind (ReadFileMappingSnapshot E ino) (\<lambda>typed. reclaim_inode E ino (fm_mappings typed))
          else reclaim_inode E ino [])"

section \<open>Directory entries\<close>

definition entry_for :: "bytes \<Rightarrow> SwordFsInode \<Rightarrow> SwordFsEntry" where
  "entry_for name child = \<lparr>e_name = name, e_type = ModeToDt (i_mode child), e_ino = i_ino child\<rparr>"

definition LinkEntry :: "meta_env \<Rightarrow> u64 \<Rightarrow> bytes \<Rightarrow> SwordFsInode \<Rightarrow> SwordFsInode \<Rightarrow> ('v, SwordFsInode) tx" where
  "LinkEntry E parent_ino name child parent =
    (if \<not> IsDir parent then treturn (Inl kNotDirectory) else
     tbind (tnow E) (\<lambda>now.
     let parent = Touch now (fMtime OR fCtime) (if IsDir child then set_nlink (i_nlink parent + 1) parent else parent) in
     tcheck (entry_SerializeTo (me_io E) (entry_for name child)) (\<lambda>value.
     tbind (HSet (K_Directory (me_key E) parent_ino) name value) (\<lambda>_. treturn (Inr parent)))))"

definition DetachEntry :: "meta_env \<Rightarrow> u64 \<Rightarrow> bytes \<Rightarrow> SwordFsInode \<Rightarrow> SwordFsInode \<Rightarrow> ('v, SwordFsInode) tx" where
  "DetachEntry E parent_ino name target parent =
    (if \<not> IsDir parent then treturn (Inl kNotDirectory)
     else if IsDir target \<and> i_nlink parent \<le> 2 then treturn (Inl kMalformed) else
     tbind (tnow E) (\<lambda>now.
     let parent = Touch now (fMtime OR fCtime) (if IsDir target then set_nlink (i_nlink parent - 1) parent else parent) in
     tbind (HDel (K_Directory (me_key E) parent_ino) name) (\<lambda>_. treturn (Inr parent))))"

definition ReplaceEntry :: "meta_env \<Rightarrow> u64 \<Rightarrow> bytes \<Rightarrow> SwordFsInode \<Rightarrow> SwordFsInode \<Rightarrow> ('v, SwordFsInode) tx" where
  "ReplaceEntry E parent_ino name child parent =
    (if \<not> IsDir parent then treturn (Inl kNotDirectory) else
     tbind (tnow E) (\<lambda>now.
     let parent = Touch now (fMtime OR fCtime) parent in
     tcheck (entry_SerializeTo (me_io E) (entry_for name child)) (\<lambda>value.
     tbind (HSet (K_Directory (me_key E) parent_ino) name value) (\<lambda>_. treturn (Inr parent)))))"

text \<open>\<open>AddEntry\<close>: an existing name is an error, after a check that its inode exists.\<close>

definition mt_AddEntry :: "meta_env \<Rightarrow> u64 \<Rightarrow> bytes \<Rightarrow> SwordFsInode \<Rightarrow> SwordFsInode \<Rightarrow> ('v, unit) tx" where
  "mt_AddEntry E parent_ino name child parent =
    (if i_ino parent \<noteq> parent_ino \<or> i_parent_ino child \<noteq> parent_ino then treturn (Inl kInvalidArgument) else
     tcheck (CheckDirectoryAdditionPolicy (i_attr parent)) (\<lambda>_.
     tcase (HGet (K_Directory (me_key E) parent_ino) name) (\<lambda>status.
       case status of
         Inr existing_value \<Rightarrow>
           tcheck (entry_ParseFrom (me_io E) existing_value) (\<lambda>existing_entry.
           tcase (LookupInode E (e_ino existing_entry)) (\<lambda>status.
             case status of
               Inl e \<Rightarrow> treturn (Inl (if e = kNotFound then kMalformed else e))
             | Inr _ \<Rightarrow> treturn (Inl kAlreadyExists)))
       | Inl e \<Rightarrow>
           if e \<noteq> kNotFound then treturn (Inl e) else
           tbind (SetInode E child) (\<lambda>_.
           tbind (LinkEntry E parent_ino name child parent) (\<lambda>parent.
           tbind (SetInode E parent) (\<lambda>_. AdjustInodeCount E 1))))))"

definition mt_UnlinkFile :: "meta_env \<Rightarrow> u64 \<Rightarrow> bytes \<Rightarrow> SwordFsInode \<Rightarrow> SwordFsInode \<Rightarrow> ('v, SwordFsInode \<times> SwordFsInode) tx" where
  "mt_UnlinkFile E parent_ino name parent child =
    (if i_ino parent \<noteq> parent_ino then treturn (Inl kInvalidArgument)
     else if IsDir child then treturn (Inl kInvalidArgument) else
     tcheck (CheckDirectoryRemovalPolicy (i_attr parent)) (\<lambda>_.
     tcheck (CheckContentMetadataMutationPolicy (i_attr child)) (\<lambda>_.
     tcheck (AdjustNlink child (- 1)) (\<lambda>child.
     tbind (tnow E) (\<lambda>now.
     let child = Touch now fCtime child in
     tbind (DetachEntry E parent_ino name child parent) (\<lambda>parent.
     tbind (SetInode E parent) (\<lambda>_.
     tbind (SetInode E child) (\<lambda>_.
     tbind (if i_nlink child = 0 then HSet (K_Orphans (me_key E)) (number (i_ino child)) (ascii ''1'') else treturn (Inr ())) (\<lambda>_.
     treturn (Inr (parent, child)))))))))))"

definition mt_RemoveDirectory :: "meta_env \<Rightarrow> u64 \<Rightarrow> bytes \<Rightarrow> SwordFsInode \<Rightarrow> SwordFsInode \<Rightarrow> ('v, SwordFsInode) tx" where
  "mt_RemoveDirectory E parent_ino name parent child =
    (if i_ino parent \<noteq> parent_ino \<or> i_parent_ino child \<noteq> parent_ino then treturn (Inl kInvalidArgument)
     else if \<not> IsDir child then treturn (Inl kNotDirectory) else
     tcheck (CheckDirectoryRemovalPolicy (i_attr parent)) (\<lambda>_.
     tcheck (CheckContentMetadataMutationPolicy (i_attr child)) (\<lambda>_.
     tbind (HLen (K_Directory (me_key E) (i_ino child))) (\<lambda>len.
     if len \<noteq> 0 then treturn (Inl kNotEmpty) else
     tbind (DetachEntry E parent_ino name child parent) (\<lambda>parent.
     tbind (DeleteInode E (i_ino child)) (\<lambda>_.
     tbind (SetInode E parent) (\<lambda>_. treturn (Inr parent))))))))"

text \<open>The two parents of a rename: \<open>None\<close> is the same object.\<close>

type_synonym parents = "SwordFsInode \<times> SwordFsInode option"

definition new_of :: "parents \<Rightarrow> SwordFsInode" where
  "new_of ps = (case snd ps of None \<Rightarrow> fst ps | Some p \<Rightarrow> p)"

definition with_new :: "SwordFsInode \<Rightarrow> parents \<Rightarrow> parents" where
  "with_new p ps = (case snd ps of None \<Rightarrow> (p, None) | Some _ \<Rightarrow> (fst ps, Some p))"

definition set_parents :: "meta_env \<Rightarrow> parents \<Rightarrow> ('v, unit) tx" where
  "set_parents E ps = tbind (SetInode E (fst ps)) (\<lambda>_. case snd ps of None \<Rightarrow> treturn (Inr ()) | Some p \<Rightarrow> SetInode E p)"

definition check_parents :: "u64 \<Rightarrow> u64 \<Rightarrow> parents \<Rightarrow> unit res" where
  "check_parents old_ino new_ino ps =
    chk (reject (i_ino (fst ps) \<noteq> old_ino \<or> i_ino (new_of ps) \<noteq> new_ino) kInvalidArgument) (\<lambda>_.
    chk (reject ((old_ino = new_ino) \<noteq> (snd ps = None)) kInvalidArgument) (\<lambda>_.
    reject (\<not> IsDir (fst ps) \<or> \<not> IsDir (new_of ps)) kNotDirectory))"

definition not_into_itself :: "meta_env \<Rightarrow> SwordFsInode \<Rightarrow> u64 \<Rightarrow> ('v, unit) tx" where
  "not_into_itself E inode parent_ino =
    (if \<not> IsDir inode then treturn (Inr ()) else
     tbind (IsDescendantOf E (i_ino inode) parent_ino) (\<lambda>cycle.
     if cycle then treturn (Inl kInvalidArgument) else treturn (Inr ())))"

definition reparent :: "u64 \<Rightarrow> i64 \<Rightarrow> SwordFsInode \<Rightarrow> SwordFsInode" where
  "reparent p now i = Touch now fCtime (i\<lparr>i_parent_ino := p\<rparr>)"

definition replace_target :: "meta_env \<Rightarrow> u64 \<Rightarrow> bytes \<Rightarrow> parents \<Rightarrow> SwordFsInode \<Rightarrow> SwordFsInode \<Rightarrow> ('v, parents) tx" where
  "replace_target E new_ino new_name ps source target =
    tcheck (CheckDirectoryRemovalPolicy (i_attr (new_of ps))) (\<lambda>_.
    tcheck (CheckContentMetadataMutationPolicy (i_attr target)) (\<lambda>_.
    if IsDir source \<noteq> IsDir target then treturn (Inl (if IsDir source then kNotDirectory else kIsDirectory))
    else if IsDir target then
      tbind (mt_RemoveDirectory E new_ino new_name (new_of ps) target) (\<lambda>p. treturn (Inr (with_new p ps)))
    else
      tbind (mt_UnlinkFile E new_ino new_name (new_of ps) target) (\<lambda>(p, _). treturn (Inr (with_new p ps)))))"

definition move_source :: "meta_env \<Rightarrow> u64 \<Rightarrow> bytes \<Rightarrow> u64 \<Rightarrow> bytes \<Rightarrow> parents \<Rightarrow> SwordFsInode \<Rightarrow> ('v, unit) tx" where
  "move_source E old_ino old_name new_ino new_name ps source =
    tbind (DetachEntry E old_ino old_name source (fst ps)) (\<lambda>op.
    tbind (LinkEntry E new_ino new_name source (new_of (op, snd ps))) (\<lambda>np.
    let ps = with_new np (op, snd ps) in
    tbind (tnow E) (\<lambda>now.
    tbind (set_parents E ps) (\<lambda>_.
    SetInode E (reparent new_ino now source)))))"

definition mt_MoveEntry :: "meta_env \<Rightarrow> u64 \<Rightarrow> bytes \<Rightarrow> u64 \<Rightarrow> bytes \<Rightarrow> parents \<Rightarrow> SwordFsInode \<Rightarrow> SwordFsInode option \<Rightarrow> bool \<Rightarrow> ('v, unit) tx" where
  "mt_MoveEntry E old_ino old_name new_ino new_name ps source target overwrite =
    tcheck (check_parents old_ino new_ino ps) (\<lambda>_.
    tcheck (CheckDirectoryRemovalPolicy (i_attr (fst ps))) (\<lambda>_.
    tcheck (CheckDirectoryAdditionPolicy (i_attr (new_of ps))) (\<lambda>_.
    tcheck (CheckContentMetadataMutationPolicy (i_attr source)) (\<lambda>_.
    tbind (not_into_itself E source new_ino) (\<lambda>_.
    case target of
      None \<Rightarrow> move_source E old_ino old_name new_ino new_name ps source
    | Some tgt \<Rightarrow>
        if \<not> overwrite then treturn (Inl kAlreadyExists)
        else if i_ino tgt = i_ino source then treturn (Inr ())
        else tbind (replace_target E new_ino new_name ps source tgt) (\<lambda>ps.
          move_source E old_ino old_name new_ino new_name ps source))))))"

text \<open>An exchange shifts a link from one parent to the other when exactly one of the two is a directory.\<close>

definition shift_links :: "SwordFsInode \<Rightarrow> SwordFsInode \<Rightarrow> parents \<Rightarrow> parents res" where
  "shift_links source target ps = (let delta = (of_bool (IsDir target) - of_bool (IsDir source) :: int) in
     case snd ps of
        None \<Rightarrow> Inr ps
      | Some np \<Rightarrow> if delta = 0 then Inr ps
          else chk (AdjustNlink (fst ps) delta) (\<lambda>op. chk (AdjustNlink np (- delta)) (\<lambda>np. Inr (op, Some np))))"

definition mt_ExchangeEntries :: "meta_env \<Rightarrow> u64 \<Rightarrow> bytes \<Rightarrow> u64 \<Rightarrow> bytes \<Rightarrow> parents \<Rightarrow> SwordFsInode \<Rightarrow> SwordFsInode \<Rightarrow> ('v, unit) tx" where
  "mt_ExchangeEntries E old_ino old_name new_ino new_name ps source target =
    tcheck (check_parents old_ino new_ino ps) (\<lambda>_.
    tcheck (CheckDirectoryRemovalPolicy (i_attr (fst ps))) (\<lambda>_.
    tcheck (CheckDirectoryRemovalPolicy (i_attr (new_of ps))) (\<lambda>_.
    tcheck (CheckContentMetadataMutationPolicy (i_attr source)) (\<lambda>_.
    tcheck (CheckContentMetadataMutationPolicy (i_attr target)) (\<lambda>_.
    if i_ino source = i_ino target then treturn (Inr ()) else
    tbind (not_into_itself E source new_ino) (\<lambda>_.
    tbind (not_into_itself E target old_ino) (\<lambda>_.
    tcheck (shift_links source target ps) (\<lambda>ps.
    tbind (ReplaceEntry E old_ino old_name target (fst ps)) (\<lambda>op.
    tbind (ReplaceEntry E new_ino new_name source (new_of (op, snd ps))) (\<lambda>np.
    let ps = with_new np (op, snd ps) in
    tbind (tnow E) (\<lambda>now.
    tbind (set_parents E ps) (\<lambda>_.
    tbind (SetInode E (reparent new_ino now source)) (\<lambda>_.
    SetInode E (reparent old_ino now target))))))))))))))"

definition mt_LinkExistingEntry :: "meta_env \<Rightarrow> u64 \<Rightarrow> bytes \<Rightarrow> SwordFsInode \<Rightarrow> SwordFsInode \<Rightarrow> ('v, SwordFsInode) tx" where
  "mt_LinkExistingEntry E parent_ino name parent inode =
    (if i_ino parent \<noteq> parent_ino then treturn (Inl kInvalidArgument)
     else if \<not> IsDir parent then treturn (Inl kNotDirectory)
     else if IsDir inode then treturn (Inl kNotPermitted) else
     tcheck (CheckDirectoryAdditionPolicy (i_attr parent)) (\<lambda>_.
     tcheck (CheckContentMetadataMutationPolicy (i_attr inode)) (\<lambda>_.
     tcase (LookupEntryIn E parent name) (\<lambda>status.
       case status of
         Inr _ \<Rightarrow> treturn (Inl kAlreadyExists)
       | Inl e \<Rightarrow>
           if e \<noteq> kNotFound then treturn (Inl e) else
           tbind (LinkEntry E parent_ino name inode parent) (\<lambda>parent.
           tcheck (AdjustNlink inode 1) (\<lambda>linked.
           tbind (if i_nlink inode = 0 then ClearOrphanMarker E (i_ino inode) else treturn (Inr ())) (\<lambda>_.
           tbind (tnow E) (\<lambda>now.
           let linked = Touch now fCtime linked in
           tbind (SetInode E parent) (\<lambda>_.
           tbind (SetInode E linked) (\<lambda>_.
           treturn (Inr linked)))))))))))"

text \<open>The model's own parameters: the reference server, decimal keys and the little-endian codec.\<close>

definition local_env :: "int \<Rightarrow> bytes \<Rightarrow> (nat \<Rightarrow> i64) \<Rightarrow> u64 \<Rightarrow> encoder option \<Rightarrow> nat \<Rightarrow> meta_env" where
  "local_env db volume now chunk_size enc fuel = \<lparr>me_key = dec_key db volume, me_io = le_io, me_now = now, me_chunk_size = chunk_size,
     me_encoder = enc, me_fuel = fuel\<rparr>"

end
