(* ===== verification/Namespace.thy ===== *)
theory Namespace
  imports Prelude
begin

text \<open>
  The file tree a volume promises: an abstract specification of the namespace, independent of how it is stored.

  A tree says which inodes exist and which are directories, where each was last linked, what the entries of each
  directory refer to and the link counts. \<open>tree_ok\<close> is the consistency a POSIX namespace has: every entry
  refers to an existing inode from an existing directory, a file has as many links as names, a directory
  has exactly one name, below its parent, and two links plus one per child directory, and every directory is reached
  from the root. The operations of the metadata engine act on a tree as the functions \<open>t_add\<close>, \<open>t_unlink\<close>,
  \<open>t_rmdir\<close>, \<open>t_link\<close>, \<open>t_move\<close>, \<open>t_exchange\<close> and \<open>t_reclaim\<close>; each keeps \<open>tree_ok\<close>.
\<close>

record tree =
  kind :: "u64 \<Rightarrow> bool option"
  up :: "u64 \<Rightarrow> u64"
  ent :: "u64 \<Rightarrow> bytes \<Rightarrow> u64 option"
  cnt :: "u64 \<Rightarrow> nat"

definition kRootInodeId :: u64 where "kRootInodeId = 1"

abbreviation is_dir :: "tree \<Rightarrow> u64 \<Rightarrow> bool" where
  "is_dir T i \<equiv> kind T i = Some True"

definition links :: "tree \<Rightarrow> u64 \<Rightarrow> (u64 \<times> bytes) set" where
  "links T c = {(p, n). ent T p n = Some c}"

definition subdirs :: "tree \<Rightarrow> u64 \<Rightarrow> bytes set" where
  "subdirs T p = {n. \<exists>c. ent T p n = Some c \<and> is_dir T c}"

definition upr :: "tree \<Rightarrow> (u64 \<times> u64) set" where
  "upr T = {(i, up T i) | i. is_dir T i \<and> i \<noteq> kRootInodeId}"

definition tree_ok :: "tree \<Rightarrow> bool" where
  "tree_ok T \<longleftrightarrow> (\<forall>p. finite (dom (ent T p)))
     \<and> is_dir T kRootInodeId \<and> up T kRootInodeId = kRootInodeId \<and> links T kRootInodeId = {}
     \<and> (\<forall>p n c. ent T p n = Some c \<longrightarrow> is_dir T p \<and> kind T c \<noteq> None)
     \<and> (\<forall>i. kind T i = Some False \<longrightarrow> cnt T i = card (links T i))
     \<and> (\<forall>i. is_dir T i \<longrightarrow> cnt T i = 2 + card (subdirs T i))
     \<and> (\<forall>i. is_dir T i \<and> i \<noteq> kRootInodeId \<longrightarrow> (\<exists>n. links T i = {(up T i, n)}))
     \<and> (\<forall>i. is_dir T i \<longrightarrow> (i, kRootInodeId) \<in> (upr T)\<^sup>*)"

section \<open>Operations\<close>

definition set_ent :: "u64 \<Rightarrow> bytes \<Rightarrow> u64 option \<Rightarrow> tree \<Rightarrow> tree" where
  "set_ent p n c T = T\<lparr>ent := (ent T)(p := (ent T p)(n := c))\<rparr>"

definition drop_inode :: "u64 \<Rightarrow> tree \<Rightarrow> tree" where
  "drop_inode c T = T\<lparr>kind := (kind T)(c := None), up := (up T)(c := 0), cnt := (cnt T)(c := 0)\<rparr>"

definition add_cnt :: "u64 \<Rightarrow> bool \<Rightarrow> tree \<Rightarrow> tree" where
  "add_cnt p b T = T\<lparr>cnt := (cnt T)(p := cnt T p + of_bool b)\<rparr>"

definition sub_cnt :: "u64 \<Rightarrow> bool \<Rightarrow> tree \<Rightarrow> tree" where
  "sub_cnt p b T = T\<lparr>cnt := (cnt T)(p := cnt T p - of_bool b)\<rparr>"

definition set_up :: "u64 \<Rightarrow> u64 \<Rightarrow> tree \<Rightarrow> tree" where
  "set_up c p T = T\<lparr>up := (up T)(c := p)\<rparr>"

definition t_add :: "u64 \<Rightarrow> bytes \<Rightarrow> u64 \<Rightarrow> bool \<Rightarrow> tree \<Rightarrow> tree" where
  "t_add p n c d T = add_cnt p d (set_ent p n (Some c)
     (T\<lparr>kind := (kind T)(c := Some d), up := (up T)(c := p), cnt := (cnt T)(c := if d then 2 else 1)\<rparr>))"

definition t_unlink :: "u64 \<Rightarrow> bytes \<Rightarrow> u64 \<Rightarrow> tree \<Rightarrow> tree" where
  "t_unlink p n c T = sub_cnt c True (set_ent p n None T)"

definition t_rmdir :: "u64 \<Rightarrow> bytes \<Rightarrow> u64 \<Rightarrow> tree \<Rightarrow> tree" where
  "t_rmdir p n c T = sub_cnt p True (drop_inode c (set_ent p n None T))"

definition t_link :: "u64 \<Rightarrow> bytes \<Rightarrow> u64 \<Rightarrow> tree \<Rightarrow> tree" where
  "t_link p n c T = add_cnt c True (set_ent p n (Some c) T)"

definition t_move :: "u64 \<Rightarrow> bytes \<Rightarrow> u64 \<Rightarrow> bytes \<Rightarrow> u64 \<Rightarrow> tree \<Rightarrow> tree" where
  "t_move p n q m c T = set_up c q (add_cnt q (is_dir T c) (set_ent q m (Some c)
     (sub_cnt p (is_dir T c) (set_ent p n None T))))"

definition t_exchange :: "u64 \<Rightarrow> bytes \<Rightarrow> u64 \<Rightarrow> bytes \<Rightarrow> u64 \<Rightarrow> u64 \<Rightarrow> tree \<Rightarrow> tree" where
  "t_exchange p n q m c e T =
    (let T1 = set_up e p (set_up c q (set_ent q m (Some c) (set_ent p n (Some e) T)))
     in if p = q then T1
        else T1\<lparr>cnt := (cnt T)(p := cnt T p + of_bool (is_dir T e) - of_bool (is_dir T c),
                              q := cnt T q + of_bool (is_dir T c) - of_bool (is_dir T e))\<rparr>)"

definition t_reclaim :: "u64 \<Rightarrow> tree \<Rightarrow> tree" where
  "t_reclaim c T = drop_inode c T"

lemmas tree_defs = set_ent_def drop_inode_def add_cnt_def sub_cnt_def set_up_def t_add_def t_unlink_def t_rmdir_def
  t_link_def t_move_def t_reclaim_def

section \<open>Consequences of consistency\<close>

lemma tree_okD:
  assumes "tree_ok T"
  shows "finite (dom (ent T p))" "is_dir T kRootInodeId" "up T kRootInodeId = kRootInodeId" "links T kRootInodeId = {}"
    "ent T p n = Some c \<Longrightarrow> is_dir T p" "ent T p n = Some c \<Longrightarrow> kind T c \<noteq> None"
    "kind T i = Some False \<Longrightarrow> cnt T i = card (links T i)" "is_dir T i \<Longrightarrow> cnt T i = 2 + card (subdirs T i)"
    "\<lbrakk> is_dir T i; i \<noteq> kRootInodeId \<rbrakk> \<Longrightarrow> \<exists>n. links T i = {(up T i, n)}"
    "is_dir T i \<Longrightarrow> (i, kRootInodeId) \<in> (upr T)\<^sup>*"
proof -
  note ok = assms [unfolded tree_ok_def]
  show "finite (dom (ent T p))" "is_dir T kRootInodeId" "up T kRootInodeId = kRootInodeId" "links T kRootInodeId = {}"
    using ok by simp_all
  show "ent T p n = Some c \<Longrightarrow> is_dir T p" "ent T p n = Some c \<Longrightarrow> kind T c \<noteq> None"
    using ok [THEN conjunct2, THEN conjunct2, THEN conjunct2, THEN conjunct2, THEN conjunct1] by blast+
  show "kind T i = Some False \<Longrightarrow> cnt T i = card (links T i)" "is_dir T i \<Longrightarrow> cnt T i = 2 + card (subdirs T i)"
    using ok by simp_all
  show "\<lbrakk> is_dir T i; i \<noteq> kRootInodeId \<rbrakk> \<Longrightarrow> \<exists>n. links T i = {(up T i, n)}" "is_dir T i \<Longrightarrow> (i, kRootInodeId) \<in> (upr T)\<^sup>*"
    using ok by simp_all
qed

lemma finite_subdirs: "tree_ok T \<Longrightarrow> finite (subdirs T p)"
  by (rule finite_subset [OF _ tree_okD(1) [of T p]]) (auto simp: subdirs_def)

lemma finite_links: "tree_ok T \<Longrightarrow> finite (links T c)"
  by (rule finite_subset [of _ "Sigma UNIV (\<lambda>p. dom (ent T p))"]) (auto simp: links_def tree_okD(1))

lemma dir_entry:
  assumes "tree_ok T" "ent T p n = Some c" "is_dir T c"
  shows "c \<noteq> kRootInodeId" "p = up T c" "links T c = {(p, n)}"
proof -
  show root: "c \<noteq> kRootInodeId"
    using assms(2) tree_okD(4) [OF assms(1)] by (auto simp: links_def)
  obtain m where m: "links T c = {(up T c, m)}"
    using tree_okD(9) [OF assms(1,3) root] by blast
  have "(p, n) \<in> links T c"
    using assms(2) by (simp add: links_def)
  then show "p = up T c" "links T c = {(p, n)}"
    using m by auto
qed

lemma dir_entry_unique:
  "\<lbrakk> tree_ok T; is_dir T c; ent T p n = Some c; ent T q m = Some c \<rbrakk> \<Longrightarrow> q = p \<and> m = n"
  using dir_entry(3) [of T p n c] by (auto simp: links_def set_eq_iff)

text \<open>The chain of parents is acyclic: nothing but the root is its own ancestor.\<close>

lemma upr_iff: "(i, j) \<in> upr T \<longleftrightarrow> is_dir T i \<and> i \<noteq> kRootInodeId \<and> j = up T i"
  by (auto simp: upr_def)

lemma upr_fun: "\<lbrakk> (i, j) \<in> upr T; (i, k) \<in> upr T \<rbrakk> \<Longrightarrow> j = k"
  by (auto simp: upr_def)

lemma upr_root: "(kRootInodeId, j) \<notin> upr T"
  by (simp add: upr_def)

lemma upr_single_valued: "single_valued (upr T)"
  by (auto simp: upr_def single_valued_def)

lemma upr_acyclic:
  assumes "tree_ok T"
  shows "(i, i) \<notin> (upr T)\<^sup>+"
proof
  assume cyc: "(i, i) \<in> (upr T)\<^sup>+"
  have stay: "(j, i) \<in> (upr T)\<^sup>+" if "(i, j) \<in> (upr T)\<^sup>*" for j
    using that
  proof (induction rule: rtrancl_induct)
    case base
    show ?case
      by (rule cyc)
  next
    case (step j k)
    obtain m where m: "(j, m) \<in> upr T" "(m, i) \<in> (upr T)\<^sup>*"
      using step.IH by (meson tranclD)
    then have "m = k"
      using step.hyps(2) upr_fun by metis
    then show ?case
      using m(2) cyc by (metis rtrancl_into_trancl2 rtrancl_trancl_trancl)
  qed
  have "is_dir T i"
    using cyc by (auto simp: upr_def dest!: tranclD)
  then have "(kRootInodeId, i) \<in> (upr T)\<^sup>+"
    using stay tree_okD(10) [OF assms] by blast
  then show False
    using upr_root by (meson tranclD)
qed

lemma tree_okI:
  assumes "\<And>p. finite (dom (ent T p))" "is_dir T kRootInodeId" "up T kRootInodeId = kRootInodeId" "links T kRootInodeId = {}"
    "\<And>p n c. ent T p n = Some c \<Longrightarrow> is_dir T p \<and> kind T c \<noteq> None"
    "\<And>i. kind T i = Some False \<Longrightarrow> cnt T i = card (links T i)" "\<And>i. is_dir T i \<Longrightarrow> cnt T i = 2 + card (subdirs T i)"
    "\<And>i. \<lbrakk> is_dir T i; i \<noteq> kRootInodeId \<rbrakk> \<Longrightarrow> \<exists>n. links T i = {(up T i, n)}"
    "\<And>i. is_dir T i \<Longrightarrow> (i, kRootInodeId) \<in> (upr T)\<^sup>*"
  shows "tree_ok T"
  unfolding tree_ok_def using assms by simp

lemma set_ent_simps [simp]:
  "kind (set_ent p n c T) = kind T" "up (set_ent p n c T) = up T" "cnt (set_ent p n c T) = cnt T"
  "ent (set_ent p n c T) q m = (if q = p \<and> m = n then c else ent T q m)"
  by (simp_all add: set_ent_def)

lemma upd_simps [simp]:
  "ent (drop_inode c T) = ent T" "ent (add_cnt c b T) = ent T" "ent (sub_cnt c b T) = ent T" "ent (set_up c q T) = ent T"
  "kind (drop_inode c T) = (kind T)(c := None)" "kind (add_cnt c b T) = kind T" "kind (sub_cnt c b T) = kind T"
  "kind (set_up c q T) = kind T"
  "up (drop_inode c T) = (up T)(c := 0)" "up (add_cnt c b T) = up T" "up (sub_cnt c b T) = up T" "up (set_up c q T) = (up T)(c := q)"
  "cnt (drop_inode c T) = (cnt T)(c := 0)" "cnt (add_cnt c b T) = (cnt T)(c := cnt T c + of_bool b)"
  "cnt (sub_cnt c b T) = (cnt T)(c := cnt T c - of_bool b)" "cnt (set_up c q T) = cnt T"
  by (simp_all add: drop_inode_def add_cnt_def sub_cnt_def set_up_def)

lemma no_links: "\<lbrakk> tree_ok T; kind T c = None \<rbrakk> \<Longrightarrow> links T c = {}"
  using tree_okD(6) [of T _ _ c] by (fastforce simp: links_def)

lemma no_entries: "\<lbrakk> tree_ok T; \<not> is_dir T c \<rbrakk> \<Longrightarrow> ent T c n = None"
  using tree_okD(5) [of T c n] by (cases "ent T c n") auto

lemma finite_dom_upd:
  assumes "finite (dom f)" "finite S" "\<And>m. m \<notin> S \<Longrightarrow> g m = f m"
  shows "finite (dom g)"
proof (rule finite_subset)
  show "dom g \<subseteq> S \<union> dom f"
    using assms(3) by (force simp: dom_def)
qed (use assms(1,2) in simp)

lemma card_swap: "\<lbrakk> finite A; x \<in> A; y \<notin> A \<rbrakk> \<Longrightarrow> card (insert y (A - {x})) = card A"
  using card_Suc_Diff1 [of A x] by (simp del: card_Diff_singleton)

lemma card_repoint:
  assumes "finite (dom f)" "f l = Some x"
  shows "card {k. \<exists>y. (f(l \<mapsto> z)) k = Some y \<and> P y} + of_bool (P x) = card {k. \<exists>y. f k = Some y \<and> P y} + of_bool (P z)"
proof -
  define A where "A = {k. k \<noteq> l \<and> (\<exists>y. f k = Some y \<and> P y)}"
  have "finite A" "l \<notin> A"
    using assms(1) by (auto simp: A_def dom_def elim!: finite_subset [rotated])
  moreover have "{k. \<exists>y. (f(l \<mapsto> z)) k = Some y \<and> P y} = (if P z then insert l A else A)"
    "{k. \<exists>y. f k = Some y \<and> P y} = (if P x then insert l A else A)"
    using assms(2) by (auto simp: A_def)
  ultimately show ?thesis
    by simp
qed

section \<open>Every operation keeps the tree consistent\<close>

lemma t_add_ok:
  assumes T: "tree_ok T" and p: "is_dir T p" and n: "ent T p n = None" and c: "kind T c = None"
  shows "tree_ok (t_add p n c d T)"
proof -
  define T' where "T' = t_add p n c d T"
  have ne: "c \<noteq> p" "c \<noteq> kRootInodeId"
    using p c tree_okD(2) [OF T] by auto
  have kind: "kind T' = (kind T)(c := Some d)" and up: "up T' = (up T)(c := p)"
    and ent: "ent T' q m = (if q = p \<and> m = n then Some c else ent T q m)"
    and cnt: "cnt T' = (cnt T)(c := if d then 2 else 1, p := cnt T p + of_bool d)" for q m
    using ne by (simp_all add: T'_def t_add_def)
  have lc: "links T c = {}" and ec: "ent T c m = None" for m
    using no_links [OF T c] no_entries [OF T, of c] c by auto
  have links: "links T' x = (if x = c then {(p, n)} else links T x)" for x
    using lc n by (auto simp: links_def ent)
  have "x \<noteq> c" if "ent T q m = Some x" for q m x
    using that tree_okD(6) [OF T that] c by auto
  then have subdirs: "subdirs T' q = (if q = p \<and> d then insert n (subdirs T p) else subdirs T q)" for q
    using n by (auto simp: subdirs_def ent kind)
  have "upr T \<subseteq> upr T'" and cp: "d \<Longrightarrow> (c, p) \<in> upr T'"
    using c ne by (auto simp: upr_iff kind up)
  then have reach: "(i, kRootInodeId) \<in> (upr T')\<^sup>*" if "is_dir T i" for i
    using rtrancl_mono tree_okD(10) [OF T that] by blast
  have "tree_ok T'"
  proof (rule tree_okI)
    show "finite (dom (ent T' q))" for q
      by (rule finite_dom_upd [OF tree_okD(1) [OF T], of "{n}"]) (simp_all add: ent)
    show "\<exists>m. links T' i = {(up T' i, m)}" if "is_dir T' i" "i \<noteq> kRootInodeId" for i
      using that tree_okD(9) [OF T] by (auto simp: kind up links split: if_splits)
    show "cnt T' i = card (links T' i)" if "kind T' i = Some False" for i
      using that tree_okD(7) [OF T] p ne by (auto simp: kind cnt links split: if_splits)
    show "cnt T' i = 2 + card (subdirs T' i)" if "is_dir T' i" for i
    proof -
      have "n \<notin> subdirs T p" "finite (subdirs T p)" "subdirs T c = {}"
        using n ec finite_subdirs [OF T] by (auto simp: subdirs_def)
      then show ?thesis
        using that tree_okD(8) [OF T] ne by (auto simp: kind cnt subdirs split: if_splits)
    qed
    show "is_dir T' q \<and> kind T' x \<noteq> None" if "ent T' q m = Some x" for q m x
      using that ne ec p tree_okD(5,6) [OF T, of q m x] by (auto simp: ent kind split: if_splits)
    show "(i, kRootInodeId) \<in> (upr T')\<^sup>*" if "is_dir T' i" for i
      using that reach p cp by (auto simp: kind split: if_splits intro: converse_rtrancl_into_rtrancl)
  qed (use tree_okD(2-4) [OF T] ne in \<open>auto simp: kind up links\<close>)
  then show ?thesis
    by (simp add: T'_def)
qed

lemma t_link_ok:
  assumes T: "tree_ok T" and p: "is_dir T p" and n: "ent T p n = None" and c: "kind T c = Some False"
  shows "tree_ok (t_link p n c T)"
proof -
  define T' where "T' = t_link p n c T"
  have kind: "kind T' = kind T" and up: "up T' = up T" and cnt: "cnt T' = (cnt T)(c := cnt T c + 1)"
    and ent: "ent T' q m = (if q = p \<and> m = n then Some c else ent T q m)" for q m
    by (simp_all add: T'_def t_link_def)
  have links: "links T' x = (if x = c then insert (p, n) (links T c) else links T x)" for x
    using n by (auto simp: links_def ent)
  have subdirs: "subdirs T' = subdirs T" and upr: "upr T' = upr T"
    using n c by (auto simp: subdirs_def upr_def ent kind up fun_eq_iff)
  have "tree_ok T'"
  proof (rule tree_okI)
    show "finite (dom (ent T' q))" for q
      by (rule finite_dom_upd [OF tree_okD(1) [OF T], of "{n}"]) (simp_all add: ent)
    show "cnt T' i = card (links T' i)" if "kind T' i = Some False" for i
    proof -
      have "(p, n) \<notin> links T c" "finite (links T c)"
        using n finite_links [OF T] by (auto simp: links_def)
      then show ?thesis
        using that tree_okD(7) [OF T] by (auto simp: kind cnt links)
    qed
    show "cnt T' i = 2 + card (subdirs T' i)" if "is_dir T' i" for i
      using that tree_okD(8) [OF T] c by (auto simp: kind cnt subdirs)
    show "is_dir T' q \<and> kind T' x \<noteq> None" if "ent T' q m = Some x" for q m x
      using that p c tree_okD(5,6) [OF T, of q m x] by (auto simp: ent kind split: if_splits)
    show "\<exists>m. links T' i = {(up T' i, m)}" if "is_dir T' i" "i \<noteq> kRootInodeId" for i
      using that tree_okD(9) [OF T] c by (auto simp: kind up links)
  qed (use tree_okD(2-4,10) [OF T] c in \<open>auto simp: kind up links upr\<close>)
  then show ?thesis
    by (simp add: T'_def)
qed

lemma t_unlink_ok:
  assumes T: "tree_ok T" and n: "ent T p n = Some c" and c: "kind T c = Some False"
  shows "tree_ok (t_unlink p n c T)"
proof -
  define T' where "T' = t_unlink p n c T"
  have kind: "kind T' = kind T" and up: "up T' = up T" and cnt: "cnt T' = (cnt T)(c := cnt T c - 1)"
    and ent: "ent T' q m = (if q = p \<and> m = n then None else ent T q m)" for q m
    by (simp_all add: T'_def t_unlink_def)
  have links: "links T' x = (if x = c then links T c - {(p, n)} else links T x)" for x
    using n by (auto simp: links_def ent)
  have subdirs: "subdirs T' = subdirs T" and upr: "upr T' = upr T"
    using n c by (auto simp: subdirs_def upr_def ent kind up fun_eq_iff)
  have "tree_ok T'"
  proof (rule tree_okI)
    show "finite (dom (ent T' q))" for q
      by (rule finite_dom_upd [OF tree_okD(1) [OF T], of "{n}"]) (simp_all add: ent)
    show "cnt T' i = card (links T' i)" if "kind T' i = Some False" for i
    proof -
      have "(p, n) \<in> links T c"
        using n by (simp add: links_def)
      then show ?thesis
        using that tree_okD(7) [OF T] by (auto simp: kind cnt links card_Diff_singleton)
    qed
    show "cnt T' i = 2 + card (subdirs T' i)" if "is_dir T' i" for i
      using that tree_okD(8) [OF T] c by (auto simp: kind cnt subdirs)
    show "is_dir T' q \<and> kind T' x \<noteq> None" if "ent T' q m = Some x" for q m x
      using that tree_okD(5,6) [OF T, of q m x] by (auto simp: ent kind split: if_splits)
    show "\<exists>m. links T' i = {(up T' i, m)}" if "is_dir T' i" "i \<noteq> kRootInodeId" for i
      using that tree_okD(9) [OF T] c by (auto simp: kind up links)
  qed (use tree_okD(2-4,10) [OF T] c in \<open>auto simp: kind up links upr\<close>)
  then show ?thesis
    by (simp add: T'_def)
qed

lemma t_reclaim_ok:
  assumes T: "tree_ok T" and c: "kind T c = Some False" "cnt T c = 0"
  shows "tree_ok (t_reclaim c T)"
proof -
  define T' where "T' = t_reclaim c T"
  have kind: "kind T' = (kind T)(c := None)" and up: "up T' = (up T)(c := 0)" and cnt: "cnt T' = (cnt T)(c := 0)"
    and ent: "ent T' = ent T"
    by (simp_all add: T'_def t_reclaim_def)
  have "links T c = {}"
    using tree_okD(7) [OF T c(1)] c(2) finite_links [OF T, of c] by simp
  then have nc: "x \<noteq> c" if "ent T q m = Some x" for q m x
    using that by (auto simp: links_def)
  have links: "links T' = links T" and subdirs: "subdirs T' = subdirs T"
    using nc by (auto simp: subdirs_def links_def ent kind fun_eq_iff)
  have upr: "upr T' = upr T"
    using c by (auto simp: upr_iff kind up)
  have root: "c \<noteq> kRootInodeId"
    using c tree_okD(2) [OF T] by auto
  have "tree_ok T'"
  proof (rule tree_okI)
    show "is_dir T' q \<and> kind T' x \<noteq> None" if "ent T' q m = Some x" for q m x
      using that tree_okD(5,6) [OF T, of q m x] nc c by (auto simp: ent kind)
    show "\<exists>m. links T' i = {(up T' i, m)}" if "is_dir T' i" "i \<noteq> kRootInodeId" for i
      using that tree_okD(9) [OF T] by (auto simp: kind up links split: if_splits)
  qed (use tree_okD(1-4,7,8,10) [OF T] root in \<open>auto simp: kind up links upr subdirs cnt ent split: if_splits\<close>)
  then show ?thesis
    by (simp add: T'_def)
qed

lemma t_rmdir_ok:
  assumes T: "tree_ok T" and n: "ent T p n = Some c" and c: "is_dir T c" and empty: "\<And>m. ent T c m = None"
  shows "tree_ok (t_rmdir p n c T)"
proof -
  define T' where "T' = t_rmdir p n c T"
  have p: "is_dir T p"
    using tree_okD(5) [OF T n] .
  note de = dir_entry [OF T n c]
  have ne: "c \<noteq> p"
    using empty n by auto
  have kind: "kind T' = (kind T)(c := None)" and up: "up T' = (up T)(c := 0)"
    and cnt: "cnt T' = (cnt T)(c := 0, p := cnt T p - 1)"
    and ent: "ent T' q m = (if q = p \<and> m = n then None else ent T q m)" for q m
    using ne by (simp_all add: T'_def t_rmdir_def)
  have links: "links T' x = (if x = c then {} else links T x)" for x
  proof (cases "x = c")
    case True
    have "(q, m) \<notin> links T' c" for q m
    proof
      assume "(q, m) \<in> links T' c"
      then have "(q, m) \<in> links T c" "(q, m) \<noteq> (p, n)"
        by (auto simp: links_def ent split: if_splits)
      then show False
        using de(3) by simp
    qed
    then show ?thesis
      using True by auto
  qed (use n in \<open>auto simp: links_def ent\<close>)
  have nc: "x \<noteq> c" if "ent T q m = Some x" "(q, m) \<noteq> (p, n)" for q m x
    using that dir_entry_unique [OF T c n] by auto
  have subdirs: "subdirs T' q = (if q = p then subdirs T p - {n} else subdirs T q)" for q
  proof -
    have "(\<exists>x. ent T' q m = Some x \<and> is_dir T' x) \<longleftrightarrow> (q, m) \<noteq> (p, n) \<and> (\<exists>x. ent T q m = Some x \<and> is_dir T x)" for m
      using nc [of q m] by (cases "ent T q m") (auto simp: ent kind)
    then show ?thesis
      by (auto simp: subdirs_def)
  qed
  have up_ne: "up T i \<noteq> c" if "is_dir T i" "i \<noteq> kRootInodeId" for i
  proof
    assume u: "up T i = c"
    obtain m where "links T i = {(up T i, m)}"
      using tree_okD(9) [OF T \<open>is_dir T i\<close> \<open>i \<noteq> kRootInodeId\<close>] by blast
    then have "ent T c m = Some i"
      using u by (auto simp: links_def set_eq_iff)
    then show False
      using empty by simp
  qed
  have walk: "(i, kRootInodeId) \<in> (upr T')\<^sup>*" if "(i, kRootInodeId) \<in> (upr T)\<^sup>*" "i \<noteq> c" for i
    using that
  proof (induction rule: converse_rtrancl_induct)
    case (step i j)
    then have "(i, j) \<in> upr T'"
      by (auto simp: upr_iff kind up)
    moreover have "j \<noteq> c"
      using step.hyps(1) up_ne by (auto simp: upr_iff)
    ultimately show ?case
      using step.IH by (meson converse_rtrancl_into_rtrancl)
  qed simp
  have "tree_ok T'"
  proof (rule tree_okI)
    show "finite (dom (ent T' q))" for q
      by (rule finite_dom_upd [OF tree_okD(1) [OF T], of "{n}"]) (simp_all add: ent)
    show "cnt T' i = 2 + card (subdirs T' i)" if "is_dir T' i" for i
    proof -
      have "n \<in> subdirs T p" "finite (subdirs T p)"
        using n c finite_subdirs [OF T] by (auto simp: subdirs_def)
      then have "card (subdirs T p - {n}) = card (subdirs T p) - 1" "card (subdirs T p) > 0"
        by (auto simp: card_gt_0_iff)
      then show ?thesis
        using that tree_okD(8) [OF T] by (auto simp: kind cnt subdirs split: if_splits)
    qed
    show "is_dir T' q \<and> kind T' x \<noteq> None" if "ent T' q m = Some x" for q m x
      using that tree_okD(5,6) [OF T, of q m x] nc [of q m x] empty by (auto simp: ent kind split: if_splits)
    show "\<exists>m. links T' i = {(up T' i, m)}" if "is_dir T' i" "i \<noteq> kRootInodeId" for i
      using that tree_okD(9) [OF T] by (auto simp: kind up links split: if_splits)
    show "cnt T' i = card (links T' i)" if "kind T' i = Some False" for i
      using that tree_okD(7) [OF T] p by (auto simp: kind cnt links split: if_splits)
    show "(i, kRootInodeId) \<in> (upr T')\<^sup>*" if "is_dir T' i" for i
      using that walk tree_okD(10) [OF T] by (auto simp: kind split: if_splits)
  qed (use tree_okD(2-4) [OF T] de(1) in \<open>auto simp: kind up links\<close>)
  then show ?thesis
    by (simp add: T'_def)
qed

text \<open>Directories given new parents stay connected to the root, as long as no new parent is inside one of them.\<close>

lemma reparent_reach:
  assumes T: "tree_ok T" and kind: "kind T' = kind T" and keep: "\<And>i. \<lbrakk> is_dir T i; i \<notin> S \<rbrakk> \<Longrightarrow> up T' i = up T i"
    and new: "\<And>i. \<lbrakk> i \<in> S; is_dir T i \<rbrakk> \<Longrightarrow> is_dir T (up T' i)"
      "\<And>i s. \<lbrakk> i \<in> S; is_dir T i; s \<in> S; is_dir T s \<rbrakk> \<Longrightarrow> (up T' i, s) \<notin> (upr T)\<^sup>*"
    and i: "is_dir T i"
  shows "(i, kRootInodeId) \<in> (upr T')\<^sup>*"
proof -
  have off: "(i, kRootInodeId) \<in> (upr T')\<^sup>*"
    if "(i, kRootInodeId) \<in> (upr T)\<^sup>*" "\<And>s. \<lbrakk> s \<in> S; is_dir T s \<rbrakk> \<Longrightarrow> (i, s) \<notin> (upr T)\<^sup>*" for i
    using that
  proof (induction rule: converse_rtrancl_induct)
    case (step i j)
    have "i \<notin> S"
      using step.hyps(1) step.prems by (auto simp: upr_iff)
    then have "(i, j) \<in> upr T'"
      using step.hyps(1) keep by (simp add: upr_iff kind)
    moreover have "(j, s) \<notin> (upr T)\<^sup>*" if "s \<in> S" "is_dir T s" for s
      using step.hyps(1) step.prems [OF that] by (meson converse_rtrancl_into_rtrancl)
    ultimately show ?case
      using step.IH by (meson converse_rtrancl_into_rtrancl)
  qed simp
  show ?thesis
    using tree_okD(10) [OF T i]
  proof (induction rule: converse_rtrancl_induct)
    case (step i j)
    have "(i, up T' i) \<in> upr T'"
      using step.hyps(1) by (auto simp: upr_iff kind)
    moreover have "(up T' i, kRootInodeId) \<in> (upr T')\<^sup>*"
      using step.IH step.hyps(1) off new tree_okD(10) [OF T] keep [of i] by (cases "i \<in> S") (auto simp: upr_iff)
    ultimately show ?case
      by (rule converse_rtrancl_into_rtrancl)
  qed simp
qed

lemma entry_above: "\<lbrakk> tree_ok T; ent T r l = Some x; is_dir T x \<rbrakk> \<Longrightarrow> (r, x) \<notin> (upr T)\<^sup>*"
  using upr_acyclic [of T x] dir_entry(1,2) [of T r l x] by (metis rtrancl_into_trancl2 upr_iff)

text \<open>Moving below a directory that is not inside the moved one.\<close>

lemma t_move_ok:
  assumes T: "tree_ok T" and n: "ent T p n = Some c" and q: "is_dir T q" and m: "ent T q m = None"
    and cyc: "is_dir T c \<Longrightarrow> (q, c) \<notin> (upr T)\<^sup>*"
  shows "tree_ok (t_move p n q m c T)"
proof -
  define T' where "T' = t_move p n q m c T"
  have p: "is_dir T p"
    using tree_okD(5) [OF T n] .
  have kc: "kind T c \<noteq> None"
    using tree_okD(6) [OF T n] .
  have pn: "(q, m) \<noteq> (p, n)"
    using n m by auto
  have kind: "kind T' = kind T" and up: "up T' = (up T)(c := q)"
    and ent: "ent T' r l = (if r = q \<and> l = m then Some c else if r = p \<and> l = n then None else ent T r l)"
    and cnt: "cnt T' = (let f = (cnt T)(p := cnt T p - of_bool (is_dir T c)) in f(q := f q + of_bool (is_dir T c)))" for r l
    by (simp_all add: T'_def t_move_def Let_def)
  have links: "links T' x = (if x = c then insert (q, m) (links T c - {(p, n)}) else links T x)" for x
    using n m pn by (auto simp: links_def ent)
  have subdirs: "subdirs T' r = (if is_dir T c then (if r = q then {m} else {}) \<union> (subdirs T r - (if r = p then {n} else {})) else subdirs T r)" for r
    using n m pn by (auto simp: subdirs_def ent kind split: if_splits)
  have root: "c \<noteq> kRootInodeId" if "is_dir T c"
    using dir_entry(1) [OF T n that] .
  have reach: "(i, kRootInodeId) \<in> (upr T')\<^sup>*" if "is_dir T i" for i
    using q cyc by (intro reparent_reach [OF T kind _ _ _ that, of "{c}"]) (auto simp: up)
  have "tree_ok T'"
  proof (rule tree_okI)
    show "finite (dom (ent T' r))" for r
      by (rule finite_dom_upd [OF tree_okD(1) [OF T], of "{n, m}"]) (simp_all add: ent)
    show "cnt T' i = 2 + card (subdirs T' i)" if "is_dir T' i" for i
    proof (cases "is_dir T c")
      case True
      then have "n \<in> subdirs T p" "m \<notin> subdirs T q" "finite (subdirs T p)" "finite (subdirs T q)"
        using n m finite_subdirs [OF T] by (auto simp: subdirs_def)
      then have "card (subdirs T p - {n}) = card (subdirs T p) - 1" "card (subdirs T p) > 0"
        "card (insert m (subdirs T q)) = card (subdirs T q) + 1"
        "p = q \<Longrightarrow> card (insert m (subdirs T q - {n})) = card (subdirs T q)"
        using card_swap [of "subdirs T q" n m] by (auto simp: card_gt_0_iff simp del: card_Diff_singleton)
      then show ?thesis
        using that tree_okD(8) [OF T] True by (auto simp: kind cnt subdirs)
    qed (use that tree_okD(8) [OF T] in \<open>auto simp: kind cnt subdirs\<close>)
    show "is_dir T' r \<and> kind T' x \<noteq> None" if "ent T' r l = Some x" for r l x
      using that q kc tree_okD(5,6) [OF T, of r l x] by (auto simp: ent kind split: if_splits)
    show "\<exists>m. links T' i = {(up T' i, m)}" if "is_dir T' i" "i \<noteq> kRootInodeId" for i
      using that tree_okD(9) [OF T] dir_entry(3) [OF T n] by (auto simp: kind up links)
    show "cnt T' i = card (links T' i)" if k: "kind T' i = Some False" for i
    proof -
      have "card (insert (q, m) (links T c - {(p, n)})) = card (links T c)"
        using n m finite_links [OF T, of c] by (intro card_swap) (auto simp: links_def)
      then show ?thesis
        using k tree_okD(7) [OF T] p q by (auto simp: kind cnt links)
    qed
    show "(i, kRootInodeId) \<in> (upr T')\<^sup>*" if "is_dir T' i" for i
      using that reach by (simp add: kind)
  qed (use tree_okD(2-4) [OF T] root in \<open>auto simp: kind up links\<close>)
  then show ?thesis
    by (simp add: T'_def)
qed

text \<open>Exchanging two entries, neither directory of which contains the place the other goes to.\<close>

lemma exchange_subdirs:
  assumes T: "tree_ok T" and n: "ent T p n = Some c" and m: "ent T q m = Some e" and ce: "c \<noteq> e"
    and kind: "kind T' = kind T"
    and ent: "\<And>r l. ent T' r l = (if r = q \<and> l = m then Some c else if r = p \<and> l = n then Some e else ent T r l)"
    and cnt: "cnt T' = (if p = q then cnt T else (cnt T)(p := cnt T p + of_bool (is_dir T e) - of_bool (is_dir T c),
                              q := cnt T q + of_bool (is_dir T c) - of_bool (is_dir T e)))"
    and i: "is_dir T i"
  shows "cnt T' i = 2 + card (subdirs T' i)"
proof -
  have p: "is_dir T p" and q: "is_dir T q" and pn: "(q, m) \<noteq> (p, n)"
    using tree_okD(5) [OF T n] tree_okD(5) [OF T m] n m ce by auto
  note sub = subdirs_def [of T] subdirs_def [of T', unfolded kind]
  consider "i \<noteq> p" "i \<noteq> q" | "i = p" "p \<noteq> q" | "i = q" "p \<noteq> q" | "i = p" "p = q"
    by blast
  then show ?thesis
  proof cases
    case 1
    then show ?thesis
      using i tree_okD(8) [OF T, of i] by (simp add: sub kind cnt ent)
  next
    case 2
    then have "ent T' i = (ent T i)(n \<mapsto> e)"
      by (auto simp: ent)
    then show ?thesis
      using 2 tree_okD(8) [OF T p] card_repoint [where P = "is_dir T", OF tree_okD(1) [OF T] n, of e] by (simp add: sub cnt)
  next
    case 3
    then have "ent T' i = (ent T i)(m \<mapsto> c)"
      by (auto simp: ent)
    then show ?thesis
      using 3 tree_okD(8) [OF T q] card_repoint [where P = "is_dir T", OF tree_okD(1) [OF T] m, of c] by (simp add: sub cnt)
  next
    case 4
    then have nm: "ent T' i = (ent T i)(n \<mapsto> e, m \<mapsto> c)" "((ent T q)(n \<mapsto> e)) m = Some e"
      using pn m by (auto simp: ent)
    then show ?thesis
      using 4 nm(2) tree_okD(8) [OF T p] card_repoint [where P = "is_dir T", OF tree_okD(1) [OF T] n, of e]
        card_repoint [where P = "is_dir T" and f = "(ent T q)(n \<mapsto> e)" and l = m and x = e and z = c] tree_okD(1) [OF T]
      by (simp add: sub cnt)
  qed
qed

lemma t_exchange_ok:
  assumes T: "tree_ok T" and n: "ent T p n = Some c" and m: "ent T q m = Some e" and ce: "c \<noteq> e"
    and cyc: "is_dir T c \<Longrightarrow> (q, c) \<notin> (upr T)\<^sup>*" "is_dir T e \<Longrightarrow> (p, e) \<notin> (upr T)\<^sup>*"
  shows "tree_ok (t_exchange p n q m c e T)"
proof -
  define T' where "T' = t_exchange p n q m c e T"
  have p: "is_dir T p" and q: "is_dir T q"
    using tree_okD(5) [OF T n] tree_okD(5) [OF T m] .
  have kc: "kind T c \<noteq> None" and ke: "kind T e \<noteq> None"
    using tree_okD(6) [OF T n] tree_okD(6) [OF T m] .
  have pn: "(q, m) \<noteq> (p, n)"
    using n m ce by auto
  have kind: "kind T' = kind T" and up: "up T' = (up T)(c := q, e := p)"
    and ent: "ent T' r l = (if r = q \<and> l = m then Some c else if r = p \<and> l = n then Some e else ent T r l)"
    and cnt: "cnt T' = (if p = q then cnt T else (cnt T)(p := cnt T p + of_bool (is_dir T e) - of_bool (is_dir T c),
                              q := cnt T q + of_bool (is_dir T c) - of_bool (is_dir T e)))" for r l
    by (simp_all add: T'_def t_exchange_def Let_def)
  have links: "links T' x = (if x = c then insert (q, m) (links T c - {(p, n)})
      else if x = e then insert (p, n) (links T e - {(q, m)}) else links T x)" for x
    using n m pn ce by (auto simp: links_def ent)
  have root: "is_dir T c \<Longrightarrow> c \<noteq> kRootInodeId" "is_dir T e \<Longrightarrow> e \<noteq> kRootInodeId"
    using dir_entry(1) [OF T n] dir_entry(1) [OF T m] by blast+
  have reach: "(i, kRootInodeId) \<in> (upr T')\<^sup>*" if "is_dir T i" for i
    using p q cyc entry_above [OF T n] entry_above [OF T m] ce
    by (intro reparent_reach [OF T kind _ _ _ that, of "{c, e}"]) (auto simp: up)
  have "tree_ok T'"
  proof (rule tree_okI)
    show "finite (dom (ent T' r))" for r
      by (rule finite_dom_upd [OF tree_okD(1) [OF T], of "{n, m}"]) (simp_all add: ent)
    show "cnt T' i = 2 + card (subdirs T' i)" if "is_dir T' i" for i
      using exchange_subdirs [OF T n m ce kind ent cnt] that by (simp add: kind)
    show "is_dir T' r \<and> kind T' x \<noteq> None" if "ent T' r l = Some x" for r l x
      using that p q kc ke tree_okD(5,6) [OF T, of r l x] by (auto simp: ent kind split: if_splits)
    show "\<exists>m. links T' i = {(up T' i, m)}" if "is_dir T' i" "i \<noteq> kRootInodeId" for i
      using that tree_okD(9) [OF T] dir_entry(3) [OF T n] dir_entry(3) [OF T m] ce by (auto simp: kind up links)
    show "cnt T' i = card (links T' i)" if k: "kind T' i = Some False" for i
    proof -
      have "card (insert (q, m) (links T c - {(p, n)})) = card (links T c)"
        "card (insert (p, n) (links T e - {(q, m)})) = card (links T e)"
        using n m ce by (intro card_swap finite_links [OF T]; simp add: links_def)+
      then show ?thesis
        using k tree_okD(7) [OF T] p q by (auto simp: kind cnt links)
    qed
    show "(i, kRootInodeId) \<in> (upr T')\<^sup>*" if "is_dir T' i" for i
      using that reach by (simp add: kind)
  qed (use tree_okD(2-4) [OF T] root kc ke in \<open>auto simp: kind up links\<close>)
  then show ?thesis
    by (simp add: T'_def)
qed

end
