(* ===== verification/MetaView.thy ===== *)
theory MetaView
  imports RedisMetaTxn Namespace
begin

text \<open>
  What the Redis keys of a volume say: the decoded inodes, directory entries and orphan markers of a key space, and
  the effect on them of the commands metadata transactions queue.

  \<open>vol_of\<close> decodes a key space; \<open>typed\<close> says that the keys have their types and every stored record decodes. A
  queued command of a metadata transaction is the image of a command of the type \<open>mcmd\<close>; \<open>exec_vol\<close> shows that
  executing it acts on the decoded volume as \<open>vexec\<close> and keeps \<open>typed\<close>. \<open>tree_of\<close> reads the abstract tree off a volume.
  The locale \<open>meta_store\<close> collects the parameters' contracts.
\<close>

record vol =
  inodes :: "u64 \<Rightarrow> SwordFsInode option"
  entries :: "u64 \<Rightarrow> bytes \<Rightarrow> SwordFsEntry option"
  orphans :: "u64 set"

definition decoded :: "(bytes \<Rightarrow> 'a res) \<Rightarrow> bytes option \<Rightarrow> 'a option" where
  "decoded parse x = (case x of None \<Rightarrow> None | Some v \<Rightarrow> (case parse v of Inl _ \<Rightarrow> None | Inr r \<Rightarrow> Some r))"

definition inode_at :: "meta_env \<Rightarrow> keyspace \<Rightarrow> u64 \<Rightarrow> SwordFsInode option" where
  "inode_at E d i = decoded (inode_ParseFrom (me_io E)) (str_at d (K_Inode (me_key E) i))"

definition entry_at :: "meta_env \<Rightarrow> keyspace \<Rightarrow> u64 \<Rightarrow> bytes \<Rightarrow> SwordFsEntry option" where
  "entry_at E d p n = decoded (entry_ParseFrom (me_io E)) (fmlookup (hash_at d (K_Directory (me_key E) p)) n)"

definition vol_of :: "meta_env \<Rightarrow> keyspace \<Rightarrow> vol" where
  "vol_of E d = \<lparr>inodes = inode_at E d, entries = entry_at E d,
     orphans = {i. fmlookup (hash_at d (K_Orphans (me_key E))) (number i) \<noteq> None}\<rparr>"

definition typed :: "meta_env \<Rightarrow> keyspace \<Rightarrow> bool" where
  "typed E d \<longleftrightarrow> (\<forall>i. d (K_Inode (me_key E) i) \<noteq> None \<longrightarrow> inode_at E d i \<noteq> None)
     \<and> (\<forall>p n. fmlookup (hash_at d (K_Directory (me_key E) p)) n \<noteq> None \<longrightarrow> entry_at E d p n \<noteq> None)
     \<and> (\<forall>p. is_hash d (K_Directory (me_key E) p)) \<and> is_hash d (K_Orphans (me_key E))"

section \<open>Commands\<close>

datatype mcmd = MInode SwordFsInode | MDelInode u64 | MEntry u64 SwordFsEntry | MDelEntry u64 bytes
  | MOrphan u64 | MUnorphan u64 | MSide cmd

definition get_res :: "'a res \<Rightarrow> 'a" where
  "get_res r = (case r of Inr x \<Rightarrow> x)"

fun conc :: "meta_env \<Rightarrow> mcmd \<Rightarrow> cmd" where
  "conc E (MInode n) = CSet (K_Inode (me_key E) (i_ino n)) (get_res (inode_SerializeTo (me_io E) n))"
| "conc E (MDelInode i) = CDel (K_Inode (me_key E) i)"
| "conc E (MEntry p e) = CHSet (K_Directory (me_key E) p) (e_name e) (get_res (entry_SerializeTo (me_io E) e))"
| "conc E (MDelEntry p n) = CHDel (K_Directory (me_key E) p) n"
| "conc E (MOrphan i) = CHSet (K_Orphans (me_key E)) (number i) (ascii ''1'')"
| "conc E (MUnorphan i) = CHDel (K_Orphans (me_key E)) (number i)"
| "conc E (MSide c) = c"

text \<open>Commands that touch neither inodes nor directories nor orphan markers.\<close>

definition side_cmd :: "meta_env \<Rightarrow> cmd \<Rightarrow> bool" where
  "side_cmd E c \<longleftrightarrow> cmd_key c \<in> {K_InodeCount (me_key E), K_Reclaims (me_key E), K_PendingDeletes (me_key E)} \<union> range (K_ChunkRefs (me_key E))"

fun mcmd_ok :: "meta_env \<Rightarrow> mcmd \<Rightarrow> bool" where
  "mcmd_ok E (MInode n) = inode_ok n"
| "mcmd_ok E (MEntry p e) = entry_ok e"
| "mcmd_ok E (MSide c) = side_cmd E c"
| "mcmd_ok E _ = True"

fun vexec :: "mcmd \<Rightarrow> vol \<Rightarrow> vol" where
  "vexec (MInode n) v = v\<lparr>inodes := (inodes v)(i_ino n \<mapsto> n)\<rparr>"
| "vexec (MDelInode i) v = v\<lparr>inodes := (inodes v)(i := None)\<rparr>"
| "vexec (MEntry p e) v = v\<lparr>entries := (entries v)(p := (entries v p)(e_name e \<mapsto> e))\<rparr>"
| "vexec (MDelEntry p n) v = v\<lparr>entries := (entries v)(p := (entries v p)(n := None))\<rparr>"
| "vexec (MOrphan i) v = v\<lparr>orphans := insert i (orphans v)\<rparr>"
| "vexec (MUnorphan i) v = v\<lparr>orphans := orphans v - {i}\<rparr>"
| "vexec (MSide c) v = v"

section \<open>The tree of a volume\<close>

definition tree_of :: "vol \<Rightarrow> tree" where
  "tree_of v = \<lparr>kind = (\<lambda>i. map_option IsDir (inodes v i)), up = (\<lambda>i. case inodes v i of None \<Rightarrow> 0 | Some n \<Rightarrow> i_parent_ino n),
     ent = (\<lambda>p n. map_option e_ino (entries v p n)), cnt = (\<lambda>i. case inodes v i of None \<Rightarrow> 0 | Some n \<Rightarrow> unat (i_nlink n))\<rparr>"

text \<open>The records of a volume agree with the keys they are stored under and with each other, ACLs agree with modes, and
  every inode without a name is marked as an orphan.\<close>

definition good :: "SwordFsInode \<Rightarrow> bool" where
  "good n \<longleftrightarrow> inode_ok n \<and> acl_inv n"

definition recs_ok :: "vol \<Rightarrow> bool" where
  "recs_ok v \<longleftrightarrow> (\<forall>i n. inodes v i = Some n \<longrightarrow> i_ino n = i \<and> good n)
     \<and> (\<forall>p n e. entries v p n = Some e \<longrightarrow> e_name e = n \<and> (\<forall>c. inodes v (e_ino e) = Some c \<longrightarrow> e_type e = ModeToDt (i_mode c)))
     \<and> (\<forall>i n. inodes v i = Some n \<and> \<not> IsDir n \<and> i_nlink n = 0 \<longrightarrow> i \<in> orphans v)"

definition vol_ok :: "vol \<Rightarrow> bool" where
  "vol_ok v \<longleftrightarrow> tree_ok (tree_of v) \<and> recs_ok v"

text \<open>A directory that gains or loses a child.\<close>

definition gain :: "i64 \<Rightarrow> SwordFsInode \<Rightarrow> SwordFsInode \<Rightarrow> SwordFsInode" where
  "gain now child parent = Touch now (fMtime OR fCtime) (if IsDir child then set_nlink (i_nlink parent + 1) parent else parent)"

definition lose :: "i64 \<Rightarrow> SwordFsInode \<Rightarrow> SwordFsInode \<Rightarrow> SwordFsInode" where
  "lose now child parent = Touch now (fMtime OR fCtime) (if IsDir child then set_nlink (i_nlink parent - 1) parent else parent)"

named_theorems meta_simps

lemma tcheck_Inl:
  "tcheck r f S t = (Ret (Inl e), t') \<longleftrightarrow> r = Inl e \<and> t' = t \<or> (\<exists>x. r = Inr x \<and> f x S t = (Ret (Inl e), t'))"
  by (cases r) (auto simp: treturn_def)

lemma tcase_sum:
  "tcase m (case_sum f g) S t = (Ret r, t') \<longleftrightarrow>
     (\<exists>e t1. m S t = (Ret (Inl e), t1) \<and> f e S t1 = (Ret r, t')) \<or> (\<exists>x t1. m S t = (Ret (Inr x), t1) \<and> g x S t1 = (Ret r, t'))"
  by (auto simp: tcase_def split: prod.splits out.splits sum.splits)

lemma tcase_not_found:
  "tcase m (\<lambda>s. if s = Inl kNotFound then treturn (Inl kMalformed) else treturn s) S t = (Ret (Inr x), t') \<longleftrightarrow> m S t = (Ret (Inr x), t')"
  "tcase m (\<lambda>s. if s = Inl kNotFound then treturn (Inl kMalformed) else treturn s) S t \<noteq> (Ret (Inl kNotFound), t')"
  by (auto simp: tcase_def treturn_def split: prod.splits out.splits)

locale meta_store = redis_server R + io: folly_cursor "me_io E" + keys: key_schema "me_key E"
  for R :: redis and E :: meta_env
begin

lemma decoded_simps [simp]: "decoded parse None = None" "parse v = Inr r \<Longrightarrow> decoded parse (Some v) = Some r"
  by (simp_all add: decoded_def)

lemma ser_inode: "inode_ok n \<Longrightarrow> inode_SerializeTo (me_io E) n = Inr (get_res (inode_SerializeTo (me_io E) n))
    \<and> inode_ParseFrom (me_io E) (get_res (inode_SerializeTo (me_io E) n)) = Inr n"
  using io.inode_rec.parse_ser [of n] by (auto simp: get_res_def)

lemma ser_entry: "entry_ok e \<Longrightarrow> entry_SerializeTo (me_io E) e = Inr (get_res (entry_SerializeTo (me_io E) e))
    \<and> entry_ParseFrom (me_io E) (get_res (entry_SerializeTo (me_io E) e)) = Inr e"
  using io.entry_rec.parse_ser [of e] by (auto simp: get_res_def)

lemma number_inj [simp]: "number i = number j \<longleftrightarrow> i = j"
  by (simp add: number_def word_unat_eq_iff)

lemma str_at_None: "str_at d k = None" if "d k = None"
  using that by (simp add: str_at_def)

lemma exec_side:
  assumes "side_cmd E c"
  shows "vol_of E (fst (exec_cmd c d)) = vol_of E d" "typed E d \<Longrightarrow> typed E (fst (exec_cmd c d))"
proof -
  have same: "fst (exec_cmd c d) k = d k" if "k \<in> range (K_Inode (me_key E)) \<union> range (K_Directory (me_key E)) \<union> {K_Orphans (me_key E)}" for k
    by (rule exec_frame) (use assms that in \<open>auto simp: side_cmd_def\<close>)
  have i: "inode_at E (fst (exec_cmd c d)) = inode_at E d" and e: "entry_at E (fst (exec_cmd c d)) = entry_at E d"
    by (simp_all add: fun_eq_iff inode_at_def entry_at_def str_at_def hash_at_def same)
  show "vol_of E (fst (exec_cmd c d)) = vol_of E d"
    by (simp add: vol_of_def i e hash_at_def same)
  show "typed E (fst (exec_cmd c d))" if "typed E d"
    using that by (simp add: typed_def i e hash_at_def is_hash_def same)
qed

lemma exec_at:
  "fst (exec_cmd (CSet k v) d) k' = (if k' = k then Some (RString v, None) else d k')"
  "fst (exec_cmd (CDel k) d) k' = (if k' = k then None else d k')"
  by (simp_all add: exec_cmd.simps)

lemma exec_hash_frame:
  "k' \<noteq> k \<Longrightarrow> fst (exec_cmd (CHSet k f v) d) k' = d k'" "k' \<noteq> k \<Longrightarrow> fst (exec_cmd (CHDel k f) d) k' = d k'"
  by (simp_all add: exec_frame cmd_key_def)

lemma vol_eqI: "\<lbrakk> inodes v = inodes w; entries v = entries w; orphans v = orphans w \<rbrakk> \<Longrightarrow> (v :: vol) = w"
  by simp

lemma vol_of_sel [simp]: "inodes (vol_of E d) = inode_at E d" "entries (vol_of E d) = entry_at E d"
  "orphans (vol_of E d) = {i. fmlookup (hash_at d (K_Orphans (me_key E))) (number i) \<noteq> None}"
  by (simp_all add: vol_of_def)

lemma exec_vol:
  assumes t: "typed E d" and ok: "mcmd_ok E m"
  shows "vol_of E (fst (exec_cmd (conc E m) d)) = vexec m (vol_of E d) \<and> typed E (fst (exec_cmd (conc E m) d))"
proof (cases m)
  case (MInode n)
  then show ?thesis
    using t ok ser_inode [of n] by (auto simp: typed_def inode_at_def entry_at_def exec_simps exec_at fun_eq_iff intro!: vol_eqI)
next
  case (MDelInode i)
  then show ?thesis
    using t by (auto simp: typed_def inode_at_def entry_at_def exec_simps exec_at fun_eq_iff intro!: vol_eqI)
next
  case (MEntry p e)
  then show ?thesis
    using t ok ser_entry [of e]
    by (auto simp: typed_def inode_at_def entry_at_def exec_simps exec_hash_frame fun_eq_iff intro!: vol_eqI)
next
  case (MDelEntry p n)
  then show ?thesis
    using t by (auto simp: typed_def inode_at_def entry_at_def exec_simps exec_hash_frame fun_eq_iff intro!: vol_eqI)
next
  case (MOrphan i)
  then show ?thesis
    using t by (auto simp: typed_def inode_at_def entry_at_def exec_simps exec_hash_frame fun_eq_iff split: if_splits intro!: vol_eqI)
next
  case (MUnorphan i)
  then show ?thesis
    using t by (auto simp: typed_def inode_at_def entry_at_def exec_simps exec_hash_frame fun_eq_iff split: if_splits intro!: vol_eqI)
next
  case (MSide c)
  then show ?thesis
    using exec_side t ok by simp
qed

lemma exec_vols:
  "\<lbrakk> typed E d; list_all (mcmd_ok E) ms \<rbrakk> \<Longrightarrow>
     vol_of E (fst (exec_cmds (map (conc E) ms) d)) = fold vexec ms (vol_of E d) \<and> typed E (fst (exec_cmds (map (conc E) ms) d))"
proof (induction ms arbitrary: d)
  case (Cons m ms)
  then show ?case
    using exec_vol [of d m] by (simp add: exec_cmds_Cons)
qed (simp add: exec_cmds_Cons)

section \<open>Building blocks on one key space\<close>

lemma typedD:
  assumes "typed E d"
  shows "d (K_Inode (me_key E) i) = None \<longleftrightarrow> inode_at E d i = None"
    "fmlookup (hash_at d (K_Directory (me_key E) p)) n = None \<longleftrightarrow> entry_at E d p n = None"
    "is_hash d (K_Directory (me_key E) p)" "is_hash d (K_Orphans (me_key E))"
proof -
  have n: "d (K_Inode (me_key E) i) = None \<Longrightarrow> inode_at E d i = None"
    "fmlookup (hash_at d (K_Directory (me_key E) p)) n = None \<Longrightarrow> entry_at E d p n = None"
    by (simp_all add: inode_at_def entry_at_def str_at_None)
  then show "d (K_Inode (me_key E) i) = None \<longleftrightarrow> inode_at E d i = None"
    "fmlookup (hash_at d (K_Directory (me_key E) p)) n = None \<longleftrightarrow> entry_at E d p n = None"
    using assms unfolding typed_def by blast+
qed (use assms in \<open>simp_all add: typed_def\<close>)

lemma decoded_Some: "decoded parse x = Some r \<longleftrightarrow> (\<exists>v. x = Some v \<and> parse v = Inr r)"
  by (auto simp: decoded_def split: option.splits sum.splits)

lemma inode_at_ok: "inode_at E d i = Some n \<Longrightarrow> inode_ok n"
  by (auto simp: inode_at_def decoded_Some intro: io.inode_rec.parse_wf)

lemma entry_at_ok: "entry_at E d p n = Some e \<Longrightarrow> entry_ok e"
  by (auto simp: entry_at_def decoded_Some intro: io.entry_rec.parse_wf)

lemma parse_found [simp]: "inode_ParseFrom (me_io E) v \<noteq> Inl kNotFound" "entry_ParseFrom (me_io E) v \<noteq> Inl kNotFound"
  using io.inode_rec.parse_err [of v] io.entry_rec.parse_err [of v] by auto

lemma parse_found' [simp]: "Inl kNotFound \<noteq> inode_ParseFrom (me_io E) v" "Inl kNotFound \<noteq> entry_ParseFrom (me_io E) v"
  using parse_found by metis+

lemma tnow_eq [meta_simps]: "tnow E S t = (out, t') \<longleftrightarrow> out = Ret (Inr (me_now E (clock t))) \<and> t' = t"
  by (auto simp: tnow_def)

lemma LookupInode_Inr [meta_simps]: "LookupInode E i (snap R d) t = (Ret (Inr n), t') \<longleftrightarrow>
    \<not> has_writes t \<and> inode_at E d i = Some n \<and> t' = after_read [K_Inode (me_key E) i] t"
  by (auto simp: LookupInode_def inode_at_def decoded_Some snap_simps Get_Inr)

lemma LookupInode_NotFound [meta_simps]: "LookupInode E i (snap R d) t = (Ret (Inl kNotFound), t') \<longleftrightarrow>
    \<not> has_writes t \<and> d (K_Inode (me_key E) i) = None \<and> t' = after_read [K_Inode (me_key E) i] t"
  by (auto simp: LookupInode_def snap_simps Get_Inr Get_NotFound)

lemma LookupEntryIn_Inr [meta_simps]: "LookupEntryIn E parent name (snap R d) t = (Ret (Inr n), t') \<longleftrightarrow>
    IsDir parent \<and> \<not> has_writes t \<and> (\<exists>e. entry_at E d (i_ino parent) name = Some e \<and> inode_at E d (e_ino e) = Some n
      \<and> t' = after_read [K_Inode (me_key E) (e_ino e)] (after_read [K_Directory (me_key E) (i_ino parent)] t))"
  by (auto simp: LookupEntryIn_def entry_at_def decoded_Some tcase_not_found treturn_eq tbind_Inr tcheck_Inr HGet_Inr meta_simps)

lemma LookupEntryIn_NotFound [meta_simps]: "LookupEntryIn E parent name (snap R d) t = (Ret (Inl kNotFound), t') \<longleftrightarrow>
    IsDir parent \<and> \<not> has_writes t \<and> is_hash d (K_Directory (me_key E) (i_ino parent))
      \<and> fmlookup (hash_at d (K_Directory (me_key E) (i_ino parent))) name = None
      \<and> t' = after_read [K_Directory (me_key E) (i_ino parent)] t"
  by (auto simp: LookupEntryIn_def tcase_not_found treturn_eq tbind_Inl tcheck_Inl HGet_Inr HGet_NotFound meta_simps)

lemma SetInode_Inr [meta_simps]: "SetInode E n (snap R d) t = (Ret (Inr u), t') \<longleftrightarrow>
    i_ino n \<noteq> 0 \<and> a_ino (i_attr n) = i_ino n \<and> t' = after_write (conc E (MInode n)) t"
  by (auto simp: SetInode_def inode_SerializeTo_def get_res_def snap_simps)

lemma LinkEntry_Inr [meta_simps]: "LinkEntry E p name child parent (snap R d) t = (Ret (Inr parent'), t') \<longleftrightarrow>
    IsDir parent \<and> name \<noteq> [] \<and> i_ino child \<noteq> 0 \<and> parent' = gain (me_now E (clock t)) child parent
      \<and> t' = after_write (conc E (MEntry p (entry_for name child))) t"
  by (auto simp: LinkEntry_def Let_def entry_SerializeTo_def entry_for_def get_res_def snap_simps meta_simps gain_def)

lemma DetachEntry_Inr [meta_simps]: "DetachEntry E p name target parent (snap R d) t = (Ret (Inr parent'), t') \<longleftrightarrow>
    IsDir parent \<and> (IsDir target \<longrightarrow> i_nlink parent > 2) \<and> parent' = lose (me_now E (clock t)) target parent
      \<and> t' = after_write (conc E (MDelEntry p name)) t"
  by (auto simp: DetachEntry_def Let_def snap_simps meta_simps lose_def)

lemma ReplaceEntry_Inr [meta_simps]: "ReplaceEntry E p name child parent (snap R d) t = (Ret (Inr parent'), t') \<longleftrightarrow>
    IsDir parent \<and> name \<noteq> [] \<and> i_ino child \<noteq> 0 \<and> parent' = Touch (me_now E (clock t)) (fMtime OR fCtime) parent
      \<and> t' = after_write (conc E (MEntry p (entry_for name child))) t"
  by (auto simp: ReplaceEntry_def Let_def entry_SerializeTo_def entry_for_def get_res_def snap_simps meta_simps)

section \<open>Every operation uses watched reads only\<close>

lemma kv_tnow [kv_intros]: "kv_prog R (tnow E)"
  by (simp add: kv_prog_def tnow_def)

lemma kv_Lookup [kv_intros]: "kv_prog R (LookupInode E i)" "kv_prog R (LookupEntryIn E parent name)" "kv_prog R (LookupEntry E p name)"
proof -
  show i: "kv_prog R (LookupInode E i)" for i
    unfolding LookupInode_def by (intro kv_intros)
  show e: "kv_prog R (LookupEntryIn E parent name)" for parent
    unfolding LookupEntryIn_def by (intro kv_intros kv_tcase i) simp
  show "kv_prog R (LookupEntry E p name)"
    unfolding LookupEntry_def by (intro kv_intros i e)
qed

lemma kv_descend [kv_intros]: "kv_prog R (descend E a c visited)"
proof -
  have "E' = E \<Longrightarrow> kv_prog R (descend E' a c visited)" for E'
    by (induction E' a c visited rule: descend.induct) (subst descend.simps, simp, intro kv_intros conjI impI, blast+)
  then show ?thesis
    by simp
qed

lemma kv_blocks [kv_intros]:
  "kv_prog R (IsDescendantOf E a c)" "kv_prog R (AdjustInodeCount E delta)" "kv_prog R (SetInode E n)" "kv_prog R (DeleteInode E i)"
  "kv_prog R (LinkEntry E p name child parent)" "kv_prog R (DetachEntry E p name child parent)"
  "kv_prog R (ReplaceEntry E p name child parent)" "kv_prog R (ClearOrphanMarker E i)" "kv_prog R (mt_CompleteReclaim E i)"
  "kv_prog R (QueuePendingDelete E w)" "kv_prog R (mt_CompletePendingDelete E k)"
  unfolding IsDescendantOf_def AdjustInodeCount_def SetInode_def DeleteInode_def LinkEntry_def DetachEntry_def ReplaceEntry_def
    ClearOrphanMarker_def mt_CompleteReclaim_def QueuePendingDelete_def mt_CompletePendingDelete_def Let_def
  by (intro kv_intros)+

lemma kv_attributes [kv_intros]:
  "kv_prog R (mt_SetAttr E i req fs)" "kv_prog R (mt_SetInodeFlags E i fl)" "kv_prog R (mt_SetXAttr E i name v md)"
  "kv_prog R (mt_RemoveXAttr E i name)" "kv_prog R (mt_TouchInode E i fs)"
  unfolding mt_SetAttr_def mt_SetInodeFlags_def mt_SetXAttr_def mt_RemoveXAttr_def mt_TouchInode_def Let_def
  by (intro kv_intros)+

lemma kv_LookupAttachment [kv_intros]: "kv_prog R (LookupAttachment E i index)"
  unfolding LookupAttachment_def by (rule kv_tcase) (auto intro: kv_intros split: sum.splits)

lemma kv_scan_mappings [kv_intros]: "kv_prog R (scan_mappings n k cursor acc)"
proof (induction n arbitrary: cursor acc)
  case (Suc n)
  show ?case
    by (auto intro!: kv_tbind kv_HScan kv_tcheck kv_return Suc.IH)
qed (simp add: kv_return)

lemma kv_snapshot [kv_intros]: "kv_prog R (ReadFileMappingSnapshot E i)" "kv_prog R (mt_ProbeAttachment E i index)"
  unfolding ReadFileMappingSnapshot_def mt_ProbeAttachment_def Let_def by (intro kv_intros)+

lemma kv_check_boundary [kv_intros]: "kv_prog R (check_boundary E i expected)"
  unfolding check_boundary_def by (cases "fp_boundary expected") (auto intro!: kv_intros)

lemma kv_writes_of_file [kv_intros]:
  "kv_prog R (mt_AttachPrepared E i index c off expected)" "kv_prog R (mt_FinalizeAttachedWrite E i index c off expected)"
  unfolding mt_AttachPrepared_def mt_FinalizeAttachedWrite_def by (intro kv_intros)+

lemma kv_queue_detached [kv_intros]: "kv_prog R (queue_detached E i ms)" "kv_prog R (detach_mappings E i ms)"
  "kv_prog R (mt_RegisterPendingDeletes E work)"
  unfolding queue_detached_def detach_mappings_def mt_RegisterPendingDeletes_def
  by (auto intro!: kv_intros split: option.splits)

lemma kv_size [kv_intros]: "kv_prog R (CommitSizeChange E i plan req fs shrink)" "kv_prog R (mt_CommitShrink E i plan req fs)"
  "kv_prog R (mt_CommitGrow E i plan req fs)"
  unfolding mt_CommitShrink_def mt_CommitGrow_def CommitSizeChange_def Let_def by (intro kv_intros)+

lemma kv_reclaim [kv_intros]: "kv_prog R (reclaim_inode E i ms)" "kv_prog R (mt_PrepareReclaim E i)"
proof -
  show r: "kv_prog R (reclaim_inode E i ms)" for ms
    unfolding reclaim_inode_def by (auto intro!: kv_intros split: option.splits)
  show "kv_prog R (mt_PrepareReclaim E i)"
    unfolding mt_PrepareReclaim_def by (rule kv_tcase) (auto intro!: kv_intros r split: sum.splits)
qed

lemma kv_entries [kv_intros]:
  "kv_prog R (mt_AddEntry E p name child parent)" "kv_prog R (mt_UnlinkFile E p name parent child)"
  "kv_prog R (mt_RemoveDirectory E p name parent child)" "kv_prog R (mt_LinkExistingEntry E p name parent child)"
proof -
  show "kv_prog R (mt_AddEntry E p name child parent)"
    unfolding mt_AddEntry_def by (intro kv_intros kv_tcase) (auto intro!: kv_intros kv_tcase split: sum.splits)
  show "kv_prog R (mt_UnlinkFile E p name parent child)" "kv_prog R (mt_RemoveDirectory E p name parent child)"
    unfolding mt_UnlinkFile_def mt_RemoveDirectory_def Let_def by (intro kv_intros)+
  show "kv_prog R (mt_LinkExistingEntry E p name parent child)"
    unfolding mt_LinkExistingEntry_def Let_def by (intro kv_intros kv_tcase) (auto intro!: kv_intros split: sum.splits)
qed

lemma kv_rename [kv_intros]:
  "kv_prog R (mt_MoveEntry E p n q m ps source target overwrite)" "kv_prog R (mt_ExchangeEntries E p n q m ps source tgt)"
proof -
  have b: "kv_prog R (set_parents E ps)" "kv_prog R (not_into_itself E i q)" for ps i q
    unfolding set_parents_def not_into_itself_def by (cases "snd ps"; auto intro!: kv_intros)+
  have "kv_prog R (mt_UnlinkFile E q m p tgt)" for p tgt q m
    by (rule kv_entries)
  then have r: "kv_prog R (replace_target E q m ps source tgt)" for ps tgt
    unfolding replace_target_def by (intro kv_intros) (auto intro!: kv_intros)
  have s: "kv_prog R (move_source E p n q m ps source)" for ps
    unfolding move_source_def Let_def by (intro kv_intros b)
  show "kv_prog R (mt_MoveEntry E p n q m ps source target overwrite)"
    unfolding mt_MoveEntry_def by (cases target) (auto intro!: kv_intros b r s)
  show "kv_prog R (mt_ExchangeEntries E p n q m ps source tgt)"
    unfolding mt_ExchangeEntries_def Let_def by (intro kv_intros b)
qed

end

text \<open>The model's own parameters meet the contracts.\<close>

interpretation ms: meta_store "mem_redis d0" "local_env db volume now cs enc fuel" for d0 db volume now cs enc fuel
  unfolding meta_store_def by (simp add: local_env_def mem.redis_server_axioms le.folly_cursor_axioms dec_key.key_schema_axioms)

end
