(* ===== verification/MetaNamespace.thy ===== *)
theory MetaNamespace
  imports MetaView
begin

text \<open>
  The metadata transactions refine the abstract tree: each operation of \<open>RedisMetaTxn.cpp\<close>, run on a consistent volume,
  queues commands that act on the tree as the operation of \<open>Namespace\<close> it implements, and leaves the volume consistent.
\<close>

section \<open>Inode updates\<close>

lemma acl_inv_same: "\<lbrakk> i_xattrs j = i_xattrs i; i_mode j = i_mode i \<rbrakk> \<Longrightarrow> acl_inv j = acl_inv i"
  using acl_inv_cong [of i j] acl_inv_cong [of j i] by (auto simp: IsDir_def)

lemma acl_inv_links [simp]: "acl_inv (set_nlink n i) = acl_inv i" "acl_inv (i\<lparr>i_parent_ino := p\<rparr>) = acl_inv i"
  by (rule acl_inv_same; simp add: set_nlink_def)+

lemma set_nlink_sel [simp]:
  "i_ino (set_nlink n i) = i_ino i" "i_parent_ino (set_nlink n i) = i_parent_ino i" "i_mode (set_nlink n i) = i_mode i"
  "i_nlink (set_nlink n i) = n" "IsDir (set_nlink n i) = IsDir i" "a_ino (i_attr (set_nlink n i)) = a_ino (i_attr i)"
  "inode_ok (set_nlink n i) = inode_ok i"
  by (simp_all add: set_nlink_def IsDir_def inode_ok_def attr_ok_def)

lemma good_Touch: "good i \<Longrightarrow> good (Touch now f i)"
  by (simp add: good_def inode_ok_Touch)

lemma good_set_nlink [simp]: "good (set_nlink n i) = good i"
  by (simp add: good_def)

lemma goodD: "good n \<Longrightarrow> inode_ok n" "good n \<Longrightarrow> acl_inv n"
  by (simp_all add: good_def)

lemma gain_sel [simp]:
  "i_ino (gain now c p) = i_ino p" "i_parent_ino (gain now c p) = i_parent_ino p" "i_mode (gain now c p) = i_mode p"
  "i_nlink (gain now c p) = i_nlink p + of_bool (IsDir c)" "IsDir (gain now c p) = IsDir p"
  "a_ino (i_attr (gain now c p)) = a_ino (i_attr p)" "good p \<Longrightarrow> good (gain now c p)"
  by (simp_all add: gain_def good_Touch)

lemma lose_sel [simp]:
  "i_ino (lose now c p) = i_ino p" "i_parent_ino (lose now c p) = i_parent_ino p" "i_mode (lose now c p) = i_mode p"
  "i_nlink (lose now c p) = i_nlink p - of_bool (IsDir c)" "IsDir (lose now c p) = IsDir p"
  "a_ino (i_attr (lose now c p)) = a_ino (i_attr p)" "good p \<Longrightarrow> good (lose now c p)"
  by (simp_all add: lose_def good_Touch)

lemma reparent_sel [simp]:
  "i_ino (reparent p now i) = i_ino i" "i_parent_ino (reparent p now i) = p" "i_mode (reparent p now i) = i_mode i"
  "i_nlink (reparent p now i) = i_nlink i" "IsDir (reparent p now i) = IsDir i"
  "a_ino (i_attr (reparent p now i)) = a_ino (i_attr i)" "good i \<Longrightarrow> good (reparent p now i)"
  by (simp_all add: reparent_def IsDir_def good_def inode_ok_def attr_ok_Touch)

lemma entry_for_sel [simp]: "e_name (entry_for n c) = n" "e_ino (entry_for n c) = i_ino c" "e_type (entry_for n c) = ModeToDt (i_mode c)"
  by (simp_all add: entry_for_def)

lemma entry_for_ok: "\<lbrakk> inode_ok c; n \<noteq> []; string_ok n \<rbrakk> \<Longrightarrow> entry_ok (entry_for n c)"
  by (simp add: entry_ok_def inode_ok_def)

lemma up_dir:
  assumes "tree_ok T" "is_dir T i" "i \<noteq> kRootInodeId"
  shows "is_dir T (up T i)"
proof -
  obtain n where "links T i = {(up T i, n)}"
    using tree_okD(9) [OF assms] by blast
  then have "ent T (up T i) n = Some i"
    by (auto simp: links_def set_eq_iff)
  then show ?thesis
    by (rule tree_okD(5) [OF assms(1)])
qed

section \<open>Commands on the tree\<close>

lemma tree_sel [simp]:
  "kind (tree_of v) i = map_option IsDir (inodes v i)" "ent (tree_of v) p n = map_option e_ino (entries v p n)"
  "up (tree_of v) i = (case inodes v i of None \<Rightarrow> 0 | Some n \<Rightarrow> i_parent_ino n)"
  "cnt (tree_of v) i = (case inodes v i of None \<Rightarrow> 0 | Some n \<Rightarrow> unat (i_nlink n))"
  by (simp_all add: tree_of_def)

lemma tree_eqI:
  "\<lbrakk> \<And>i. kind T i = kind U i; \<And>i. up T i = up U i; \<And>p n. ent T p n = ent U p n; \<And>i. cnt T i = cnt U i \<rbrakk> \<Longrightarrow> (T :: tree) = U"
  by (cases T; cases U) (auto simp: fun_eq_iff)

lemma unat_inc: "unat n + 1 < 2 ^ 64 \<Longrightarrow> unat (n + of_bool b :: u64) = unat n + of_bool b"
  by (auto simp: unat_word_ariths)

lemma unat_dec: "0 < n \<Longrightarrow> unat (n - of_bool b :: u64) = unat n - of_bool b"
  by (auto simp: unat_sub word_le_nat_alt word_less_nat_alt)

lemma tree_add:
  assumes "inodes v p = Some parent" "i_ino parent = p" "i_parent_ino child = p" "i_ino child \<noteq> p"
    "unat (i_nlink child) = (if IsDir child then 2 else 1)" "unat (i_nlink parent) + 1 < 2 ^ 64"
  shows "tree_of (fold vexec [MInode child, MEntry p (entry_for n child), MInode (gain now child parent), MSide x] v)
    = t_add p n (i_ino child) (IsDir child) (tree_of v)"
  using assms by (intro tree_eqI) (auto simp: t_add_def unat_inc split: option.splits)

lemma tree_unlink:
  assumes "inodes v p = Some parent" "i_ino parent = p" "inodes v c = Some child" "i_ino child = c" "\<not> IsDir child" "p \<noteq> c" "0 < i_nlink child"
  shows "tree_of (fold vexec [MDelEntry p n, MInode (lose now child parent), MInode (Touch now' fCtime (set_nlink (i_nlink child - 1) child))] v)
    = t_unlink p n c (tree_of v)"
  using assms unat_dec [of "i_nlink child" True] by (intro tree_eqI) (auto simp: t_unlink_def split: option.splits)

lemma tree_rmdir:
  assumes "inodes v p = Some parent" "i_ino parent = p" "IsDir child" "p \<noteq> c" "2 < i_nlink parent"
  shows "tree_of (fold vexec [MDelEntry p n, MDelInode c, MSide x, MInode (lose now child parent)] v) = t_rmdir p n c (tree_of v)"
  using assms unat_dec [of "i_nlink parent" True] order.strict_trans [of 0 2 "i_nlink parent"]
  by (intro tree_eqI) (auto simp: t_rmdir_def split: option.splits)

lemma tree_link:
  assumes "inodes v p = Some parent" "i_ino parent = p" "inodes v c = Some inode" "i_ino inode = c" "\<not> IsDir inode" "p \<noteq> c"
    "unat (i_nlink inode) + 1 < 2 ^ 64"
  shows "tree_of (fold vexec [MEntry p (entry_for n inode), MInode (gain now inode parent), MInode (Touch now' fCtime (set_nlink (i_nlink inode + 1) inode))] v)
    = t_link p n c (tree_of v)"
  using assms unat_inc [of "i_nlink inode" True] by (intro tree_eqI) (auto simp: t_link_def split: option.splits)

text \<open>The orphan markers are no part of the tree.\<close>

lemma tree_orphan [simp]: "tree_of (v\<lparr>orphans := X\<rparr>) = tree_of v"
  by (simp add: tree_of_def)

definition parent_cmds :: "parents \<Rightarrow> mcmd list" where
  "parent_cmds ps = MInode (fst ps) # (case snd ps of None \<Rightarrow> [] | Some p \<Rightarrow> [MInode p])"

definition parents_of :: "vol \<Rightarrow> u64 \<Rightarrow> u64 \<Rightarrow> parents \<Rightarrow> bool" where
  "parents_of v p q ps \<longleftrightarrow> inodes v p = Some (fst ps) \<and> inodes v q = Some (new_of ps) \<and> i_ino (fst ps) = p \<and> i_ino (new_of ps) = q
     \<and> (p = q \<longleftrightarrow> snd ps = None)"

definition move_parents :: "i64 \<Rightarrow> i64 \<Rightarrow> SwordFsInode \<Rightarrow> parents \<Rightarrow> parents" where
  "move_parents now now' source ps = (let ps = (lose now source (fst ps), snd ps) in with_new (gain now' source (new_of ps)) ps)"

lemma tree_move:
  assumes ps: "parents_of v p q ps" and c: "inodes v c = Some source" "i_ino source = c" "c \<noteq> p" "c \<noteq> q"
    and room: "IsDir source \<Longrightarrow> 2 < i_nlink (fst ps)" "unat (i_nlink (new_of ps)) + 1 < 2 ^ 64"
  shows "tree_of (fold vexec ([MDelEntry p n, MEntry q (entry_for m source)] @ parent_cmds (move_parents now now' source ps)
      @ [MInode (reparent q now'' source)]) v) = t_move p n q m c (tree_of v)"
proof (cases "snd ps")
  case None
  then have eq: "p = q" "new_of ps = fst ps"
    using ps by (auto simp: parents_of_def new_of_def)
  have "unat (i_nlink (fst ps) - of_bool (IsDir source) + of_bool (IsDir source)) = unat (i_nlink (fst ps)) - of_bool (IsDir source) + of_bool (IsDir source)"
    using room(1) unat_dec [of "i_nlink (fst ps)" True] by (auto simp: word_less_nat_alt)
  then show ?thesis
    using ps c None eq
    by (intro tree_eqI) (auto simp: t_move_def parent_cmds_def move_parents_def with_new_def new_of_def parents_of_def split: option.splits)
next
  case (Some np)
  then have eq: "p \<noteq> q" "new_of ps = np"
    using ps by (auto simp: parents_of_def new_of_def)
  have "unat (i_nlink (fst ps) - of_bool (IsDir source)) = unat (i_nlink (fst ps)) - of_bool (IsDir source)"
    using room(1) unat_dec [of "i_nlink (fst ps)" True] by (auto simp: word_less_nat_alt)
  then show ?thesis
    using ps c Some eq room(2) unat_inc [of "i_nlink np" "IsDir source"]
    by (intro tree_eqI) (auto simp: t_move_def parent_cmds_def move_parents_def with_new_def new_of_def parents_of_def split: option.splits)
qed

definition touch_parents :: "i64 \<Rightarrow> i64 \<Rightarrow> parents \<Rightarrow> parents" where
  "touch_parents now now' ps = (let ps = (Touch now (fMtime OR fCtime) (fst ps), snd ps)
     in with_new (Touch now' (fMtime OR fCtime) (new_of ps)) ps)"

lemma AdjustNlink_1 [simp]:
  "AdjustNlink i (- 1) = Inr i' \<longleftrightarrow> 0 < i_nlink i \<and> i' = set_nlink (i_nlink i - 1) i"
  "AdjustNlink i 1 = Inr (set_nlink (i_nlink i + 1) i)"
  by (auto simp: AdjustNlink_def word_less_1 word_neq_0_conv)

lemma shift_links_Inr:
  assumes "shift_links source target ps = Inr ps'" "parents_of v p q ps" "unat (i_nlink (fst ps)) + 1 < 2 ^ 64" "unat (i_nlink (new_of ps)) + 1 < 2 ^ 64"
  shows "(snd ps' = None \<longleftrightarrow> snd ps = None) \<and> i_ino (fst ps') = p \<and> i_ino (new_of ps') = q
    \<and> IsDir (fst ps') = IsDir (fst ps) \<and> IsDir (new_of ps') = IsDir (new_of ps)
    \<and> i_parent_ino (fst ps') = i_parent_ino (fst ps) \<and> i_parent_ino (new_of ps') = i_parent_ino (new_of ps)
    \<and> i_mode (fst ps') = i_mode (fst ps) \<and> i_mode (new_of ps') = i_mode (new_of ps)
    \<and> (good (fst ps) \<longrightarrow> good (fst ps')) \<and> (good (new_of ps) \<longrightarrow> good (new_of ps'))
    \<and> (if snd ps = None then ps' = ps else
        unat (i_nlink (fst ps')) = unat (i_nlink (fst ps)) + of_bool (IsDir target) - of_bool (IsDir source)
      \<and> unat (i_nlink (new_of ps')) = unat (i_nlink (new_of ps)) + of_bool (IsDir source) - of_bool (IsDir target))"
proof (cases "snd ps")
  case None
  then show ?thesis
    using assms by (auto simp: shift_links_def parents_of_def)
next
  case (Some np)
  then show ?thesis
    using assms unat_inc [of "i_nlink (fst ps)" True] unat_inc [of "i_nlink np" True]
      unat_dec [of "i_nlink (fst ps)" True] unat_dec [of "i_nlink np" True]
    by (cases "IsDir source"; cases "IsDir target") (auto simp: shift_links_def parents_of_def new_of_def chk_Inr_iff)
qed

lemma tree_exchange:
  assumes ps: "parents_of v p q ps" and sh: "shift_links source target ps = Inr ps'"
    and c: "inodes v c = Some source" "i_ino source = c" "c \<noteq> p" "c \<noteq> q"
    and e: "inodes v e = Some target" "i_ino target = e" "e \<noteq> p" "e \<noteq> q" "c \<noteq> e"
    and room: "unat (i_nlink (fst ps)) + 1 < 2 ^ 64" "unat (i_nlink (new_of ps)) + 1 < 2 ^ 64"
  shows "tree_of (fold vexec ([MEntry p (entry_for n target), MEntry q (entry_for m source)] @ parent_cmds (touch_parents now now' ps')
      @ [MInode (reparent q now'' source), MInode (reparent p now'' target)]) v) = t_exchange p n q m c e (tree_of v)"
proof (cases "snd ps")
  case None
  then have "p = q" "new_of ps = fst ps"
    using ps by (auto simp: parents_of_def new_of_def)
  then show ?thesis
    using ps c e None shift_links_Inr [OF sh ps room]
    by (intro tree_eqI) (auto simp: t_exchange_def Let_def parent_cmds_def touch_parents_def with_new_def new_of_def parents_of_def split: option.splits)
next
  case (Some np)
  obtain np' where np': "snd ps' = Some np'"
    using shift_links_Inr [OF sh ps room] Some by auto
  have "p \<noteq> q" "new_of ps = np"
    using ps Some by (auto simp: parents_of_def new_of_def)
  then show ?thesis
    using ps c e Some shift_links_Inr [OF sh ps room] np'
    by (intro tree_eqI) (auto simp: t_exchange_def Let_def parent_cmds_def touch_parents_def with_new_def new_of_def parents_of_def split: option.splits)
qed

text \<open>A rename removes what its target name referred to, then moves the source; a second name of the source is left alone.\<close>

definition t_replace :: "bool \<Rightarrow> u64 \<Rightarrow> bytes \<Rightarrow> u64 \<Rightarrow> tree \<Rightarrow> tree" where
  "t_replace dir q m c T = (if dir then t_rmdir q m c T else t_unlink q m c T)"

definition t_rename :: "u64 \<Rightarrow> bytes \<Rightarrow> u64 \<Rightarrow> bytes \<Rightarrow> u64 \<Rightarrow> (u64 \<times> bool) option \<Rightarrow> tree \<Rightarrow> tree" where
  "t_rename p n q m c target T = (case target of
      None \<Rightarrow> t_move p n q m c T
    | Some (e, dir) \<Rightarrow> if e = c then T else t_move p n q m c (t_replace dir q m e T))"

lemma upr_replace: "upr (t_replace dir q m c T) \<subseteq> upr T"
  by (auto simp: upr_def t_replace_def t_rmdir_def t_unlink_def split: if_splits)

section \<open>Records stay in agreement\<close>

lemma recs_okD:
  assumes "recs_ok v"
  shows "inodes v i = Some n \<Longrightarrow> i_ino n = i" "inodes v i = Some n \<Longrightarrow> good n" "entries v p m = Some e \<Longrightarrow> e_name e = m"
    "\<lbrakk> entries v p m = Some e; inodes v (e_ino e) = Some c \<rbrakk> \<Longrightarrow> e_type e = ModeToDt (i_mode c)"
    "\<lbrakk> inodes v i = Some n; \<not> IsDir n; i_nlink n = 0 \<rbrakk> \<Longrightarrow> i \<in> orphans v"
  using assms unfolding recs_ok_def by blast+

lemma recs_okI:
  assumes "\<And>i n. inodes v i = Some n \<Longrightarrow> i_ino n = i \<and> good n" "\<And>p m e. entries v p m = Some e \<Longrightarrow> e_name e = m"
    "\<And>p m e c. \<lbrakk> entries v p m = Some e; inodes v (e_ino e) = Some c \<rbrakk> \<Longrightarrow> e_type e = ModeToDt (i_mode c)"
    "\<And>i n. \<lbrakk> inodes v i = Some n; \<not> IsDir n; i_nlink n = 0 \<rbrakk> \<Longrightarrow> i \<in> orphans v"
  shows "recs_ok v"
  using assms unfolding recs_ok_def by blast

text \<open>Updating, removing and creating single records.\<close>

lemma recs_update:
  assumes r: "recs_ok v" and n: "inodes v i = Some n" "i_ino n' = i" "good n'" "ModeToDt (i_mode n') = ModeToDt (i_mode n)"
    and o: "\<lbrakk> \<not> IsDir n'; i_nlink n' = 0 \<rbrakk> \<Longrightarrow> i \<in> orphans v"
  shows "recs_ok (vexec (MInode n') v)"
proof (rule recs_okI)
  fix p m e c
  assume "entries (vexec (MInode n') v) p m = Some e" "inodes (vexec (MInode n') v) (e_ino e) = Some c"
  then show "e_type e = ModeToDt (i_mode c)"
    using n recs_okD(4) [OF r, of p m e] by (auto split: if_splits)
qed (use recs_okD(1-3,5) [OF r] n o in \<open>force split: if_splits\<close>)+

lemma recs_new:
  assumes r: "recs_ok v" and n: "good n" "\<And>p m e. entries v p m = Some e \<Longrightarrow> e_ino e \<noteq> i_ino n" "i_nlink n \<noteq> 0"
  shows "recs_ok (vexec (MInode n) v)"
proof (rule recs_okI)
  fix p m e c
  assume "entries (vexec (MInode n) v) p m = Some e" "inodes (vexec (MInode n) v) (e_ino e) = Some c"
  then show "e_type e = ModeToDt (i_mode c)"
    using n(2) [of p m e] recs_okD(4) [OF r, of p m e] by (auto split: if_splits)
qed (use recs_okD(1-3,5) [OF r] n(1,3) in \<open>force split: if_splits\<close>)+

lemma recs_link:
  assumes r: "recs_ok v" and n: "inodes v (i_ino n) = Some n'" "i_mode n' = i_mode n"
  shows "recs_ok (vexec (MEntry p (entry_for m n)) v)"
proof (rule recs_okI)
  fix q k e c
  assume "entries (vexec (MEntry p (entry_for m n)) v) q k = Some e" "inodes (vexec (MEntry p (entry_for m n)) v) (e_ino e) = Some c"
  then show "e_type e = ModeToDt (i_mode c)"
    using n recs_okD(4) [OF r, of q k e] by (auto split: if_splits)
qed (use recs_okD(1-3,5) [OF r] in \<open>force split: if_splits\<close>)+

lemma recs_drop:
  assumes r: "recs_ok v"
  shows "recs_ok (vexec (MDelEntry p m) v)" "recs_ok (vexec (MDelInode i) v)" "recs_ok (vexec (MOrphan i) v)" "recs_ok (vexec (MSide x) v)"
proof -
  show "recs_ok (vexec (MDelEntry p m) v)"
    by (rule recs_okI; use recs_okD [OF r] in \<open>force split: if_splits\<close>)
  show "recs_ok (vexec (MDelInode i) v)"
    by (rule recs_okI; use recs_okD [OF r] in \<open>force split: if_splits\<close>)
  show "recs_ok (vexec (MOrphan i) v)"
    by (rule recs_okI; use recs_okD [OF r] in \<open>force split: if_splits\<close>)
qed (simp add: r)

lemma recs_unorphan:
  assumes r: "recs_ok v" and i: "\<And>n. inodes v i = Some n \<Longrightarrow> IsDir n \<or> i_nlink n \<noteq> 0"
  shows "recs_ok (vexec (MUnorphan i) v)"
  by (rule recs_okI; use recs_okD [OF r] i in \<open>force split: if_splits\<close>)

lemma recs_orphan_if:
  "recs_ok v \<Longrightarrow> recs_ok (if b then vexec (MOrphan i) v else v)"
  "\<lbrakk> recs_ok v; inodes v i = Some n; i_nlink n \<noteq> 0 \<rbrakk> \<Longrightarrow> recs_ok (if b then vexec (MUnorphan i) v else v)"
  using recs_drop(3) [of v i] recs_unorphan [of v i] by auto

text \<open>Storing the parents of a rename, with other link counts and times.\<close>

definition like :: "SwordFsInode \<Rightarrow> SwordFsInode \<Rightarrow> bool" where
  "like n n' \<longleftrightarrow> i_ino n' = i_ino n \<and> i_mode n' = i_mode n \<and> good n' \<and> IsDir n'"

lemma like_touch: "like n n' \<Longrightarrow> like n (Touch now f n')"
  by (simp add: like_def good_Touch)

lemma new_of_None: "snd ps = None \<Longrightarrow> new_of ps = fst ps"
  by (simp add: new_of_def)

lemma touch_parents_sel:
  "snd (touch_parents a b ps) = None \<longleftrightarrow> snd ps = None"
  "fst (touch_parents a b ps) = (if snd ps = None then Touch b (fMtime OR fCtime) (Touch a (fMtime OR fCtime) (fst ps)) else Touch a (fMtime OR fCtime) (fst ps))"
  "new_of (touch_parents a b ps) = (if snd ps = None then Touch b (fMtime OR fCtime) (Touch a (fMtime OR fCtime) (fst ps)) else Touch b (fMtime OR fCtime) (new_of ps))"
  by (cases "snd ps"; simp add: touch_parents_def with_new_def new_of_def)+

lemma recs_parents:
  assumes "recs_ok w" "parents_of w p q ps" "snd ps' = None \<longleftrightarrow> snd ps = None" "like (fst ps) (fst ps')" "like (new_of ps) (new_of ps')"
  shows "recs_ok (fold vexec (parent_cmds ps') w)" "c \<noteq> p \<Longrightarrow> c \<noteq> q \<Longrightarrow> inodes (fold vexec (parent_cmds ps') w) c = inodes w c"
proof -
  have w: "inodes w p = Some (fst ps)" "inodes w q = Some (new_of ps)" "i_ino (fst ps') = p" "i_ino (new_of ps') = q"
    and lk: "i_mode (fst ps') = i_mode (fst ps)" "i_mode (new_of ps') = i_mode (new_of ps)" "good (fst ps')" "good (new_of ps')"
      "IsDir (fst ps')" "IsDir (new_of ps')"
    using assms(2,4,5) by (auto simp: parents_of_def like_def)
  have 1: "recs_ok (vexec (MInode (fst ps')) w)"
    by (rule recs_update [OF assms(1) w(1,3)]) (use lk in simp_all)
  have cmds: "parent_cmds ps' = (if p = q then [MInode (fst ps')] else [MInode (fst ps'), MInode (new_of ps')])"
    using assms(2,3) by (auto simp: parent_cmds_def parents_of_def new_of_def split: option.splits)
  show "recs_ok (fold vexec (parent_cmds ps') w)"
  proof (cases "p = q")
    case False
    have "recs_ok (vexec (MInode (new_of ps')) (vexec (MInode (fst ps')) w))"
      by (rule recs_update [OF 1 _ w(4)]) (use w lk False in simp_all)
    then show ?thesis
      using False by (simp add: cmds)
  qed (use 1 in \<open>simp add: cmds\<close>)
  show "inodes (fold vexec (parent_cmds ps') w) c = inodes w c" if "c \<noteq> p" "c \<noteq> q"
    using that w by (simp add: cmds)
qed

section \<open>Consistent key spaces\<close>

definition consistent :: "meta_env \<Rightarrow> keyspace \<Rightarrow> bool" where
  "consistent E d \<longleftrightarrow> typed E d \<and> vol_ok (vol_of E d)"

text \<open>Link counts have room for one more link, and no directory has \<open>2 ^ 64\<close> entries.\<close>

definition limits :: "meta_env \<Rightarrow> keyspace \<Rightarrow> bool" where
  "limits E d \<longleftrightarrow> (\<forall>i n. inode_at E d i = Some n \<longrightarrow> unat (i_nlink n) + 1 < 2 ^ 64)
     \<and> (\<forall>p. fcard (fmdom (hash_at d (K_Directory (me_key E) p))) < 2 ^ 64)"

definition tree_at :: "meta_env \<Rightarrow> keyspace \<Rightarrow> tree" where
  "tree_at E d = tree_of (vol_of E d)"

section \<open>What a successful run queues\<close>

context meta_store
begin

lemma run_simps:
  "AdjustInodeCount E delta (snap R d) t = (Ret (Inr ()), after_write (conc E (MSide (CIncrBy (K_InodeCount (me_key E)) delta))) t)"
  "DeleteInode E i (snap R d) t = (Ret (Inr ()), after_write (conc E (MSide (CIncrBy (K_InodeCount (me_key E)) (- 1)))) (after_write (conc E (MDelInode i)) t))"
  "ClearOrphanMarker E i (snap R d) t = (Ret (Inr ()), after_write (conc E (MUnorphan i)) t)"
  "HSet (K_Orphans (me_key E)) (number i) (ascii ''1'') (snap R d) t = (Ret (Inr ()), after_write (conc E (MOrphan i)) t)"
  by (simp_all add: AdjustInodeCount_def DeleteInode_def ClearOrphanMarker_def snap_writes tbind_def tcase_def)

lemma AddEntry_run:
  assumes "mt_AddEntry E p name child parent (snap R d) t = (Ret (Inr u), t')"
  shows "\<not> has_writes t \<and> has_writes t' \<and> i_ino parent = p \<and> i_parent_ino child = p \<and> IsDir parent \<and> name \<noteq> []
    \<and> fmlookup (hash_at d (K_Directory (me_key E) p)) name = None
    \<and> (\<exists>now. queue t' = queue t @ map (conc E) [MInode child, MEntry p (entry_for name child), MInode (gain now child parent),
         MSide (CIncrBy (K_InodeCount (me_key E)) 1)])"
  using assms
  by (auto simp: mt_AddEntry_def tcase_sum tbind_Inr tcheck_Inr treturn_eq meta_simps HGet_NotFound run_simps split: if_splits)

lemma UnlinkFile_run:
  assumes "mt_UnlinkFile E p name parent child (snap R d) t = (Ret (Inr (parent', child')), t')"
  shows "has_writes t' \<and> i_ino parent = p \<and> \<not> IsDir child \<and> IsDir parent \<and> 0 < i_nlink child
    \<and> (\<exists>now now'. parent' = lose now child parent \<and> child' = Touch now' fCtime (set_nlink (i_nlink child - 1) child)
       \<and> queue t' = queue t @ map (conc E) ([MDelEntry p name, MInode parent', MInode child'] @ (if i_nlink child' = 0 then [MOrphan (i_ino child)] else [])))"
  using assms
  by (auto simp: mt_UnlinkFile_def Let_def snap_simps meta_simps run_simps lose_def split: if_splits)

lemma RemoveDirectory_run:
  assumes "mt_RemoveDirectory E p name parent child (snap R d) t = (Ret (Inr parent'), t')"
  shows "\<not> has_writes t \<and> has_writes t' \<and> i_ino parent = p \<and> i_parent_ino child = p \<and> IsDir child \<and> IsDir parent \<and> 2 < i_nlink parent
    \<and> (of_nat (fcard (fmdom (hash_at d (K_Directory (me_key E) (i_ino child))))) :: u64) = 0
    \<and> (\<exists>now. parent' = lose now child parent \<and> queue t' = queue t @ map (conc E)
         [MDelEntry p name, MDelInode (i_ino child), MSide (CIncrBy (K_InodeCount (me_key E)) (- 1)), MInode parent'])"
  using assms
  by (auto simp: mt_RemoveDirectory_def snap_simps meta_simps HLen_Inr run_simps split: if_splits)

lemma LinkExistingEntry_run:
  assumes "mt_LinkExistingEntry E p name parent inode (snap R d) t = (Ret (Inr linked), t')"
  shows "\<not> has_writes t \<and> has_writes t' \<and> i_ino parent = p \<and> IsDir parent \<and> \<not> IsDir inode \<and> name \<noteq> []
    \<and> fmlookup (hash_at d (K_Directory (me_key E) p)) name = None
    \<and> (\<exists>now now'. linked = Touch now' fCtime (set_nlink (i_nlink inode + 1) inode)
       \<and> queue t' = queue t @ map (conc E) ([MEntry p (entry_for name inode)] @ (if i_nlink inode = 0 then [MUnorphan (i_ino inode)] else [])
           @ [MInode (gain now inode parent), MInode linked]))"
  using assms
  by (auto simp: mt_LinkExistingEntry_def Let_def tcase_sum tbind_Inr tcheck_Inr treturn_eq meta_simps run_simps split: if_splits)

lemma set_parents_Inr [meta_simps]: "set_parents E ps (snap R d) t = (Ret (Inr u), t') \<longleftrightarrow>
    i_ino (fst ps) \<noteq> 0 \<and> a_ino (i_attr (fst ps)) = i_ino (fst ps) \<and> (\<forall>p. snd ps = Some p \<longrightarrow> i_ino p \<noteq> 0 \<and> a_ino (i_attr p) = i_ino p)
      \<and> t' = (case snd ps of None \<Rightarrow> after_write (conc E (MInode (fst ps))) t
                | Some p \<Rightarrow> after_write (conc E (MInode p)) (after_write (conc E (MInode (fst ps))) t))"
  by (cases "snd ps") (auto simp: set_parents_def snap_simps meta_simps)

lemma move_source_run:
  assumes "move_source E p n q m ps source (snap R d) t = (Ret (Inr u), t')"
  shows "has_writes t' \<and> IsDir (fst ps) \<and> IsDir (new_of ps) \<and> (IsDir source \<longrightarrow> 2 < i_nlink (fst ps)) \<and> m \<noteq> []
    \<and> (\<exists>now now' now''. queue t' = queue t @ map (conc E) ([MDelEntry p n, MEntry q (entry_for m source)]
        @ parent_cmds (move_parents now now' source ps) @ [MInode (reparent q now'' source)]))"
  using assms
  by (cases "snd ps")
    (auto simp: move_source_def Let_def tbind_Inr meta_simps parent_cmds_def move_parents_def with_new_def new_of_def)

lemma replace_target_run:
  assumes "replace_target E q m ps source tgt (snap R d) t = (Ret (Inr ps'), t')"
  shows "IsDir source = IsDir tgt \<and> (\<exists>now. ps' = with_new (lose now tgt (new_of ps)) ps \<and>
     (if IsDir tgt then mt_RemoveDirectory E q m (new_of ps) tgt (snap R d) t = (Ret (Inr (lose now tgt (new_of ps))), t')
      else \<exists>tgt'. mt_UnlinkFile E q m (new_of ps) tgt (snap R d) t = (Ret (Inr (lose now tgt (new_of ps), tgt')), t')))"
proof (cases "IsDir tgt")
  case True
  then obtain p' where run: "mt_RemoveDirectory E q m (new_of ps) tgt (snap R d) t = (Ret (Inr p'), t')" "ps' = with_new p' ps" "IsDir source"
    using assms by (auto simp: replace_target_def tbind_Inr tcheck_Inr treturn_eq split: if_splits)
  then show ?thesis
    using True RemoveDirectory_run [OF run(1)] by auto
next
  case False
  then obtain p' c' where run: "mt_UnlinkFile E q m (new_of ps) tgt (snap R d) t = (Ret (Inr (p', c')), t')" "ps' = with_new p' ps" "\<not> IsDir source"
    using assms by (auto simp: replace_target_def tbind_Inr tcheck_Inr treturn_eq split: if_splits)
  then show ?thesis
    using False UnlinkFile_run [OF run(1)] by auto
qed

lemma check_parents_Inr:
  "check_parents p q ps = Inr u \<longleftrightarrow> i_ino (fst ps) = p \<and> i_ino (new_of ps) = q \<and> (p = q \<longleftrightarrow> snd ps = None) \<and> IsDir (fst ps) \<and> IsDir (new_of ps)"
  by (auto simp: check_parents_def reject_def)

lemma not_into_itself_Inr: "not_into_itself E i q (snap R d) t = (Ret (Inr u), t') \<longleftrightarrow>
    (if IsDir i then IsDescendantOf E (i_ino i) q (snap R d) t = (Ret (Inr False), t') else t' = t)"
  by (auto simp: not_into_itself_def snap_simps split: if_splits)

lemma MoveEntry_run:
  assumes "mt_MoveEntry E p n q m ps source target overwrite (snap R d) t = (Ret (Inr u), t')"
  shows "check_parents p q ps = Inr () \<and> (\<exists>t1. not_into_itself E source q (snap R d) t = (Ret (Inr ()), t1)
    \<and> (case target of None \<Rightarrow> move_source E p n q m ps source (snap R d) t1 = (Ret (Inr ()), t')
       | Some tgt \<Rightarrow> if i_ino tgt = i_ino source then t' = t1
           else \<exists>ps' t2. replace_target E q m ps source tgt (snap R d) t1 = (Ret (Inr ps'), t2)
             \<and> move_source E p n q m ps' source (snap R d) t2 = (Ret (Inr ()), t')))"
  using assms by (cases target) (auto simp: mt_MoveEntry_def tbind_Inr tcheck_Inr treturn_eq split: if_splits)

lemma ExchangeEntries_run:
  assumes "mt_ExchangeEntries E p n q m ps source target (snap R d) t = (Ret (Inr u), t')"
  shows "check_parents p q ps = Inr () \<and> (if i_ino source = i_ino target then t' = t else
     \<exists>t1 t2 ps' now now' now''. not_into_itself E source q (snap R d) t = (Ret (Inr ()), t1)
       \<and> not_into_itself E target p (snap R d) t1 = (Ret (Inr ()), t2)
       \<and> shift_links source target ps = Inr ps' \<and> n \<noteq> [] \<and> m \<noteq> [] \<and> has_writes t'
       \<and> queue t' = queue t2 @ map (conc E) ([MEntry p (entry_for n target), MEntry q (entry_for m source)]
           @ parent_cmds (touch_parents now now' ps') @ [MInode (reparent q now'' source), MInode (reparent p now'' target)]))"
proof (cases "i_ino source = i_ino target")
  case False
  then obtain t1 t2 ps' op np t3 t4 t5 t6 where 1: "check_parents p q ps = Inr ()" "not_into_itself E source q (snap R d) t = (Ret (Inr ()), t1)"
      "not_into_itself E target p (snap R d) t1 = (Ret (Inr ()), t2)" "shift_links source target ps = Inr ps'"
    and 2: "ReplaceEntry E p n target (fst ps') (snap R d) t2 = (Ret (Inr op), t3)"
      "ReplaceEntry E q m source (new_of (op, snd ps')) (snap R d) t3 = (Ret (Inr np), t4)"
      "set_parents E (with_new np (op, snd ps')) (snap R d) t4 = (Ret (Inr ()), t5)"
      "SetInode E (reparent q (me_now E (clock t4)) source) (snap R d) t5 = (Ret (Inr ()), t6)"
      "SetInode E (reparent p (me_now E (clock t4)) target) (snap R d) t6 = (Ret (Inr ()), t')"
    using assms by (auto simp: mt_ExchangeEntries_def tbind_Inr tcheck_Inr tnow_eq Let_def split: if_splits)
  have "n \<noteq> [] \<and> m \<noteq> [] \<and> has_writes t' \<and> queue t' = queue t2 @ map (conc E) ([MEntry p (entry_for n target), MEntry q (entry_for m source)]
           @ parent_cmds (touch_parents (me_now E (clock t2)) (me_now E (clock t3)) ps')
           @ [MInode (reparent q (me_now E (clock t4)) source), MInode (reparent p (me_now E (clock t4)) target)])"
    using 2 by (cases "snd ps'") (auto simp: meta_simps parent_cmds_def touch_parents_def with_new_def new_of_def Let_def)
  then show ?thesis
    using 1 False by simp blast
qed (use assms in \<open>auto simp: mt_ExchangeEntries_def tbind_Inr tcheck_Inr treturn_eq split: if_splits\<close>)

section \<open>The walk to the root\<close>

text \<open>On a consistent tree the walk of \<open>IsDescendantOf\<close> never meets an inode twice and decides ancestry.\<close>

lemma dir_inode:
  assumes "recs_ok v" "is_dir (tree_of v) i"
  obtains n where "inodes v i = Some n" "IsDir n" "i_ino n = i" "i \<noteq> 0"
  using assms by (fastforce simp: recs_ok_def good_def inode_ok_def)

lemma Lookup_tbind: "\<lbrakk> \<not> has_writes t; inode_at E d i = Some n \<rbrakk> \<Longrightarrow>
    tbind (LookupInode E i) f (snap R d) t = f n (snap R d) (after_read [K_Inode (me_key E) i] t)"
  by (rule tbind_run(1)) (simp add: LookupInode_Inr)

lemma descend_exact:
  assumes ok: "vol_ok (vol_of E d)" and c: "is_dir (tree_of (vol_of E d)) c" "\<not> has_writes t"
    "\<forall>x\<in>set visited. (x, c) \<in> (upr (tree_of (vol_of E d)))\<^sup>+"
  shows "\<exists>t'. descend E a c visited (snap R d) t = (Ret (Inr ((c, a) \<in> (upr (tree_of (vol_of E d)))\<^sup>*)), t')
    \<and> queue t' = queue t \<and> \<not> has_writes t'"
proof -
  define T where "T = tree_of (vol_of E d)"
  have T: "tree_ok T" and recs: "recs_ok (vol_of E d)"
    using ok by (simp_all add: vol_ok_def T_def)
  have "(c, kRootInodeId) \<in> (upr T)\<^sup>*"
    using tree_okD(10) [OF T] c(1) by (simp add: T_def)
  then show ?thesis
    using c unfolding T_def [symmetric]
  proof (induction arbitrary: visited t rule: converse_rtrancl_induct)
    case base
    obtain n where n: "inode_at E d kRootInodeId = Some n"
      using dir_inode [OF recs, of kRootInodeId] base.prems(1) by (auto simp: T_def)
    have "i_parent_ino n = kRootInodeId"
      using tree_okD(3) [OF T] n by (simp add: T_def)
    moreover have "kRootInodeId \<notin> set visited"
      using base.prems(3) upr_acyclic [OF T] by blast
    moreover have "(kRootInodeId, a) \<in> (upr T)\<^sup>* \<longleftrightarrow> kRootInodeId = a"
      using upr_root by (meson converse_rtranclE rtrancl.rtrancl_refl)
    ultimately show ?case
      using n base.prems(2)
      by (subst descend.simps) (simp add: kRootInodeId_def treturn_def Lookup_tbind)
  next
    case (step i j)
    obtain n where n: "inode_at E d i = Some n" "i \<noteq> 0"
      using dir_inode [OF recs, of i] step.prems(1) by (auto simp: T_def)
    have j: "i_parent_ino n = j" "i \<noteq> kRootInodeId"
      using step.hyps(1) n by (auto simp: upr_iff T_def)
    have ij: "i \<noteq> j"
      using step.hyps(1) upr_acyclic [OF T] by blast
    have vis: "i \<notin> set visited" "\<forall>x\<in>set (i # visited). (x, j) \<in> (upr T)\<^sup>+"
      using step.prems(3) upr_acyclic [OF T] step.hyps(1) by (auto intro: trancl_into_trancl)
    have dj: "is_dir T j"
      using step.hyps(1) up_dir [OF T] by (auto simp: upr_iff)
    have anc: "(i, a) \<in> (upr T)\<^sup>* \<longleftrightarrow> i = a \<or> (j, a) \<in> (upr T)\<^sup>*"
      using step.hyps(1) upr_fun by (metis converse_rtranclE converse_rtrancl_into_rtrancl rtrancl.rtrancl_refl)
    show ?case
    proof (cases "i = a")
      case True
      then show ?thesis
        using n vis step.prems(2) by (subst descend.simps) (simp add: treturn_def)
    next
      case False
      let ?t = "after_read [K_Inode (me_key E) i] t"
      obtain t' where t': "descend E a j (i # visited) (snap R d) ?t = (Ret (Inr ((j, a) \<in> (upr T)\<^sup>*)), t')" "queue t' = queue ?t" "\<not> has_writes t'"
        using step.IH [OF dj _ vis(2), of ?t] step.prems(2) by auto
      have "descend E a i visited (snap R d) t = descend E a j (i # visited) (snap R d) ?t"
        using n vis False ij j(1) step.prems(2) by (subst descend.simps) (simp add: Lookup_tbind)
      then show ?thesis
        using t' False anc by simp
    qed
  qed
qed

end

section \<open>Each operation keeps the volume consistent\<close>

context meta_store
begin

lemma consistentD:
  assumes "consistent E d"
  shows "typed E d" "tree_ok (tree_at E d)" "recs_ok (vol_of E d)" "inode_at E d i = Some n \<Longrightarrow> i_ino n = i \<and> good n \<and> i \<noteq> 0"
  using assms recs_okD(1,2) [of "vol_of E d" i n] by (auto simp: consistent_def vol_ok_def tree_at_def good_def inode_ok_def)

lemma consistentI:
  assumes "typed E d" "q = map (conc E) ms" "list_all (mcmd_ok E) ms" "tree_ok (tree_of (fold vexec ms (vol_of E d)))"
    "recs_ok (fold vexec ms (vol_of E d))"
  shows "consistent E (fst (exec_cmds q d)) \<and> tree_at E (fst (exec_cmds q d)) = tree_of (fold vexec ms (vol_of E d))"
  using exec_vols [OF assms(1,3)] assms(2,4,5) by (simp add: consistent_def vol_ok_def tree_at_def)

lemma no_entry_to:
  assumes "consistent E d" "inode_at E d c = None" "entry_at E d p m = Some e"
  shows "e_ino e \<noteq> c"
  using tree_okD(6) [OF consistentD(2) [OF assms(1)], of p m "e_ino e"] assms(2,3) by (auto simp: tree_at_def)

theorem AddEntry_consistent:
  assumes d: "consistent E d" "limits E d"
    and run: "mt_AddEntry E p name child parent (snap R d) t = (Ret (Inr u), t')" "queue t = []"
    and p: "inode_at E d p = Some parent"
    and child: "good child" "inode_at E d (i_ino child) = None" "i_nlink child = (if IsDir child then 2 else 1)" "string_ok name"
  shows "consistent E (fst (exec_cmds (queue t') d)) \<and> tree_at E (fst (exec_cmds (queue t') d)) = t_add p name (i_ino child) (IsDir child) (tree_at E d)"
proof -
  obtain now where r: "i_ino parent = p" "i_parent_ino child = p" "IsDir parent" "name \<noteq> []" "entry_at E d p name = None"
    and q: "queue t' = map (conc E) [MInode child, MEntry p (entry_for name child), MInode (gain now child parent), MSide (CIncrBy (K_InodeCount (me_key E)) 1)]"
    using AddEntry_run [OF run(1)] run(2) typedD(2) [OF consistentD(1) [OF d(1)]] by auto
  have ne: "i_ino child \<noteq> p"
    using child(2) p by auto
  have T: "tree_of (fold vexec [MInode child, MEntry p (entry_for name child), MInode (gain now child parent), MSide (CIncrBy (K_InodeCount (me_key E)) 1)] (vol_of E d))
      = t_add p name (i_ino child) (IsDir child) (tree_at E d)" (is "tree_of (fold vexec ?ms _) = _")
    unfolding tree_at_def using r p ne child(3) d(2) by (intro tree_add) (auto simp: limits_def)
  have recs: "recs_ok (fold vexec ?ms (vol_of E d))"
    unfolding fold.simps comp_def id_def
    using consistentD [OF d(1)] no_entry_to [OF d(1) child(2)] child p r ne
    by (intro recs_drop(4) recs_update [where n = parent and i = p] recs_link [where n' = child] recs_new) auto
  have "tree_ok (t_add p name (i_ino child) (IsDir child) (tree_at E d))"
    using consistentD(2) [OF d(1)] p r child(2) by (intro t_add_ok) (simp_all add: tree_at_def)
  moreover have "list_all (mcmd_ok E) ?ms"
    using child r consistentD(4) [OF d(1) p] by (simp add: entry_for_ok side_cmd_def cmd_key_def goodD)
  ultimately show ?thesis
    using consistentI [OF consistentD(1) [OF d(1)] q] T recs by simp
qed

lemma dir_not_file: "\<lbrakk> inode_at E d p = Some parent; IsDir parent; inode_at E d c = Some child; \<not> IsDir child \<rbrakk> \<Longrightarrow> p \<noteq> c"
  by auto

lemma tree_at_sel [simp]:
  "kind (tree_at E d) i = map_option IsDir (inode_at E d i)" "ent (tree_at E d) p n = map_option e_ino (entry_at E d p n)"
  by (simp_all add: tree_at_def)

theorem UnlinkFile_consistent:
  assumes d: "consistent E d"
    and run: "mt_UnlinkFile E p name parent child (snap R d) t = (Ret (Inr r), t')" "queue t = []"
    and p: "inode_at E d p = Some parent" and e: "entry_at E d p name = Some e" and c: "inode_at E d (e_ino e) = Some child"
  shows "consistent E (fst (exec_cmds (queue t') d)) \<and> tree_at E (fst (exec_cmds (queue t') d)) = t_unlink p name (e_ino e) (tree_at E d)"
proof -
  obtain now now' parent' child' where r: "\<not> IsDir child" "IsDir parent" "0 < i_nlink child" "i_ino parent = p"
    and defs: "parent' = lose now child parent" "child' = Touch now' fCtime (set_nlink (i_nlink child - 1) child)"
    and q: "queue t' = map (conc E) ([MDelEntry p name, MInode parent', MInode child'] @ (if i_nlink child' = 0 then [MOrphan (i_ino child)] else []))"
      (is "_ = map (conc E) (?ms @ ?os)")
    using UnlinkFile_run [of p name parent child d t "fst r" "snd r" t'] run by auto
  have ci: "i_ino child = e_ino e" "good child" and pi: "good parent"
    using consistentD(4) [OF d c] consistentD(4) [OF d p] by auto
  have ne: "p \<noteq> e_ino e"
    using dir_not_file [OF p r(2) c r(1)] .
  have "tree_of (fold vexec ?ms (vol_of E d)) = t_unlink p name (e_ino e) (tree_at E d)"
    unfolding defs tree_at_def by (rule tree_unlink) (use p c r ci ne in simp_all)
  then have T: "tree_of (fold vexec (?ms @ ?os) (vol_of E d)) = t_unlink p name (e_ino e) (tree_at E d)"
    by simp
  define w where "w = vexec (MInode parent') (vexec (MDelEntry p name) (vol_of E d))"
  have "recs_ok w"
    unfolding w_def using consistentD(3) [OF d] p pi r by (intro recs_update [where n = parent and i = p] recs_drop) (simp_all add: defs)
  then have "recs_ok (if i_nlink child' = 0 then vexec (MOrphan (e_ino e)) w else w)"
    by (rule recs_orphan_if)
  then have "recs_ok (vexec (MInode child') (if i_nlink child' = 0 then vexec (MOrphan (e_ino e)) w else w))"
    by (rule recs_update [where n = child and i = "e_ino e"]) (use c ci ne r(4) in \<open>auto simp: defs w_def good_Touch\<close>)
  moreover have "fold vexec (?ms @ ?os) (vol_of E d) = vexec (MInode child') (if i_nlink child' = 0 then vexec (MOrphan (e_ino e)) w else w)"
    using ci by (intro vol_eqI) (simp_all add: w_def)
  ultimately have recs: "recs_ok (fold vexec (?ms @ ?os) (vol_of E d))"
    by simp
  have "tree_ok (t_unlink p name (e_ino e) (tree_at E d))"
    using consistentD(2) [OF d] e c r by (intro t_unlink_ok) simp_all
  moreover have "list_all (mcmd_ok E) (?ms @ ?os)"
    using pi ci by (simp add: defs good_Touch goodD)
  ultimately show ?thesis
    using consistentI [OF consistentD(1) [OF d] q] T recs by simp
qed

lemma empty_dir:
  assumes "typed E d" "limits E d" "(of_nat (fcard (fmdom (hash_at d (K_Directory (me_key E) c)))) :: u64) = 0"
  shows "entry_at E d c m = None"
proof -
  have "fcard (fmdom (hash_at d (K_Directory (me_key E) c))) < 2 ^ 64"
    using assms(2) by (simp add: limits_def)
  then have "fcard (fmdom (hash_at d (K_Directory (me_key E) c))) = 0"
    using assms(3) nat_dvd_not_less [of "fcard (fmdom (hash_at d (K_Directory (me_key E) c)))" "2 ^ 64"]
    by (auto simp: word_of_nat_eq_0_iff simp del: fcard_0_eq)
  then have "fmlookup (hash_at d (K_Directory (me_key E) c)) m = None"
    by (simp add: fmdom_notD)
  then show ?thesis
    using typedD(2) [OF assms(1)] by simp
qed

theorem RemoveDirectory_consistent:
  assumes d: "consistent E d" "limits E d"
    and run: "mt_RemoveDirectory E p name parent child (snap R d) t = (Ret (Inr r), t')" "queue t = []"
    and p: "inode_at E d p = Some parent" and e: "entry_at E d p name = Some e" and c: "inode_at E d (e_ino e) = Some child"
  shows "consistent E (fst (exec_cmds (queue t') d)) \<and> tree_at E (fst (exec_cmds (queue t') d)) = t_rmdir p name (e_ino e) (tree_at E d)
    \<and> (\<forall>m. entry_at E d (e_ino e) m = None)"
proof -
  have ci: "i_ino child = e_ino e" and pi: "good parent"
    using consistentD(4) [OF d(1) c] consistentD(4) [OF d(1) p] by auto
  obtain now where r: "IsDir child" "IsDir parent" "2 < i_nlink parent" "i_ino parent = p"
      "(of_nat (fcard (fmdom (hash_at d (K_Directory (me_key E) (e_ino e))))) :: u64) = 0"
    and q: "queue t' = map (conc E) [MDelEntry p name, MDelInode (e_ino e), MSide (CIncrBy (K_InodeCount (me_key E)) (- 1)), MInode (lose now child parent)]"
      (is "_ = map (conc E) ?ms")
    using RemoveDirectory_run [OF run(1)] run(2) ci by auto
  have em: "entry_at E d (e_ino e) m = None" for m
    using empty_dir [OF consistentD(1) [OF d(1)] d(2) r(5)] .
  then have ne: "p \<noteq> e_ino e"
    using e by auto
  have T: "tree_of (fold vexec ?ms (vol_of E d)) = t_rmdir p name (e_ino e) (tree_at E d)"
    unfolding tree_at_def by (rule tree_rmdir) (use p c r ci ne in simp_all)
  have "recs_ok (fold vexec ?ms (vol_of E d))"
    unfolding fold.simps comp_def id_def
    using consistentD(3) [OF d(1)] p pi r ne by (intro recs_update [where n = parent and i = p] recs_drop) simp_all
  moreover have "tree_ok (t_rmdir p name (e_ino e) (tree_at E d))"
    using consistentD(2) [OF d(1)] e c r em by (intro t_rmdir_ok) simp_all
  moreover have "list_all (mcmd_ok E) ?ms"
    using pi by (simp add: side_cmd_def cmd_key_def goodD)
  ultimately show ?thesis
    using consistentI [OF consistentD(1) [OF d(1)] q] T em by simp
qed

theorem LinkExistingEntry_consistent:
  assumes d: "consistent E d" "limits E d"
    and run: "mt_LinkExistingEntry E p name parent inode (snap R d) t = (Ret (Inr r), t')" "queue t = []" "string_ok name"
    and p: "inode_at E d p = Some parent" and c: "inode_at E d c = Some inode"
  shows "consistent E (fst (exec_cmds (queue t') d)) \<and> tree_at E (fst (exec_cmds (queue t') d)) = t_link p name c (tree_at E d)"
proof -
  have ci: "i_ino inode = c" "good inode" and pi: "good parent"
    using consistentD(4) [OF d(1) c] consistentD(4) [OF d(1) p] by auto
  obtain now now' linked where r: "\<not> IsDir inode" "IsDir parent" "i_ino parent = p" "name \<noteq> []" "entry_at E d p name = None"
    and linked: "linked = Touch now' fCtime (set_nlink (i_nlink inode + 1) inode)"
    and q: "queue t' = map (conc E) ([MEntry p (entry_for name inode)] @ (if i_nlink inode = 0 then [MUnorphan c] else [])
           @ [MInode (gain now inode parent), MInode linked])" (is "_ = map (conc E) (?m1 @ ?os @ ?m2)")
    using LinkExistingEntry_run [OF run(1)] run(2) ci typedD(2) [OF consistentD(1) [OF d(1)]] by auto
  have ne: "p \<noteq> c"
    using dir_not_file [OF p r(2) c r(1)] .
  have room: "unat (i_nlink inode) + 1 < 2 ^ 64"
    using d(2) c by (auto simp: limits_def)
  then have live: "i_nlink linked \<noteq> 0"
    using unat_inc [of "i_nlink inode" True] by (auto simp: linked)
  define w where "w = fold vexec (?m1 @ ?m2) (vol_of E d)"
  have v: "fold vexec (?m1 @ ?os @ ?m2) (vol_of E d) = (if i_nlink inode = 0 then vexec (MUnorphan c) w else w)"
    by (simp add: w_def)
  have T: "tree_of w = t_link p name c (tree_at E d)"
    using tree_link [of "vol_of E d" p parent c inode name now now'] p c r ci ne room by (simp add: w_def linked tree_at_def)
  have "recs_ok w"
    unfolding w_def fold.simps comp_def id_def fold_append
    using consistentD(3) [OF d(1)] p c pi ci r ne live
    by (intro recs_update [where n = inode and i = c] recs_update [where n = parent and i = p] recs_link [where n' = inode])
      (simp_all add: linked good_Touch)
  moreover have "inodes w c = Some linked"
    using ci by (simp add: w_def linked)
  ultimately have "recs_ok (fold vexec (?m1 @ ?os @ ?m2) (vol_of E d))"
    unfolding v using live by (intro recs_orphan_if(2)) simp_all
  moreover have "tree_ok (t_link p name c (tree_at E d))"
    using consistentD(2) [OF d(1)] p c r by (intro t_link_ok) simp_all
  moreover have "list_all (mcmd_ok E) (?m1 @ ?os @ ?m2)"
    using pi ci run(3) r by (simp add: linked good_Touch entry_for_ok goodD)
  ultimately show ?thesis
    using consistentI [OF consistentD(1) [OF d(1)] q] T v by simp
qed

text \<open>A rename first replaces an existing target, then moves the source.\<close>

lemma with_new_sel: "new_of (with_new x ps) = x" "snd (with_new x ps) = None \<longleftrightarrow> snd ps = None" "fst (with_new x ps) = (if snd ps = None then x else fst ps)"
  by (cases "snd ps"; simp add: with_new_def new_of_def)+

lemma move_consistent:
  assumes d: "consistent E d" and ps: "parents_of (vol_of E d) p q ps" "IsDir (new_of ps)"
    and c: "entry_at E d p n = Some e" "inode_at E d (e_ino e) = Some source" "e_ino e \<noteq> q" and m: "entry_at E d q m = None" "m \<noteq> []" "string_ok m"
    and cyc: "IsDir source \<Longrightarrow> (q, e_ino e) \<notin> (upr (tree_at E d))\<^sup>*"
    and room: "IsDir source \<Longrightarrow> 2 < i_nlink (fst ps)" "unat (i_nlink (new_of ps)) + 1 < 2 ^ 64"
    and ms: "ms = [MDelEntry p n, MEntry q (entry_for m source)] @ parent_cmds (move_parents now now' source ps) @ [MInode (reparent q now'' source)]"
  shows "consistent E (fst (exec_cmds (map (conc E) ms) d)) \<and> tree_at E (fst (exec_cmds (map (conc E) ms) d)) = t_move p n q m (e_ino e) (tree_at E d)"
proof -
  note D = consistentD [OF d]
  have p: "inode_at E d p = Some (fst ps)" "inode_at E d q = Some (new_of ps)" "i_ino (fst ps) = p" "i_ino (new_of ps) = q" "p = q \<longleftrightarrow> snd ps = None"
    using ps(1) by (simp_all add: parents_of_def)
  have ok: "good (fst ps)" "good (new_of ps)" "good source" "i_ino source = e_ino e"
    using D(4) p(1,2) c(2) by auto
  have ne: "e_ino e \<noteq> p"
    using entry_above [OF D(2), of p n "e_ino e"] c tree_okD(5) [OF D(2), of p n "e_ino e"] by auto
  have T: "tree_of (fold vexec ms (vol_of E d)) = t_move p n q m (e_ino e) (tree_at E d)"
    unfolding ms tree_at_def by (rule tree_move) (use ps c ok ne room in simp_all)
  define ps' where "ps' = move_parents now now' source ps"
  have pd: "IsDir (fst ps)"
    using tree_okD(5) [OF D(2), of p n "e_ino e"] c(1) p(1) by simp
  then have lk: "snd ps' = None \<longleftrightarrow> snd ps = None" "like (fst ps) (fst ps')" "like (new_of ps) (new_of ps')"
    using ok ps(2) by (cases "snd ps"; simp add: ps'_def move_parents_def with_new_def new_of_def like_def)+
  have "recs_ok (vexec (MEntry q (entry_for m source)) (vexec (MDelEntry p n) (vol_of E d)))" (is "recs_ok ?w")
    using D(3) c(2) ok(4) by (intro recs_link [where n' = source] recs_drop) simp_all
  then have "recs_ok (fold vexec (parent_cmds ps') ?w)" "inodes (fold vexec (parent_cmds ps') ?w) (e_ino e) = Some source"
    using recs_parents(1) [of ?w p q ps ps'] recs_parents(2) [of ?w p q ps ps' "e_ino e"] ps(1) lk ne c by (simp_all add: parents_of_def)
  then have "recs_ok (vexec (MInode (reparent q now'' source)) (fold vexec (parent_cmds ps') ?w))"
    by (rule recs_update) (use ok recs_okD(5) [OF D(3), of "e_ino e" source] c(2) in \<open>auto simp: parent_cmds_def split: option.splits\<close>)
  then have "recs_ok (fold vexec ms (vol_of E d))"
    by (simp add: ms ps'_def)
  moreover have "tree_ok (t_move p n q m (e_ino e) (tree_at E d))"
    using D(2) p(2) c m(1) ps(2) cyc by (intro t_move_ok) simp_all
  moreover have "list_all (mcmd_ok E) ms"
    using ok lk m by (cases "snd ps'") (simp_all add: ms parent_cmds_def entry_for_ok new_of_def like_def goodD flip: ps'_def)
  ultimately show ?thesis
    using consistentI [OF D(1) refl, of ms] T by simp
qed

lemma exec_run: "\<lbrakk> typed E d; q = map (conc E) ms; list_all (mcmd_ok E) ms \<rbrakk> \<Longrightarrow> vol_of E (fst (exec_cmds q d)) = fold vexec ms (vol_of E d)"
  using exec_vols by simp

lemma replace_consistent:
  assumes d: "consistent E d" "limits E d" and ps: "parents_of (vol_of E d) p q ps"
    and run: "replace_target E q m ps source tgt (snap R d) t = (Ret (Inr ps'), t')" "queue t = []"
    and e: "entry_at E d q m = Some e" "inode_at E d (e_ino e) = Some tgt"
    and c: "entry_at E d p n = Some s" "inode_at E d (e_ino s) = Some source" "e_ino s \<noteq> e_ino e" "e_ino s \<noteq> q"
  defines "d' \<equiv> fst (exec_cmds (queue t') d)"
  shows "consistent E d' \<and> tree_at E d' = t_replace (IsDir tgt) q m (e_ino e) (tree_at E d)
    \<and> parents_of (vol_of E d') p q ps' \<and> entry_at E d' p n = Some s \<and> inode_at E d' (e_ino s) = Some source \<and> entry_at E d' q m = None
    \<and> unat (i_nlink (new_of ps')) + 1 < 2 ^ 64"
proof -
  note D = consistentD [OF d(1)]
  have q: "inode_at E d q = Some (new_of ps)" "i_ino (new_of ps) = q" and ok: "good (new_of ps)" "good tgt" "i_ino tgt = e_ino e"
    and pp: "inode_at E d p = Some (fst ps)" "i_ino (fst ps) = p" "p = q \<longleftrightarrow> snd ps = None"
    using ps D(4) e(2) by (auto simp: parents_of_def)
  have pn: "(q, m) \<noteq> (p, n)"
    using e(1) c(1,3) by auto
  have pd: "IsDir (fst ps)"
    using tree_okD(5) [OF D(2), of p n "e_ino s"] c(1) pp(1) by simp
  obtain now where r: "ps' = with_new (lose now tgt (new_of ps)) ps"
    and run': "if IsDir tgt then mt_RemoveDirectory E q m (new_of ps) tgt (snap R d) t = (Ret (Inr (lose now tgt (new_of ps))), t')
      else \<exists>tgt'. mt_UnlinkFile E q m (new_of ps) tgt (snap R d) t = (Ret (Inr (lose now tgt (new_of ps), tgt')), t')"
    using replace_target_run [OF run(1)] by blast
  have room: "unat (i_nlink (new_of ps)) + 1 < 2 ^ 64"
    using d(2) q(1) by (auto simp: limits_def)
  have rest: "parents_of (vol_of E d') p q ps' \<and> entry_at E d' p n = Some s \<and> inode_at E d' (e_ino s) = Some source \<and> entry_at E d' q m = None
    \<and> unat (i_nlink (new_of ps')) + 1 < 2 ^ 64"
    if iv: "inode_at E d' = (inode_at E d)(e_ino e := X, q \<mapsto> lose now tgt (new_of ps))"
      and ev: "entry_at E d' = (entry_at E d)(q := (entry_at E d q)(m := None))"
      and ne: "e_ino e \<noteq> p" "e_ino e \<noteq> q" and nl: "IsDir tgt \<Longrightarrow> 0 < i_nlink (new_of ps)" for X
  proof -
    have "parents_of (vol_of E d') p q ps'"
      using iv pp q ne by (cases "snd ps") (auto simp: parents_of_def r with_new_def new_of_def)
    moreover have "unat (i_nlink (new_of ps')) \<le> unat (i_nlink (new_of ps))"
      using nl unat_dec [of "i_nlink (new_of ps)" True] by (cases "IsDir tgt") (simp_all add: r with_new_sel)
    ultimately show ?thesis
      using iv ev c(1,2) ne c(3,4) room pn by auto
  qed
  show ?thesis
  proof (cases "IsDir tgt")
    case True
    note run1 = run' [unfolded if_P [OF True]]
    note R1 = RemoveDirectory_consistent [OF d run1 run(2) q(1) e]
    have ne: "e_ino e \<noteq> p" "e_ino e \<noteq> q"
      using R1 c(1) e(1) by auto
    have nl: "0 < i_nlink (new_of ps)" and qs: "queue t' = map (conc E) [MDelEntry q m, MDelInode (e_ino e),
        MSide (CIncrBy (K_InodeCount (me_key E)) (- 1)), MInode (lose now tgt (new_of ps))]" (is "_ = map (conc E) ?ms")
      using RemoveDirectory_run [OF run1] run(2) ok(3) order.strict_trans [of 0 2 "i_nlink (new_of ps)"] by auto
    have v: "vol_of E d' = fold vexec ?ms (vol_of E d)"
      unfolding d'_def by (rule exec_run [OF D(1) qs]) (use ok in \<open>simp add: side_cmd_def cmd_key_def goodD\<close>)
    show ?thesis
      using R1 True rest [of None] arg_cong [OF v, of inodes] arg_cong [OF v, of entries] ne nl q(2) by (simp add: t_replace_def d'_def)
  next
    case False
    then obtain tgt' where run1: "mt_UnlinkFile E q m (new_of ps) tgt (snap R d) t = (Ret (Inr (lose now tgt (new_of ps), tgt')), t')"
      using run' by auto
    note R1 = UnlinkFile_consistent [OF d(1) run1 run(2) q(1) e]
    have ne: "e_ino e \<noteq> p" "e_ino e \<noteq> q"
      using dir_not_file [OF pp(1) pd e(2) False] UnlinkFile_run [OF run1] dir_not_file [OF q(1) _ e(2) False] by auto
    have tg: "i_ino tgt' = e_ino e" "good tgt'" and qs: "queue t' = map (conc E) ([MDelEntry q m, MInode (lose now tgt (new_of ps)), MInode tgt']
        @ (if i_nlink tgt' = 0 then [MOrphan (i_ino tgt)] else []))" (is "_ = map (conc E) ?ms")
      using UnlinkFile_run [OF run1] run(2) ok by (auto intro: good_Touch)
    have v: "vol_of E d' = fold vexec ?ms (vol_of E d)"
      unfolding d'_def by (rule exec_run [OF D(1) qs]) (use ok tg in \<open>simp add: goodD\<close>)
    show ?thesis
      using R1 False rest [of "Some tgt'"] arg_cong [OF v, of inodes] arg_cong [OF v, of entries] ne q(2) tg
      by (simp add: t_replace_def d'_def fun_upd_twist)
  qed
qed

lemma not_inside:
  assumes "consistent E d" "not_into_itself E i q (snap R d) t = (Ret (Inr u), t')" "inode_at E d q = Some n" "IsDir n" "\<not> has_writes t"
  shows "queue t' = queue t" "\<not> has_writes t'" "IsDir i \<Longrightarrow> (q, i_ino i) \<notin> (upr (tree_at E d))\<^sup>*"
proof -
  obtain t1 where t1: "IsDescendantOf E (i_ino i) q (snap R d) t = (Ret (Inr ((q, i_ino i) \<in> (upr (tree_at E d))\<^sup>*)), t1)" "queue t1 = queue t" "\<not> has_writes t1"
    using descend_exact [of d q t "[]" "i_ino i"] assms by (auto simp: IsDescendantOf_def consistent_def tree_at_def)
  show "queue t' = queue t" "\<not> has_writes t'" "IsDir i \<Longrightarrow> (q, i_ino i) \<notin> (upr (tree_at E d))\<^sup>*"
    using assms(2,5) t1 by (auto simp: not_into_itself_Inr split: if_splits)
qed

theorem MoveEntry_consistent:
  assumes d: "consistent E d" "limits E d"
    and run: "mt_MoveEntry E p n q m ps source target overwrite (snap R d) t = (Ret (Inr u), t')" "queue t = []" "\<not> has_writes t" "string_ok m"
    and ps: "inode_at E d p = Some (fst ps)" "inode_at E d q = Some (new_of ps)"
    and c: "entry_at E d p n = Some s" "inode_at E d (e_ino s) = Some source"
    and tg: "case target of None \<Rightarrow> entry_at E d q m = None | Some tgt \<Rightarrow> \<exists>e. entry_at E d q m = Some e \<and> inode_at E d (e_ino e) = Some tgt"
  shows "consistent E (fst (exec_cmds (queue t') d)) \<and> tree_at E (fst (exec_cmds (queue t') d))
    = t_rename p n q m (i_ino source) (map_option (\<lambda>x. (i_ino x, IsDir x)) target) (tree_at E d)"
proof -
  note D = consistentD [OF d(1)]
  obtain t1 where ck: "check_parents p q ps = Inr ()" and t1: "not_into_itself E source q (snap R d) t = (Ret (Inr ()), t1)"
    and tr: "case target of None \<Rightarrow> move_source E p n q m ps source (snap R d) t1 = (Ret (Inr ()), t')
       | Some tgt \<Rightarrow> if i_ino tgt = i_ino source then t' = t1
           else \<exists>ps' t2. replace_target E q m ps source tgt (snap R d) t1 = (Ret (Inr ps'), t2)
             \<and> move_source E p n q m ps' source (snap R d) t2 = (Ret (Inr ()), t')"
    using MoveEntry_run [OF run(1)] by blast
  have P: "parents_of (vol_of E d) p q ps" and qd: "IsDir (new_of ps)"
    using ck ps by (auto simp: check_parents_Inr parents_of_def)
  note I = not_inside [OF d(1) t1 ps(2) qd run(3)]
  have si: "i_ino source = e_ino s"
    using D(4) [OF c(2)] by simp
  have sq: "e_ino s \<noteq> q"
    using I(3) si c(2) ps(2) qd by auto
  show ?thesis
  proof (cases target)
    case None
    then have mv: "move_source E p n q m ps source (snap R d) t1 = (Ret (Inr ()), t')" and m: "entry_at E d q m = None"
      using tr tg by simp_all
    obtain now now' now'' where r: "IsDir source \<longrightarrow> 2 < i_nlink (fst ps)" "m \<noteq> []"
      and qs: "queue t' = map (conc E) ([MDelEntry p n, MEntry q (entry_for m source)] @ parent_cmds (move_parents now now' source ps) @ [MInode (reparent q now'' source)])"
      using move_source_run [OF mv] I(1) run(2) by auto
    have "unat (i_nlink (new_of ps)) + 1 < 2 ^ 64"
      using d(2) ps(2) by (auto simp: limits_def)
    then show ?thesis
      using move_consistent [OF d(1) P qd c sq m r(2) run(4) _ _ _ refl, of now now' now''] I(3) r(1) None si by (simp add: qs t_rename_def)
  next
    case (Some tgt)
    then obtain e where e: "entry_at E d q m = Some e" "inode_at E d (e_ino e) = Some tgt" "i_ino tgt = e_ino e"
      using tg D(4) by auto
    show ?thesis
    proof (cases "i_ino tgt = i_ino source")
      case True
      then show ?thesis
        using Some tr I(1) run(2) d(1) by (simp add: t_rename_def exec_cmds.simps)
    next
      case False
      then obtain ps' t2 where rp: "replace_target E q m ps source tgt (snap R d) t1 = (Ret (Inr ps'), t2)"
        and mv: "move_source E p n q m ps' source (snap R d) t2 = (Ret (Inr ()), t')"
        using Some tr by auto
      define d' where "d' = fst (exec_cmds (queue t2) d)"
      have R: "consistent E d'" "tree_at E d' = t_replace (IsDir tgt) q m (e_ino e) (tree_at E d)" "parents_of (vol_of E d') p q ps'"
        "entry_at E d' p n = Some s" "inode_at E d' (e_ino s) = Some source" "entry_at E d' q m = None" "unat (i_nlink (new_of ps')) + 1 < 2 ^ 64"
        using replace_consistent [OF d P rp _ e(1,2) c _ sq] I(1) run(2) False e(3) si by (simp_all add: d'_def)
      obtain now now' now'' where r: "IsDir source \<longrightarrow> 2 < i_nlink (fst ps')" "m \<noteq> []" "IsDir (new_of ps')"
        and qs: "queue t' = queue t2 @ map (conc E) ([MDelEntry p n, MEntry q (entry_for m source)] @ parent_cmds (move_parents now now' source ps') @ [MInode (reparent q now'' source)])"
        using move_source_run [OF mv] by auto
      have "(q, e_ino s) \<notin> (upr (tree_at E d'))\<^sup>*" if "IsDir source"
        using I(3) [OF that] rtrancl_mono [OF upr_replace [of "IsDir tgt" q m "e_ino e" "tree_at E d"]] unfolding R(2) si by blast
      then show ?thesis
        using move_consistent [OF R(1,3) r(3) R(4,5) sq R(6) r(2) run(4) _ _ R(7) refl, of now now' now''] r(1) R(2) Some False e(3) si
        by (simp add: qs exec_cmds_append t_rename_def flip: d'_def)
    qed
  qed
qed

theorem ExchangeEntries_consistent:
  assumes d: "consistent E d" "limits E d"
    and run: "mt_ExchangeEntries E p n q m ps source target (snap R d) t = (Ret (Inr u), t')" "queue t = []" "\<not> has_writes t" "string_ok n" "string_ok m"
    and ps: "inode_at E d p = Some (fst ps)" "inode_at E d q = Some (new_of ps)"
    and c: "entry_at E d p n = Some s" "inode_at E d (e_ino s) = Some source"
    and e: "entry_at E d q m = Some g" "inode_at E d (e_ino g) = Some target" and ne: "i_ino source \<noteq> i_ino target"
  shows "consistent E (fst (exec_cmds (queue t') d)) \<and> tree_at E (fst (exec_cmds (queue t') d))
    = t_exchange p n q m (i_ino source) (i_ino target) (tree_at E d)"
proof -
  note D = consistentD [OF d(1)]
  obtain t1 t2 ps' now now' now'' where ck: "check_parents p q ps = Inr ()"
    and t1: "not_into_itself E source q (snap R d) t = (Ret (Inr ()), t1)" and t2: "not_into_itself E target p (snap R d) t1 = (Ret (Inr ()), t2)"
    and sh: "shift_links source target ps = Inr ps'" and nm: "n \<noteq> []" "m \<noteq> []"
    and q2: "queue t' = queue t2 @ map (conc E) ([MEntry p (entry_for n target), MEntry q (entry_for m source)]
           @ parent_cmds (touch_parents now now' ps') @ [MInode (reparent q now'' source), MInode (reparent p now'' target)])"
    using ExchangeEntries_run [OF run(1)] ne by (auto simp del: append.simps)
  have P: "parents_of (vol_of E d) p q ps" and dirs: "IsDir (fst ps)" "IsDir (new_of ps)"
    using ck ps by (auto simp: check_parents_Inr parents_of_def)
  note I1 = not_inside [OF d(1) t1 ps(2) dirs(2) run(3)]
  note I2 = not_inside [OF d(1) t2 ps(1) dirs(1) I1(2)]
  have ino: "i_ino source = e_ino s" "i_ino target = e_ino g" and ok: "good source" "good target" "good (fst ps)" "good (new_of ps)"
    using D(4) [OF c(2)] D(4) [OF e(2)] D(4) [OF ps(1)] D(4) [OF ps(2)] by auto
  have sq: "e_ino s \<noteq> q" "e_ino g \<noteq> p"
    using I1(3) I2(3) ino c(2) e(2) ps dirs by auto
  have sp: "e_ino s \<noteq> p" "e_ino g \<noteq> q"
    using entry_above [OF D(2), of p n "e_ino s"] entry_above [OF D(2), of q m "e_ino g"] c e ps dirs by auto
  have room: "unat (i_nlink (fst ps)) + 1 < 2 ^ 64" "unat (i_nlink (new_of ps)) + 1 < 2 ^ 64"
    using d(2) ps by (auto simp: limits_def)
  note S = shift_links_Inr [OF sh P room]
  define ms where "ms = [MEntry p (entry_for n target), MEntry q (entry_for m source)] @ parent_cmds (touch_parents now now' ps')
      @ [MInode (reparent q now'' source), MInode (reparent p now'' target)]"
  have T: "tree_of (fold vexec ms (vol_of E d)) = t_exchange p n q m (i_ino source) (i_ino target) (tree_at E d)"
    unfolding ms_def tree_at_def by (rule tree_exchange [OF P sh]) (use c e ino sp sq ne room in simp_all)
  define ps'' where "ps'' = touch_parents now now' ps'"
  have lk0: "snd ps' = None \<longleftrightarrow> snd ps = None" "like (fst ps) (fst ps')" "like (new_of ps) (new_of ps')"
    using S ok dirs P by (simp_all add: like_def parents_of_def)
  then have lk: "snd ps'' = None \<longleftrightarrow> snd ps = None" "like (fst ps) (fst ps'')" "like (new_of ps) (new_of ps'')"
    using new_of_None [of ps] by (auto simp: ps''_def touch_parents_sel intro: like_touch)
  have "recs_ok (vexec (MEntry q (entry_for m source)) (vexec (MEntry p (entry_for n target)) (vol_of E d)))" (is "recs_ok ?w")
    using D(3) c(2) e(2) ino by (intro recs_link [where n' = source] recs_link [where n' = target]) simp_all
  then have r: "recs_ok (fold vexec (parent_cmds ps'') ?w)" "inodes (fold vexec (parent_cmds ps'') ?w) (e_ino s) = Some source"
      "inodes (fold vexec (parent_cmds ps'') ?w) (e_ino g) = Some target" "orphans (fold vexec (parent_cmds ps'') ?w) = orphans (vol_of E d)"
    using recs_parents(1) [of ?w p q ps ps''] recs_parents(2) [of ?w p q ps ps''] P lk sp sq c e
    by (simp_all add: parents_of_def) (simp add: parent_cmds_def split: option.splits)
  have r1: "recs_ok (vexec (MInode (reparent q now'' source)) (fold vexec (parent_cmds ps'') ?w))"
    by (rule recs_update [OF r(1,2)]) (use ok ino recs_okD(5) [OF D(3), of "e_ino s" source] c(2) r(4) in auto)
  have "recs_ok (vexec (MInode (reparent p now'' target)) (vexec (MInode (reparent q now'' source)) (fold vexec (parent_cmds ps'') ?w)))"
    by (rule recs_update [OF r1, where i = "e_ino g" and n = target])
      (use ok ino recs_okD(5) [OF D(3), of "e_ino g" target] e(2) r(3,4) ne in auto)
  then have "recs_ok (fold vexec ms (vol_of E d))"
    by (simp add: ms_def ps''_def)
  moreover have "tree_ok (t_exchange p n q m (i_ino source) (i_ino target) (tree_at E d))"
    using D(2) c e ino ne I1(3) I2(3) by (intro t_exchange_ok) simp_all
  moreover have "list_all (mcmd_ok E) ms"
    using ok lk nm run(4,5) by (cases "snd ps''") (simp_all add: ms_def parent_cmds_def entry_for_ok new_of_def like_def goodD flip: ps''_def)
  ultimately show ?thesis
    using consistentI [OF D(1) refl, of ms] T q2 I1(1) I2(1) run(2) by (simp add: ms_def)
qed

end

end
