(* ===== verification/MetaAttrs.thy ===== *)
theory MetaAttrs
  imports MetaNamespace
begin

text \<open>
  The metadata transactions that leave the tree alone (attributes, extended attributes, chunk attachments, size changes)
  and the reclaim of unlinked inodes. A transaction of the first kind stores one inode whose identity, parent, links and
  type are kept, between commands on side keys; \<open>PrepareReclaim\<close> removes an inode only when nothing links to it.
\<close>

section \<open>Updates of one inode\<close>

definition attr_step :: "SwordFsInode \<Rightarrow> SwordFsInode \<Rightarrow> bool" where
  "attr_step n n' \<longleftrightarrow> i_ino n' = i_ino n \<and> i_parent_ino n' = i_parent_ino n \<and> i_nlink n' = i_nlink n
     \<and> i_mode n' AND S_IFMT = i_mode n AND S_IFMT \<and> good n'"

lemma same_type: "m AND S_IFMT = m' AND S_IFMT \<Longrightarrow> ModeToDt m = ModeToDt m'"
  by (simp add: ModeToDt_def S_ISDIR_def S_ISREG_def S_ISLNK_def)

lemma attr_step_Touch: "good n \<Longrightarrow> attr_step n (Touch now f n)"
  by (simp add: attr_step_def good_Touch)

lemma good_attr:
  assumes "good n" "i_xattrs n' = i_xattrs n" "i_mode n' = i_mode n" "i_ino n' = i_ino n" "i_symlink_target n' = i_symlink_target n"
    "a_ino (i_attr n') = a_ino (i_attr n)" "attr_ok (i_attr n')"
  shows "good n'"
  using assms acl_inv_same [of n' n] by (simp add: good_def inode_ok_def)

lemma setattr_chain_eq: "\<not> HasSetAttrField fs fSize \<Longrightarrow> setattr_chain now i req fs = apply_setattr now i req fs"
proof -
  assume "\<not> HasSetAttrField fs fSize"
  moreover have "assign_if False f j = j" "touch_if now False fl j = j" for f fl j
    by (simp_all add: assign_if_def touch_if_def)
  ultimately show ?thesis
    by (simp only: setattr_chain_def apply_setattr_def Let_def simp_thms)
qed

lemma assign_if_parent [simp]: "i_parent_ino (assign_if c f i) = i_parent_ino i" "i_parent_ino (touch_if now c fl i) = i_parent_ino i"
  by (simp_all add: assign_if_def touch_if_def)

lemma PrepareSetAttr_step:
  assumes "good n" "request_ok req fs" "PrepareSetAttrMutation now n req fs = Inr n'"
  shows "attr_step n n'"
proof -
  have "CheckSetAttrPolicy (i_attr n) fs = Inr ()"
    using assms(3) by (auto simp: PrepareSetAttrMutation_def chk_Inr_iff)
  then have "inode_ok n' \<and> acl_inv n' \<and> i_attr n' = i_attr (apply_setattr now n req fs) \<and> i_ino n' = i_ino n"
    using PrepareSetAttr_ok [of n req fs now] assms by (auto simp: good_def)
  moreover have "i_parent_ino (apply_setattr now n req fs) = i_parent_ino n"
    by (simp add: apply_setattr_def Let_def)
  then have "i_parent_ino n' = i_parent_ino n"
    using assms(3) by (auto simp: PrepareSetAttrMutation_def SyncPosixAccessAclForMode_def Let_def chk_Inr_iff split: if_splits option.splits)
  ultimately show ?thesis
    using apply_setattr_type [of now n req fs] apply_setattr_fields(2) [of now n req fs] by (simp add: attr_step_def good_def)
qed

lemma SetXAttr_step:
  assumes "good n" "SetXAttr now n name v md = Inr n'"
  shows "attr_step n n'"
proof -
  have "good n'"
    using assms SetXAttr_ok [of n now name v md n'] SetXAttr_acl_inv [of n now name v md n'] by (simp add: good_def)
  moreover have "i_ino n' = i_ino n \<and> i_parent_ino n' = i_parent_ino n \<and> i_nlink n' = i_nlink n \<and> i_mode n' AND S_IFMT = i_mode n AND S_IFMT"
  proof (cases "IsPosixAclXAttrName name")
    case True
    then have "SetPosixAclXAttr now n name v md = Inr n'"
      using assms(2) by (simp add: SetXAttr_def)
    then show ?thesis
    proof (cases rule: SetPosixAclXAttr_cases)
      case (access acl)
      then show ?thesis
        using type_bits_perm [OF PermissionsMode_bound [OF Parse_InrD(1) [OF access(2)]], of "i_mode n"]
        by (simp add: put_access_acl_def set_mode_def)
    qed simp
  qed (use SetXAttr_plain(1) [OF assms(2)] in simp)
  ultimately show ?thesis
    by (simp add: attr_step_def)
qed

lemma RemoveXAttr_step:
  assumes "good n" "RemoveXAttr now n name = Inr n'"
  shows "attr_step n n'"
  using assms RemoveXAttr_ok [of n now name n'] RemoveXAttr_acl_inv [of n now name n']
  by (auto simp: attr_step_def good_def RemoveXAttr_def RemovePosixAclXAttr_def split: if_splits)

lemma grow_step: "good n \<Longrightarrow> attr_step n (Touch now f (grow_to off n))"
proof -
  assume n: "good n"
  then have "good (grow_to off n)"
    by (rule good_attr) (use n in \<open>simp_all add: grow_to_def good_def inode_ok_def attr_ok_def\<close>)
  then show ?thesis
    by (simp add: attr_step_def good_Touch grow_to_def)
qed

lemma flags_step: "\<lbrakk> good n; HasOnlySupportedInodeFlags fl \<rbrakk> \<Longrightarrow> attr_step n (Touch now f (n\<lparr>i_attr := (i_attr n)\<lparr>a_inode_flags := fl\<rparr>\<rparr>))"
proof -
  assume n: "good n" "HasOnlySupportedInodeFlags fl"
  from n(1) have "good (n\<lparr>i_attr := (i_attr n)\<lparr>a_inode_flags := fl\<rparr>\<rparr>)"
    by (rule good_attr) (use n in \<open>simp_all add: good_def inode_ok_def attr_ok_def\<close>)
  then show ?thesis
    by (simp add: attr_step_def good_Touch)
qed

context meta_store
begin

lemma fold_side [simp]: "fold vexec (map MSide cs) v = v"
  by (induction cs) simp_all

lemma step_consistent:
  assumes d: "consistent E d" and n: "inode_at E d i = Some n" "attr_step n n'" and cs: "list_all (side_cmd E) xs" "list_all (side_cmd E) ys"
    and q: "q = map (conc E) (map MSide xs @ [MInode n'] @ map MSide ys)"
  shows "consistent E (fst (exec_cmds q d)) \<and> tree_at E (fst (exec_cmds q d)) = tree_at E d"
proof -
  note D = consistentD [OF d]
  have ni: "i_ino n = i"
    using D(4) [OF n(1)] by simp
  have dir: "IsDir n' = IsDir n"
    using n(2) by (intro IsDir_same_type) (simp add: attr_step_def)
  have "recs_ok (vexec (MInode n') (vol_of E d))"
    by (rule recs_update [OF D(3), of i n])
      (use n ni dir recs_okD(5) [OF D(3), of i n] in \<open>auto simp: attr_step_def intro: same_type\<close>)
  moreover have T: "tree_of (vexec (MInode n') (vol_of E d)) = tree_at E d"
    using n ni dir by (intro tree_eqI) (auto simp: tree_at_def attr_step_def)
  moreover have "list_all (mcmd_ok E) (map MSide xs @ [MInode n'] @ map MSide ys)"
    using cs n(2) by (simp add: list.pred_map comp_def attr_step_def goodD)
  ultimately show ?thesis
    using consistentI [OF D(1) q] D(2) by simp
qed

lemma side_consistent:
  assumes d: "consistent E d" and cs: "list_all (side_cmd E) cs"
  shows "consistent E (fst (exec_cmds cs d)) \<and> tree_at E (fst (exec_cmds cs d)) = tree_at E d"
proof -
  have q: "cs = map (conc E) (map MSide cs)"
    by (simp add: comp_def)
  show ?thesis
    using consistentI [OF consistentD(1) [OF d] q] consistentD(2,3) [OF d] cs by (simp add: list.pred_map comp_def tree_at_def)
qed

section \<open>What the operations queue\<close>

definition quiet :: "keyspace \<Rightarrow> cmd list \<Rightarrow> bool" where
  "quiet d q \<longleftrightarrow> list_all (side_cmd E) q \<or> (\<exists>i n n' xs ys. inode_at E d i = Some n \<and> attr_step n n'
     \<and> list_all (side_cmd E) xs \<and> list_all (side_cmd E) ys \<and> q = map (conc E) (map MSide xs @ [MInode n'] @ map MSide ys))"

lemma quiet_consistent:
  "\<lbrakk> consistent E d; quiet d q \<rbrakk> \<Longrightarrow> consistent E (fst (exec_cmds q d)) \<and> tree_at E (fst (exec_cmds q d)) = tree_at E d"
  unfolding quiet_def using step_consistent side_consistent by blast

lemma quietI: "\<lbrakk> inode_at E d i = Some n; attr_step n n'; list_all (side_cmd E) xs; list_all (side_cmd E) ys;
    q = xs @ [conc E (MInode n')] @ ys \<rbrakk> \<Longrightarrow> quiet d q"
  unfolding quiet_def by (rule disjI2) (fastforce simp: comp_def)

lemma quiet_Nil [simp]: "quiet d []"
  by (simp add: quiet_def)

text \<open>Reading a file's chunk map queues nothing.\<close>

lemma scan_reads: "scan_mappings n k cursor acc (snap R d) t = (Ret (Inr ms), t') \<Longrightarrow> queue t' = queue t \<and> has_writes t' = has_writes t"
proof (induction n arbitrary: cursor acc t)
  case (Suc n)
  obtain page nc t1 where h: "HScan k cursor 128 (snap R d) t = (Ret (Inr (page, nc)), t1)"
    and r: "tcheck (parse_page page acc) (\<lambda>acc. if nc \<noteq> 0 then scan_mappings n k nc acc else treturn (Inr acc)) (snap R d) t1 = (Ret (Inr ms), t')"
    using Suc.prems by (auto simp: tbind_Inr)
  have "queue t1 = queue t \<and> has_writes t1 = has_writes t"
    using h by (auto simp: snap_HScan split: if_splits)
  then show ?case
    using r Suc.IH by (auto simp: tcheck_Inr treturn_eq split: if_splits)
qed (simp add: treturn_eq)

lemma LookupAttachment_reads: "LookupAttachment E i x (snap R d) t = (Ret (Inr c), t') \<Longrightarrow> queue t' = queue t \<and> has_writes t' = has_writes t"
  by (auto simp: LookupAttachment_def tcase_sum snap_HGet tcheck_Inr treturn_eq split: if_splits)

lemma check_boundary_reads: "check_boundary E i x (snap R d) t = (Ret (Inr u), t') \<Longrightarrow> queue t' = queue t \<and> has_writes t' = has_writes t"
  using LookupAttachment_reads by (fastforce simp: check_boundary_def tbind_Inr treturn_eq split: option.splits if_splits)

lemma ReadFileMappingSnapshot_reads:
  assumes "ReadFileMappingSnapshot E i (snap R d) t = (Ret (Inr fm), t')"
  shows "inode_at E d i = Some (fm_inode fm) \<and> IsRegular (fm_inode fm) \<and> queue t' = queue t \<and> has_writes t' = has_writes t"
  using assms scan_reads by (fastforce simp: ReadFileMappingSnapshot_def Let_def snap_simps meta_simps split: if_splits)

lemma side_writes: "side_cmd E (CHSet (K_PendingDeletes (me_key E)) f v)" "side_cmd E (CHDel (K_PendingDeletes (me_key E)) f)"
  "side_cmd E (CHSet (K_ChunkRefs (me_key E) i) f v)" "side_cmd E (CHDel (K_ChunkRefs (me_key E) i) f)" "side_cmd E (CDel (K_ChunkRefs (me_key E) i))"
  "side_cmd E (CHDel (K_Reclaims (me_key E)) f)" "side_cmd E (CHSet (K_Reclaims (me_key E)) f v)"
  by (simp_all add: side_cmd_def cmd_key_def)

lemma tseq_side:
  assumes "\<forall>m\<in>set ms. \<forall>t t'. m (snap R d) t = (Ret (Inr ()), t') \<longrightarrow> (\<exists>c. side_cmd E c \<and> queue t' = queue t @ [c])"
    and "tseq ms (snap R d) t = (Ret (Inr ()), t')"
  shows "\<exists>cs. list_all (side_cmd E) cs \<and> queue t' = queue t @ cs"
  using assms
proof (induction ms arbitrary: t)
  case (Cons m ms)
  obtain t1 where t1: "m (snap R d) t = (Ret (Inr ()), t1)" "tseq ms (snap R d) t1 = (Ret (Inr ()), t')"
    using Cons.prems(2) by (auto simp: tbind_Inr)
  obtain c where c: "side_cmd E c" "queue t1 = queue t @ [c]"
    using bspec [OF Cons.prems(1), of m] t1(1) by (simp, blast)
  obtain cs where "list_all (side_cmd E) cs" "queue t' = queue t1 @ cs"
    using Cons.IH [OF _ t1(2)] Cons.prems(1) by (simp, blast)
  then show ?case
    using c by (intro exI [of _ "c # cs"]) simp
qed (auto simp: treturn_eq intro: exI [of _ "[]"])

lemma queue_detached_side:
  assumes "queue_detached E i ms (snap R d) t = (Ret (Inr u), t')"
  shows "\<exists>cs. list_all (side_cmd E) cs \<and> queue t' = queue t @ cs"
proof (cases "ms = [] \<or> me_encoder E = None")
  case True
  then show ?thesis
    using assms by (auto simp: queue_detached_def treturn_eq split: if_splits intro: exI [of _ "[]"])
next
  case False
  then show ?thesis
    using assms by (auto simp: queue_detached_def QueuePendingDelete_def tcheck_Inr snap_writes side_writes elim!: tseq_side [rotated])
qed

lemma detach_mappings_side:
  "detach_mappings E i ms (snap R d) t = (Ret (Inr u), t') \<Longrightarrow> \<exists>cs. list_all (side_cmd E) cs \<and> queue t' = queue t @ cs"
  by (auto simp: detach_mappings_def snap_writes side_writes elim!: tseq_side [rotated])

lemma good_at: "\<lbrakk> consistent E d; inode_at E d i = Some n \<rbrakk> \<Longrightarrow> good n"
  using consistentD(4) by blast

text \<open>Inside its transaction, \<open>SetAttr\<close> is the shared transition of \<open>PrepareSetAttrMutation\<close>.\<close>

lemma SetAttr_run:
  assumes "mt_SetAttr E i req fs (snap R d) t = (Ret (Inr n'), t')"
  shows "\<not> HasSetAttrField fs fSize \<and> (\<exists>n now. inode_at E d i = Some n \<and> PrepareSetAttrMutation now n req fs = Inr n'
    \<and> queue t' = queue t @ [conc E (MInode n')])"
  using assms by (auto simp: mt_SetAttr_def PrepareSetAttrMutation_def Let_def tbind_Inr tcheck_Inr treturn_eq meta_simps setattr_chain_eq
      split: if_splits)

lemma SetAttr_quiet:
  assumes "consistent E d" "request_ok req fs" "mt_SetAttr E i req fs (snap R d) t = (Ret (Inr n'), t')" "queue t = []"
  shows "quiet d (queue t')"
proof -
  obtain n now where n: "inode_at E d i = Some n" "PrepareSetAttrMutation now n req fs = Inr n'" and q: "queue t' = [conc E (MInode n')]"
    using SetAttr_run [OF assms(3)] assms(4) by auto
  show ?thesis
    unfolding q by (rule quietI [where xs = "[]" and ys = "[]", OF n(1) PrepareSetAttr_step [OF good_at [OF assms(1) n(1)] assms(2) n(2)]]) simp_all
qed

lemma inode_ops_quiet:
  assumes d: "consistent E d" "queue t = []"
  shows "mt_SetInodeFlags E i fl (snap R d) t = (Ret (Inr n'), t') \<Longrightarrow> quiet d (queue t')"
    "mt_SetXAttr E i name v md (snap R d) t = (Ret (Inr u), t') \<Longrightarrow> quiet d (queue t')"
    "mt_RemoveXAttr E i name (snap R d) t = (Ret (Inr u), t') \<Longrightarrow> quiet d (queue t')"
    "mt_TouchInode E i f (snap R d) t = (Ret (Inr u), t') \<Longrightarrow> quiet d (queue t')"
proof -
  have q: "quiet d [conc E (MInode n')]" if "inode_at E d i = Some n" "attr_step n n'" for n n'
    by (rule quietI [where xs = "[]" and ys = "[]", OF that]) simp_all
  note g = good_at [OF d(1), of i]
  show "quiet d (queue t')" if "mt_SetInodeFlags E i fl (snap R d) t = (Ret (Inr n'), t')"
    using that d(2) g flags_step
    by (auto simp: mt_SetInodeFlags_def Let_def tbind_Inr treturn_eq meta_simps simp del: conc.simps split: if_splits intro!: q)
  show "quiet d (queue t')" if "mt_SetXAttr E i name v md (snap R d) t = (Ret (Inr u), t')"
    using that d(2) g SetXAttr_step by (auto simp: mt_SetXAttr_def tbind_Inr tcheck_Inr meta_simps simp del: conc.simps intro!: q)
  show "quiet d (queue t')" if "mt_RemoveXAttr E i name (snap R d) t = (Ret (Inr u), t')"
    using that d(2) g RemoveXAttr_step by (auto simp: mt_RemoveXAttr_def tbind_Inr tcheck_Inr meta_simps simp del: conc.simps intro!: q)
  show "quiet d (queue t')" if "mt_TouchInode E i f (snap R d) t = (Ret (Inr u), t')"
    using that d(2) g attr_step_Touch by (auto simp: mt_TouchInode_def tbind_Inr meta_simps simp del: conc.simps intro!: q)
qed

lemma AttachPrepared_run:
  assumes "mt_AttachPrepared E i x c off expected (snap R d) t = (Ret (Inr u), t')"
  shows "\<exists>n now. inode_at E d i = Some n \<and> IsRegular n \<and> a_size (i_attr n) = fp_eof expected
    \<and> queue t' = queue t @ [conc E (MInode (Touch now (fMtime OR fCtime) (grow_to off n))), CHSet (K_ChunkRefs (me_key E) i) (number x) (number c)]"
proof -
  obtain n t1 t2 t3 t4 where "LookupInode E i (snap R d) t = (Ret (Inr n), t1)" "IsRegular n" "LookupAttachment E i x (snap R d) t1 = (Ret (Inr None), t2)"
    "a_size (i_attr n) = fp_eof expected" "check_boundary E i expected (snap R d) t2 = (Ret (Inr ()), t3)"
    "SetInode E (Touch (me_now E (clock t3)) (fMtime OR fCtime) (grow_to off n)) (snap R d) t3 = (Ret (Inr ()), t4)"
    "HSet (K_ChunkRefs (me_key E) i) (number x) (number c) (snap R d) t4 = (Ret (Inr ()), t')"
    using assms by (auto simp: mt_AttachPrepared_def tbind_Inr tcheck_Inr treturn_eq tnow_eq split: if_splits)
  then show ?thesis
    using LookupAttachment_reads [of i x d t1 None t2] check_boundary_reads [of i expected d t2 "()" t3]
    by (auto simp: meta_simps snap_writes simp del: conc.simps)
qed

lemma FinalizeAttachedWrite_run:
  assumes "mt_FinalizeAttachedWrite E i x c off expected (snap R d) t = (Ret (Inr u), t')"
  shows "\<exists>n now. inode_at E d i = Some n \<and> IsRegular n \<and> a_size (i_attr n) = fp_eof expected
    \<and> queue t' = queue t @ [conc E (MInode (Touch now (fMtime OR fCtime) (grow_to off n)))]"
proof -
  obtain n t1 t2 t3 where "LookupInode E i (snap R d) t = (Ret (Inr n), t1)" "IsRegular n" "LookupAttachment E i x (snap R d) t1 = (Ret (Inr (Some c)), t2)"
    "a_size (i_attr n) = fp_eof expected" "check_boundary E i expected (snap R d) t2 = (Ret (Inr ()), t3)"
    "SetInode E (Touch (me_now E (clock t3)) (fMtime OR fCtime) (grow_to off n)) (snap R d) t3 = (Ret (Inr ()), t')"
    using assms by (auto simp: mt_FinalizeAttachedWrite_def tbind_Inr tcheck_Inr treturn_eq tnow_eq split: if_splits)
  then show ?thesis
    using LookupAttachment_reads [of i x d t1 "Some c" t2] check_boundary_reads [of i expected d t2 "()" t3]
    by (auto simp: meta_simps simp del: conc.simps)
qed

lemma file_ops_quiet:
  assumes d: "consistent E d" "queue t = []"
  shows "mt_AttachPrepared E i x c off expected (snap R d) t = (Ret (Inr u), t') \<Longrightarrow> quiet d (queue t')"
    "mt_FinalizeAttachedWrite E i x c off expected (snap R d) t = (Ret (Inr u), t') \<Longrightarrow> quiet d (queue t')"
proof -
  show "quiet d (queue t')" if run: "mt_AttachPrepared E i x c off expected (snap R d) t = (Ret (Inr u), t')"
  proof -
    obtain n now where n: "inode_at E d i = Some n"
      and q: "queue t' = [conc E (MInode (Touch now (fMtime OR fCtime) (grow_to off n))), CHSet (K_ChunkRefs (me_key E) i) (number x) (number c)]"
      using AttachPrepared_run [OF run] d(2) by auto
    show ?thesis
      by (rule quietI [OF n grow_step [OF good_at [OF d(1) n]], where xs = "[]" and ys = "[_]"]) (simp_all add: q side_writes)
  qed
  show "quiet d (queue t')" if run: "mt_FinalizeAttachedWrite E i x c off expected (snap R d) t = (Ret (Inr u), t')"
  proof -
    obtain n now where n: "inode_at E d i = Some n" and q: "queue t' = [conc E (MInode (Touch now (fMtime OR fCtime) (grow_to off n)))]"
      using FinalizeAttachedWrite_run [OF run] d(2) by auto
    show ?thesis
      by (rule quietI [OF n grow_step [OF good_at [OF d(1) n]], where xs = "[]" and ys = "[]"]) (simp_all add: q)
  qed
qed

lemma CommitSizeChange_run:
  assumes "CommitSizeChange E i plan req fs shrink (snap R d) t = (Ret (Inr r), t')"
  shows "\<exists>n now xs ys. inode_at E d i = Some n \<and> PrepareSetAttrMutation now n req fs = Inr (cr_inode r)
    \<and> list_all (side_cmd E) xs \<and> list_all (side_cmd E) ys \<and> queue t' = queue t @ xs @ [conc E (MInode (cr_inode r))] @ ys"
proof -
  obtain fm t1 now n' det t2 t3 where run: "ReadFileMappingSnapshot E i (snap R d) t = (Ret (Inr fm), t1)"
      "PrepareSetAttrMutation now (fm_inode fm) req fs = Inr n'" "queue_detached E i det (snap R d) t1 = (Ret (Inr ()), t2)"
      "(if shrink then tbind (SetInode E n') (\<lambda>_. detach_mappings E i det) else tbind (detach_mappings E i det) (\<lambda>_. SetInode E n')) (snap R d) t2 = (Ret (Inr ()), t3)"
      "t' = t3" "cr_inode r = n'"
    using assms by (auto simp: CommitSizeChange_def Let_def tbind_Inr tcheck_Inr treturn_eq tnow_eq split: if_splits)
  obtain xs where xs: "list_all (side_cmd E) xs" "queue t2 = queue t1 @ xs"
    using queue_detached_side [OF run(3)] by blast
  have "\<exists>ys zs. list_all (side_cmd E) ys \<and> list_all (side_cmd E) zs \<and> queue t3 = queue t2 @ ys @ [conc E (MInode n')] @ zs"
  proof (cases shrink)
    case True
    then obtain t4 where "t4 = after_write (conc E (MInode n')) t2" "detach_mappings E i det (snap R d) t4 = (Ret (Inr ()), t3)"
      using run(4) by (auto simp: tbind_Inr meta_simps simp del: conc.simps)
    then show ?thesis
      using detach_mappings_side [of i det d t4 "()" t3] by - (rule exI [of _ "[]"], auto simp del: conc.simps)
  next
    case False
    then obtain t4 where "detach_mappings E i det (snap R d) t2 = (Ret (Inr ()), t4)" "t3 = after_write (conc E (MInode n')) t4"
      using run(4) by (auto simp: tbind_Inr meta_simps simp del: conc.simps)
    then show ?thesis
      using detach_mappings_side [of i det d t2 "()" t4] by (auto simp del: conc.simps intro: exI [of _ "[]"])
  qed
  then obtain ys zs where "list_all (side_cmd E) ys" "list_all (side_cmd E) zs" "queue t3 = queue t2 @ ys @ [conc E (MInode n')] @ zs"
    by blast
  then show ?thesis
    using ReadFileMappingSnapshot_reads [OF run(1)] run(2,5,6) xs
    by (intro exI [of _ "fm_inode fm"] exI [of _ now] exI [of _ "xs @ ys"] exI [of _ zs]) simp
qed

lemma CommitSizeChange_quiet:
  assumes d: "consistent E d" "queue t = []" "request_ok req fs" and run: "CommitSizeChange E i plan req fs shrink (snap R d) t = (Ret (Inr r), t')"
  shows "quiet d (queue t')"
proof -
  obtain n now xs ys where n: "inode_at E d i = Some n" "PrepareSetAttrMutation now n req fs = Inr (cr_inode r)"
    and q: "list_all (side_cmd E) xs" "list_all (side_cmd E) ys" "queue t' = xs @ [conc E (MInode (cr_inode r))] @ ys"
    using CommitSizeChange_run [OF run] d(2) by auto
  show ?thesis
    by (rule quietI [OF n(1) PrepareSetAttr_step [OF good_at [OF d(1) n(1)] d(3) n(2)] q])
qed

lemma side_ops_quiet:
  assumes "queue t = []"
  shows "mt_CompleteReclaim E i (snap R d) t = (Ret (Inr u), t') \<Longrightarrow> quiet d (queue t')"
    "mt_CompletePendingDelete E k (snap R d) t = (Ret (Inr u), t') \<Longrightarrow> quiet d (queue t')"
    "mt_RegisterPendingDeletes E work (snap R d) t = (Ret (Inr u), t') \<Longrightarrow> quiet d (queue t')"
proof -
  show "mt_CompleteReclaim E i (snap R d) t = (Ret (Inr u), t') \<Longrightarrow> quiet d (queue t')"
    "mt_CompletePendingDelete E k (snap R d) t = (Ret (Inr u), t') \<Longrightarrow> quiet d (queue t')"
    using assms by (auto simp: mt_CompleteReclaim_def mt_CompletePendingDelete_def snap_writes quiet_def side_writes)
  assume run: "mt_RegisterPendingDeletes E work (snap R d) t = (Ret (Inr u), t')"
  have "\<exists>cs. list_all (side_cmd E) cs \<and> queue t' = queue t @ cs"
    by (rule tseq_side [OF _ run [unfolded mt_RegisterPendingDeletes_def, simplified]])
      (auto simp: QueuePendingDelete_def tcheck_Inr snap_writes side_writes)
  then show "quiet d (queue t')"
    using assms by (auto simp: quiet_def)
qed

section \<open>Reclaim\<close>

text \<open>The outcome of \<open>PrepareReclaim\<close>: without work nothing but an orphan marker and a reclaim record goes away; with work an
  unlinked inode and its chunk map go away and the work is recorded.\<close>

lemma reclaim_inode_run:
  assumes "reclaim_inode E i ms (snap R d) t = (Ret (Inr w), t')"
  shows "\<exists>enc work v. me_encoder E = Some enc \<and> EncodeDetachedReclaim enc i ms = Inr work \<and> w = Some work
    \<and> reclaim_SerializeTo (me_io E) work = Inr v
    \<and> queue t' = queue t @ map (conc E) [MDelInode i, MSide (CDel (K_ChunkRefs (me_key E) i)), MUnorphan i, MSide (CHSet (K_Reclaims (me_key E)) (number i) v)]"
  using assms
  by (cases "me_encoder E") (auto simp: reclaim_inode_def tbind_Inr tcheck_Inr treturn_eq snap_writes run_simps)

lemma PrepareReclaim_run:
  fixes t :: "'v kv_txn"
  assumes "mt_PrepareReclaim E i (snap R d) t = (Ret (Inr w), t')"
  shows "case w of
      None \<Rightarrow> (\<exists>ys. (case inode_at E d i of None \<Rightarrow> d (K_Inode (me_key E) i) = None | Some n \<Rightarrow> IsDir n \<or> i_nlink n \<noteq> 0)
        \<and> queue t' = queue t @ map (conc E) (MUnorphan i # map MSide ys) \<and> list_all (side_cmd E) ys
        \<and> set ys \<subseteq> {CHDel (K_Reclaims (me_key E)) (number i)})
    | Some work \<Rightarrow> (\<exists>n ms v. inode_at E d i = Some n \<and> \<not> IsDir n \<and> i_nlink n = 0
        \<and> (IsRegular n \<longrightarrow> (\<exists>fm. \<exists>t1 t2 :: 'v kv_txn. ReadFileMappingSnapshot E i (snap R d) t1 = (Ret (Inr fm), t2) \<and> ms = fm_mappings fm))
        \<and> (\<not> IsRegular n \<longrightarrow> ms = [])
        \<and> (\<exists>enc. me_encoder E = Some enc \<and> EncodeDetachedReclaim enc i ms = Inr work) \<and> reclaim_SerializeTo (me_io E) work = Inr v
        \<and> queue t' = queue t @ map (conc E) [MDelInode i, MSide (CDel (K_ChunkRefs (me_key E) i)), MUnorphan i,
             MSide (CHSet (K_Reclaims (me_key E)) (number i) v)])"
proof -
  from assms consider (none) t1 where "LookupInode E i (snap R d) t = (Ret (Inl kNotFound), t1)"
        "tbind (ClearOrphanMarker E i) (\<lambda>_. treturn (Inr None)) (snap R d) t1 = (Ret (Inr w), t')"
    | (some) n t1 where "LookupInode E i (snap R d) t = (Ret (Inr n), t1)"
        "(if IsDir n \<or> i_nlink n \<noteq> 0 then tbind (ClearOrphanMarker E i) (\<lambda>_. tbind (mt_CompleteReclaim E i) (\<lambda>_. treturn (Inr None)))
          else if IsRegular n then tbind (ReadFileMappingSnapshot E i) (\<lambda>typed. reclaim_inode E i (fm_mappings typed))
          else reclaim_inode E i []) (snap R d) t1 = (Ret (Inr w), t')"
    unfolding mt_PrepareReclaim_def tcase_sum by (force simp: treturn_eq split: if_splits)
  then show ?thesis
  proof cases
    case none
    then show ?thesis
      by (auto simp: tbind_Inr treturn_eq meta_simps run_simps inode_at_def str_at_None intro!: exI [of _ "[]"])
  next
    case some
    then have n: "inode_at E d i = Some n" "queue t1 = queue t"
      by (auto simp: meta_simps)
    consider "IsDir n \<or> i_nlink n \<noteq> 0" | "\<not> (IsDir n \<or> i_nlink n \<noteq> 0)" "IsRegular n" | "\<not> (IsDir n \<or> i_nlink n \<noteq> 0)" "\<not> IsRegular n"
      by blast
    then show ?thesis
    proof cases
      case 1
      then show ?thesis
        using some(2) n by (auto simp: tbind_Inr treturn_eq run_simps mt_CompleteReclaim_def snap_writes side_writes
            intro!: exI [of _ "[CHDel (K_Reclaims (me_key E)) (number i)]"])
    next
      case 2
      then obtain fm t2 where fm: "ReadFileMappingSnapshot E i (snap R d) t1 = (Ret (Inr fm), t2)" "reclaim_inode E i (fm_mappings fm) (snap R d) t2 = (Ret (Inr w), t')"
        using some(2) by (auto simp: tbind_Inr)
      then show ?thesis
        using reclaim_inode_run [OF fm(2)] ReadFileMappingSnapshot_reads [OF fm(1)] n 2
        by (auto intro!: exI [of _ n] exI [of _ "fm_mappings fm"] exI [of _ fm]) (use fm(1) in blast)+
    next
      case 3
      then have "reclaim_inode E i [] (snap R d) t1 = (Ret (Inr w), t')"
        using some(2) by simp
      from reclaim_inode_run [OF this] show ?thesis
        using n 3 by (auto intro!: exI [of _ n])
    qed
  qed
qed

lemma PrepareReclaim_consistent:
  assumes d: "consistent E d" "queue t = []" and run: "mt_PrepareReclaim E i (snap R d) t = (Ret (Inr w), t')"
  defines "d' \<equiv> fst (exec_cmds (queue t') d)"
  shows "consistent E d' \<and> (case w of None \<Rightarrow> tree_at E d' = tree_at E d
    | Some work \<Rightarrow> tree_at E d' = t_reclaim i (tree_at E d) \<and> kind (tree_at E d) i = Some False \<and> links (tree_at E d) i = {})"
proof -
  note D = consistentD [OF d(1)]
  show ?thesis
  proof (cases w)
    case None
    then obtain ys where n: "case inode_at E d i of None \<Rightarrow> d (K_Inode (me_key E) i) = None | Some n \<Rightarrow> IsDir n \<or> i_nlink n \<noteq> 0"
      and q: "queue t' = map (conc E) (MUnorphan i # map MSide ys)" "list_all (side_cmd E) ys"
      using PrepareReclaim_run [OF run] d(2) by auto
    have "recs_ok (vexec (MUnorphan i) (vol_of E d))"
      using n by (intro recs_unorphan [OF D(3)]) (auto split: option.splits)
    then show ?thesis
      using consistentI [OF D(1) q(1)] q(2) D(2) None by (simp add: list.pred_map comp_def tree_at_def d'_def)
  next
    case (Some work)
    then obtain n v where n: "inode_at E d i = Some n" "\<not> IsDir n" "i_nlink n = 0"
      and q: "queue t' = map (conc E) [MDelInode i, MSide (CDel (K_ChunkRefs (me_key E) i)), MUnorphan i, MSide (CHSet (K_Reclaims (me_key E)) (number i) v)]"
        (is "_ = map (conc E) ?ms")
      using PrepareReclaim_run [OF run] d(2) by auto
    have "recs_ok (vexec (MUnorphan i) (vexec (MDelInode i) (vol_of E d)))"
      by (intro recs_unorphan recs_drop D(3)) simp
    moreover have T: "tree_of (fold vexec ?ms (vol_of E d)) = t_reclaim i (tree_at E d)"
      by (intro tree_eqI) (simp_all add: t_reclaim_def tree_at_def)
    moreover have k: "kind (tree_at E d) i = Some False" "cnt (tree_at E d) i = 0"
      using n by (simp_all add: tree_at_def)
    moreover have "links (tree_at E d) i = {}"
      using tree_okD(7) [OF D(2) k(1)] k(2) finite_links [OF D(2), of i] by simp
    ultimately show ?thesis
      using consistentI [OF D(1) q] t_reclaim_ok [OF D(2)] Some by (simp add: side_writes d'_def)
  qed
qed

end

end
