(* ===== verification/RedisMetaOps.thy ===== *)
theory RedisMetaOps
  imports RedisMetaTxn Namespace
begin

text \<open>
  The metadata operations of a volume (\<open>metadata/redis/RedisMetaOps.cpp\<close>) and the reconciliation of an uncertain
  reclaim (\<open>metadata/redis/RedisReclaimCoordinator.cpp\<close>). An operation runs one transaction or one command on the
  client and returns the outputs of the source as its value; the fields of the object that change (the opened chunk
  mechanism, the encoder, the chunk size, the two resumable scans) are the record \<open>meta_ops\<close>. The blocking executor
  only moves a call to another thread. Visitors are functions on the client and a state of their own, and are not null;
  neither are outputs. \<open>me_fuel\<close> bounds the pages of a hash scan, whose cursors come from the server.
\<close>

record meta_ops =
  op_env :: meta_env
  op_attempts :: nat
  op_reclaim_attempts :: nat
  op_snapshot_attempts :: nat
  op_chunk_metadata :: "u32 option"
  orphan_scan_cursor :: u64
  orphan_scan_page :: "u64 list"
  orphan_scan_page_offset :: nat
  pending_delete_cursor :: u64
  pending_delete_page :: "PendingDelete list"
  pending_delete_page_offset :: nat

definition new_meta_ops :: "meta_env \<Rightarrow> RedisMetaConfig \<Rightarrow> meta_ops" where
  "new_meta_ops E config =
    \<lparr>op_env = E\<lparr>me_chunk_size := 0, me_encoder := None\<rparr>,
     op_attempts = nat (retry_attempts config),
     op_reclaim_attempts = nat (max 1 (retry_attempts config)),
     op_snapshot_attempts = nat (max 1 (retry_attempts config)),
     op_chunk_metadata = None,
     orphan_scan_cursor = 0, orphan_scan_page = [], orphan_scan_page_offset = 0,
     pending_delete_cursor = 0, pending_delete_page = [], pending_delete_page_offset = 0\<rparr>"

section \<open>Persisted identifiers\<close>

definition ParseInodeField :: "bytes \<Rightarrow> u64 res" where
  "ParseInodeField field = (case from_chars (2 ^ 64 - 1) field of
      None \<Rightarrow> Inl kMalformed
    | Some (parsed, suffix) \<Rightarrow> if suffix \<noteq> [] \<or> parsed = 0 then Inl kMalformed else Inr (of_nat parsed))"

definition DecodeAttachedChunkID :: "bytes option \<Rightarrow> u64 option res" where
  "DecodeAttachedChunkID encoded = (case encoded of
      None \<Rightarrow> Inr None
    | Some e \<Rightarrow> (case from_chars (2 ^ 64 - 1) e of
        None \<Rightarrow> Inl kMalformed
      | Some (v, suffix) \<Rightarrow> if suffix \<noteq> [] \<or> v = 0 \<or> (of_nat v :: u64) > kMaxChunkIDValue then Inl kMalformed
          else Inr (Some (of_nat v))))"

section \<open>Lifecycle\<close>

definition OpenChunkMetadata :: "u32 \<Rightarrow> meta_ops \<Rightarrow> u32 res \<times> meta_ops" where
  "OpenChunkMetadata chunk_type P =
    (if chunk_type \<noteq> kCow \<and> chunk_type \<noteq> kChunkSlice then (Inl kNotSupported, P)
     else case op_chunk_metadata P of
        Some opened \<Rightarrow> (if opened \<noteq> chunk_type then Inl kInvalidArgument else Inr opened, P)
      | None \<Rightarrow>
          if chunk_type = kChunkSlice \<and> (me_chunk_size (op_env P) = 0 \<or> me_chunk_size (op_env P) > 2 ^ 32 - 1)
          then (Inl kInvalidArgument, P)
          else (Inr chunk_type, P\<lparr>op_chunk_metadata := Some chunk_type\<rparr>))"

definition BindChunkCleanupWorkEncoder :: "encoder option \<Rightarrow> meta_ops \<Rightarrow> unit res \<times> meta_ops" where
  "BindChunkCleanupWorkEncoder encoder P = (case encoder of
      None \<Rightarrow> (Inl kInvalidArgument, P)
    | Some _ \<Rightarrow> (Inr (), P\<lparr>op_env := (op_env P)\<lparr>me_encoder := encoder\<rparr>\<rparr>))"

definition ops_Initialize :: "unit cop" where
  "ops_Initialize = Ping"

definition root_inode :: "i64 \<Rightarrow> SwordFsInode" where
  "root_inode now = \<lparr>i_ino = kRootInodeId, i_attr = new_attr now kRootInodeId (S_IFDIR OR 0x1ED) 0 0,
     i_parent_ino = kRootInodeId, i_symlink_target = [], i_xattrs = []\<rparr>"

definition initial_keys :: "RedisKey \<Rightarrow> bytes \<Rightarrow> bytes \<Rightarrow> (bytes \<times> bytes) list" where
  "initial_keys K config root_value =
    [(K_Format K, config), (K_Inode K kRootInodeId, root_value), (K_NextIno K, to_string (unat kRootInodeId)),
     (K_InodeCount K, ascii ''1''), (K_OwnerGeneration K, ascii ''0''), (K_NextChunkID K, ascii ''0''),
     (K_NextSliceID K, ascii ''0'')]"

definition format_txn :: "meta_env \<Rightarrow> bytes \<Rightarrow> bytes \<Rightarrow> ('v, unit) tx" where
  "format_txn E config root_value =
    tcase (Get (K_Format (me_key E))) (\<lambda>status.
      case status of
        Inr _ \<Rightarrow> treturn (Inl kAlreadyExists)
      | Inl e \<Rightarrow> if e \<noteq> kNotFound then treturn (Inl e)
          else tseq (map (\<lambda>(k, v). Set k v) (initial_keys (me_key E) config root_value)))"

definition RunTransact :: "nat \<Rightarrow> (unit, 'a) tx \<Rightarrow> 'a cop" where
  "RunTransact attempts callback R c = (case Transact attempts callback R c () of (r, c', _) \<Rightarrow> (r, c'))"

text \<open>The root is stamped before the transaction, when \<open>sent c\<close> commands have been sent.\<close>

definition ops_FormatVolume :: "SwordFsVolume \<Rightarrow> meta_ops \<Rightarrow> redis \<Rightarrow> client \<Rightarrow> unit res \<times> meta_ops \<times> client" where
  "ops_FormatVolume config P R c = (let E = op_env P in
     case inode_SerializeTo (me_io E) (root_inode (me_now E (sent c))) of
       Inl e \<Rightarrow> (Inl e, P, c)
     | Inr root_value \<Rightarrow>
         (case RunTransact (op_attempts P) (format_txn E (volume_SerializeTo (me_io E) config) root_value) R c of
            (Inl e, c') \<Rightarrow> (Inl e, P, c')
          | (Inr _, c') \<Rightarrow> (Inr (), P\<lparr>op_env := E\<lparr>me_chunk_size := v_chunk_size config\<rparr>\<rparr>, c')))"

definition ops_LoadVolume :: "bytes \<Rightarrow> meta_ops \<Rightarrow> redis \<Rightarrow> client \<Rightarrow> SwordFsVolume res \<times> meta_ops \<times> client" where
  "ops_LoadVolume name P R c = (let E = op_env P in
     case client_Get (K_Format (me_key E)) R c of
       (Inl e, c') \<Rightarrow> (Inl e, P, c')
     | (Inr value, c') \<Rightarrow> (case volume_ParseFrom (me_io E) value of
           Inl e \<Rightarrow> (Inl e, P, c')
         | Inr loaded \<Rightarrow>
             if v_name loaded \<noteq> name then (Inl kMalformed, P, c')
             else (Inr loaded, P\<lparr>op_env := E\<lparr>me_chunk_size := v_chunk_size loaded\<rparr>\<rparr>, c')))"

section \<open>Standalone operations\<close>

definition TransactFromFiber :: "meta_ops \<Rightarrow> (unit, 'a) tx \<Rightarrow> 'a cop" where
  "TransactFromFiber P callback = RunTransact (op_attempts P) callback"

definition ops_GetInode :: "meta_ops \<Rightarrow> u64 \<Rightarrow> SwordFsInode cop" where
  "ops_GetInode P ino R c = (case client_Get (K_Inode (me_key (op_env P)) ino) R c of
      (Inl e, c') \<Rightarrow> (Inl e, c')
    | (Inr value, c') \<Rightarrow> (inode_ParseFrom (me_io (op_env P)) value, c'))"

fun decode_batch :: "folly_io \<Rightarrow> u64 list \<Rightarrow> bytes option list \<Rightarrow> SwordFsInode option list res" where
  "decode_batch F (i # is) (v # vs) = (case v of
      None \<Rightarrow> chk (decode_batch F is vs) (\<lambda>r. Inr (None # r))
    | Some value \<Rightarrow> chk (inode_ParseFrom F value) (\<lambda>inode.
        if i_ino inode \<noteq> i then Inl kMalformed
        else chk (decode_batch F is vs) (\<lambda>r. Inr (Some inode # r))))"
| "decode_batch F _ _ = Inr []"

definition ops_GetInodes :: "meta_ops \<Rightarrow> u64 list \<Rightarrow> SwordFsInode option list cop" where
  "ops_GetInodes P inode_ids R c =
    (if inode_ids = [] then (Inr [], c)
     else case MGet (map (K_Inode (me_key (op_env P))) inode_ids) R c of
        (Inl e, c') \<Rightarrow> (Inl e, c')
      | (Inr values, c') \<Rightarrow> (decode_batch (me_io (op_env P)) inode_ids values, c'))"

definition ops_LookupEntry :: "meta_ops \<Rightarrow> u64 \<Rightarrow> bytes \<Rightarrow> SwordFsInode cop" where
  "ops_LookupEntry P parent_ino name = TransactFromFiber P (LookupEntry (op_env P) parent_ino name)"

definition ops_SetAttr :: "meta_ops \<Rightarrow> u64 \<Rightarrow> SwordFsAttr \<Rightarrow> u32 \<Rightarrow> SwordFsInode cop" where
  "ops_SetAttr P ino requested fs R c =
    (if HasSetAttrField fs fSize then (Inl kInvalidArgument, c)
     else TransactFromFiber P (mt_SetAttr (op_env P) ino requested fs) R c)"

definition ops_SetInodeFlags :: "meta_ops \<Rightarrow> u64 \<Rightarrow> u32 \<Rightarrow> SwordFsInode cop" where
  "ops_SetInodeFlags P ino inode_flags = TransactFromFiber P (mt_SetInodeFlags (op_env P) ino inode_flags)"

definition ops_SetXAttr :: "meta_ops \<Rightarrow> u64 \<Rightarrow> bytes \<Rightarrow> bytes \<Rightarrow> XAttrSetMode \<Rightarrow> unit cop" where
  "ops_SetXAttr P ino name v mode = TransactFromFiber P (mt_SetXAttr (op_env P) ino name v mode)"

definition ops_GetXAttr :: "meta_ops \<Rightarrow> u64 \<Rightarrow> bytes \<Rightarrow> bytes cop" where
  "ops_GetXAttr P ino name R c = (case ops_GetInode P ino R c of
      (Inl e, c') \<Rightarrow> (Inl e, c') | (Inr inode, c') \<Rightarrow> (GetXAttr inode name, c'))"

definition ops_ListXAttrs :: "meta_ops \<Rightarrow> u64 \<Rightarrow> bytes list cop" where
  "ops_ListXAttrs P ino R c = (case ops_GetInode P ino R c of
      (Inl e, c') \<Rightarrow> (Inl e, c') | (Inr inode, c') \<Rightarrow> (ListXAttrs inode, c'))"

definition ops_RemoveXAttr :: "meta_ops \<Rightarrow> u64 \<Rightarrow> bytes \<Rightarrow> unit cop" where
  "ops_RemoveXAttr P ino name = TransactFromFiber P (mt_RemoveXAttr (op_env P) ino name)"

definition ops_TouchInode :: "meta_ops \<Rightarrow> u64 \<Rightarrow> u32 \<Rightarrow> unit cop" where
  "ops_TouchInode P ino fs = TransactFromFiber P (mt_TouchInode (op_env P) ino fs)"

definition AllocateInode :: "meta_ops \<Rightarrow> u64 cop" where
  "AllocateInode P = client_Incr (K_NextIno (me_key (op_env P)))"

section \<open>Reclaim\<close>

definition PrepareReclaimAttempt :: "meta_ops \<Rightarrow> u64 \<Rightarrow> unit cop" where
  "PrepareReclaimAttempt P ino R c = (case TransactFromFiber P (mt_PrepareReclaim (op_env P) ino) R c of
      (Inl e, c') \<Rightarrow> (Inl e, c') | (Inr _, c') \<Rightarrow> (Inr (), c'))"

text \<open>The loop: only an uncertain attempt is followed by a look at the inode and perhaps another attempt.\<close>

fun reconcile :: "nat \<Rightarrow> unit cop \<Rightarrow> SwordFsInode cop \<Rightarrow> unit res \<Rightarrow> unit cop" where
  "reconcile 0 attempt_reclaim lookup_inode ambiguous R c = (ambiguous, c)"
| "reconcile (Suc n) attempt_reclaim lookup_inode ambiguous R c = (case attempt_reclaim R c of (status, c') \<Rightarrow>
     if status \<noteq> Inl kOutcomeUnknown then (status, c')
     else (case lookup_inode R c' of
         (Inl e, c'') \<Rightarrow> if e = kNotFound then (Inr (), c'') else (Inl e, c'')
       | (Inr inode, c'') \<Rightarrow> if i_nlink inode \<noteq> 0 then (Inr (), c'')
           else reconcile n attempt_reclaim lookup_inode status R c''))"

definition RunReclaimWithOutcomeReconciliation :: "nat \<Rightarrow> unit cop \<Rightarrow> SwordFsInode cop \<Rightarrow> unit cop" where
  "RunReclaimWithOutcomeReconciliation max_attempts attempt_reclaim lookup_inode R c =
    (if max_attempts = 0 then (Inl kInvalidArgument, c)
     else reconcile max_attempts attempt_reclaim lookup_inode (Inr ()) R c)"

definition ops_PrepareReclaim :: "meta_ops \<Rightarrow> u64 \<Rightarrow> unit cop" where
  "ops_PrepareReclaim P ino =
    RunReclaimWithOutcomeReconciliation (op_reclaim_attempts P) (PrepareReclaimAttempt P ino) (ops_GetInode P ino)"

definition ops_CompleteReclaim :: "meta_ops \<Rightarrow> u64 \<Rightarrow> unit cop" where
  "ops_CompleteReclaim P ino = TransactFromFiber P (mt_CompleteReclaim (op_env P) ino)"

definition ops_RegisterPendingDelete :: "meta_ops \<Rightarrow> PendingDelete \<Rightarrow> unit cop" where
  "ops_RegisterPendingDelete P work = TransactFromFiber P (mt_RegisterPendingDeletes (op_env P) [work])"

definition ops_CompletePendingDelete :: "meta_ops \<Rightarrow> bytes \<Rightarrow> unit cop" where
  "ops_CompletePendingDelete P object_key = TransactFromFiber P (mt_CompletePendingDelete (op_env P) object_key)"

section \<open>Scans of the work queues\<close>

type_synonym ('s, 'x) visitor = "'x \<Rightarrow> redis \<Rightarrow> client \<Rightarrow> 's \<Rightarrow> unit res \<times> client \<times> 's"

text \<open>The loops over a page: the offset advances past an item once the visitor has accepted it.\<close>

fun visit_each :: "('s, 'x) visitor \<Rightarrow> 'x list \<Rightarrow> nat \<Rightarrow> redis \<Rightarrow> client \<Rightarrow> 's \<Rightarrow> unit res \<times> nat \<times> client \<times> 's" where
  "visit_each visitor [] off R c s = (Inr (), off, c, s)"
| "visit_each visitor (x # xs) off R c s = (case visitor x R c s of
      (Inl e, c', s') \<Rightarrow> (Inl e, off, c', s')
    | (Inr _, c', s') \<Rightarrow> visit_each visitor xs (Suc off) R c' s')"

fun parse_inode_fields :: "(bytes \<times> bytes) list \<Rightarrow> u64 list res" where
  "parse_inode_fields [] = Inr []"
| "parse_inode_fields ((field, _) # values) =
    chk (ParseInodeField field) (\<lambda>ino. chk (parse_inode_fields values) (\<lambda>page. Inr (ino # page)))"

text \<open>The value is whether the pass is over.\<close>

definition load_orphan_page :: "meta_ops \<Rightarrow> redis \<Rightarrow> client \<Rightarrow> bool res \<times> meta_ops \<times> client" where
  "load_orphan_page P R c =
    (if orphan_scan_page_offset P < length (orphan_scan_page P) then (Inr False, P, c)
     else let P = P\<lparr>orphan_scan_page := [], orphan_scan_page_offset := 0\<rparr> in
       case client_HScan (K_Orphans (me_key (op_env P))) (orphan_scan_cursor P) 128 R c of
         (Inl e, c') \<Rightarrow> (Inl e, P, c')
       | (Inr (values, next_cursor), c') \<Rightarrow> (case parse_inode_fields values of
             Inl e \<Rightarrow> (Inl e, P, c')
           | Inr page \<Rightarrow> (Inr (page = [] \<and> next_cursor = 0),
               P\<lparr>orphan_scan_page := sort page, orphan_scan_cursor := next_cursor\<rparr>, c')))"

fun visit_orphans :: "nat \<Rightarrow> ('s, u64) visitor \<Rightarrow> meta_ops \<Rightarrow> redis \<Rightarrow> client \<Rightarrow> 's \<Rightarrow> unit res \<times> meta_ops \<times> client \<times> 's" where
  "visit_orphans 0 visitor P R c s = (Inl kUnavailable, P, c, s)"
| "visit_orphans (Suc n) visitor P R c s = (case load_orphan_page P R c of
      (Inl e, P, c) \<Rightarrow> (Inl e, P, c, s)
    | (Inr finished, P, c) \<Rightarrow>
        if finished then (Inr (), P, c, s)
        else case visit_each visitor (drop (orphan_scan_page_offset P) (orphan_scan_page P)) (orphan_scan_page_offset P) R c s of
          (Inl e, off, c, s) \<Rightarrow> (Inl e, P\<lparr>orphan_scan_page_offset := off\<rparr>, c, s)
        | (Inr _, off, c, s) \<Rightarrow>
            if orphan_scan_cursor P = 0 then (Inr (), P\<lparr>orphan_scan_page := [], orphan_scan_page_offset := 0\<rparr>, c, s)
            else visit_orphans n visitor (P\<lparr>orphan_scan_page_offset := off\<rparr>) R c s)"

definition ops_VisitOrphanCandidates :: "('s, u64) visitor \<Rightarrow> meta_ops \<Rightarrow> redis \<Rightarrow> client \<Rightarrow> 's \<Rightarrow> unit res \<times> meta_ops \<times> client \<times> 's" where
  "ops_VisitOrphanCandidates visitor P = visit_orphans (me_fuel (op_env P)) visitor P"

fun parse_reclaims :: "folly_io \<Rightarrow> (bytes \<times> bytes) list \<Rightarrow> ReclaimWork list res" where
  "parse_reclaims F [] = Inr []"
| "parse_reclaims F ((field, value) # values) =
    chk (ParseInodeField field) (\<lambda>ino.
    chk (reclaim_ParseFrom F value) (\<lambda>work.
    if rw_ino work \<noteq> ino then Inl kMalformed
    else chk (parse_reclaims F values) (\<lambda>r. Inr (work # r))))"

fun collect_reclaims :: "nat \<Rightarrow> meta_ops \<Rightarrow> u64 \<Rightarrow> ReclaimWork list \<Rightarrow> ReclaimWork list cop" where
  "collect_reclaims 0 P cursor acc R c = (Inl kUnavailable, c)"
| "collect_reclaims (Suc n) P cursor acc R c = (case client_HScan (K_Reclaims (me_key (op_env P))) cursor 128 R c of
      (Inl e, c') \<Rightarrow> (Inl e, c')
    | (Inr (values, next_cursor), c') \<Rightarrow> (case parse_reclaims (me_io (op_env P)) values of
          Inl e \<Rightarrow> (Inl e, c')
        | Inr works \<Rightarrow>
            if next_cursor \<noteq> 0 then collect_reclaims n P next_cursor (acc @ works) R c' else (Inr (acc @ works), c')))"

text \<open>\<open>std::sort\<close> by inode; records of one inode, from a field that a scan repeats, keep the order of the scan here.\<close>

definition CollectPendingReclaims :: "meta_ops \<Rightarrow> ReclaimWork list cop" where
  "CollectPendingReclaims P R c = (case collect_reclaims (me_fuel (op_env P)) P 0 [] R c of
      (Inl e, c') \<Rightarrow> (Inl e, c') | (Inr works, c') \<Rightarrow> (Inr (sort_key rw_ino works), c'))"

definition ops_VisitPendingReclaims :: "('s, ReclaimWork) visitor \<Rightarrow> meta_ops \<Rightarrow> redis \<Rightarrow> client \<Rightarrow> 's \<Rightarrow> unit res \<times> client \<times> 's" where
  "ops_VisitPendingReclaims visitor P R c s = (case CollectPendingReclaims P R c of
      (Inl e, c') \<Rightarrow> (Inl e, c', s)
    | (Inr pending, c') \<Rightarrow> (case visit_each visitor pending 0 R c' s of (r, _, c'', s') \<Rightarrow> (r, c'', s')))"

definition ParsePendingDelete :: "folly_io \<Rightarrow> bytes \<Rightarrow> bytes \<Rightarrow> PendingDelete res" where
  "ParsePendingDelete F object_key encoded =
    chk (pending_ParseFrom F encoded) (\<lambda>pending. if object_key \<noteq> pd_id pending then Inl kMalformed else Inr pending)"

fun parse_deletes :: "folly_io \<Rightarrow> (bytes \<times> bytes) list \<Rightarrow> PendingDelete list res" where
  "parse_deletes F [] = Inr []"
| "parse_deletes F ((object_key, encoded) # values) =
    chk (ParsePendingDelete F object_key encoded) (\<lambda>pending.
    chk (parse_deletes F values) (\<lambda>page. Inr (pending # page)))"

definition load_delete_page :: "nat \<Rightarrow> meta_ops \<Rightarrow> redis \<Rightarrow> client \<Rightarrow> unit res \<times> meta_ops \<times> client" where
  "load_delete_page max_items P R c =
    (if pending_delete_page_offset P < length (pending_delete_page P) then (Inr (), P, c)
     else case client_HScan (K_PendingDeletes (me_key (op_env P))) (pending_delete_cursor P) max_items R c of
         (Inl e, c') \<Rightarrow> (Inl e, P, c')
       | (Inr (values, next_cursor), c') \<Rightarrow> (case parse_deletes (me_io (op_env P)) values of
             Inl e \<Rightarrow> (Inl e, P, c')
           | Inr page \<Rightarrow> (Inr (), P\<lparr>pending_delete_page := page, pending_delete_page_offset := 0,
               pending_delete_cursor := next_cursor\<rparr>, c')))"

text \<open>The value is \<open>*has_more\<close>.\<close>

definition ops_VisitPendingDeletesBatch :: "nat \<Rightarrow> ('s, PendingDelete) visitor \<Rightarrow> meta_ops \<Rightarrow> redis \<Rightarrow> client \<Rightarrow> 's \<Rightarrow> bool res \<times> meta_ops \<times> client \<times> 's" where
  "ops_VisitPendingDeletesBatch max_items visitor P R c s =
    (if max_items = 0 then (Inl kInvalidArgument, P, c, s)
     else case load_delete_page max_items P R c of
        (Inl e, P, c) \<Rightarrow> (Inl e, P, c, s)
      | (Inr _, P, c) \<Rightarrow>
          (case visit_each visitor (take max_items (drop (pending_delete_page_offset P) (pending_delete_page P)))
                  (pending_delete_page_offset P) R c s of
             (Inl e, off, c, s) \<Rightarrow> (Inl e, P\<lparr>pending_delete_page_offset := off\<rparr>, c, s)
           | (Inr _, off, c, s) \<Rightarrow>
               let P = (if length (pending_delete_page P) \<le> off then P\<lparr>pending_delete_page := [], pending_delete_page_offset := 0\<rparr>
                        else P\<lparr>pending_delete_page_offset := off\<rparr>)
               in (Inr (pending_delete_page P \<noteq> [] \<or> pending_delete_cursor P \<noteq> 0), P, c, s)))"

section \<open>Chunk attachments\<close>

record FileChunkSnapshot =
  fc_inode :: SwordFsInode
  fc_chunk_id :: "u64 option"
  fc_eof_boundary :: "ChunkBoundarySnapshot option"

fun chunk_snapshot :: "nat \<Rightarrow> meta_env \<Rightarrow> u64 \<Rightarrow> u64 \<Rightarrow> FileChunkSnapshot cop" where
  "chunk_snapshot 0 E ino index R c = (Inl kUnavailable, c)"
| "chunk_snapshot (Suc n) E ino index R c = (case client_Get (K_Inode (me_key E) ino) R c of
      (Inl e, c) \<Rightarrow> (Inl e, c)
    | (Inr encoded_inode, c) \<Rightarrow>
        (case chk (inode_ParseFrom (me_io E) encoded_inode) (\<lambda>inode.
            if i_ino inode \<noteq> ino then Inl kMalformed
            else if \<not> IsRegular inode then Inl kInvalidArgument
            else chk (PlanChunkSizeLayout (a_size (i_attr inode)) (me_chunk_size E)) (\<lambda>eof_layout. Inr (inode, eof_layout))) of
           Inl e \<Rightarrow> (Inl e, c)
         | Inr (inode, eof_layout) \<Rightarrow>
             let eof_index = (case sl_boundary eof_layout of Some b \<Rightarrow> sb_index b | None \<Rightarrow> index) in
             (case ReadChunkAttachmentsIfUnchanged (K_Inode (me_key E) ino) (K_ChunkRefs (me_key E) ino) encoded_inode
                     index eof_index R c of
                (Inl e, c) \<Rightarrow> (Inl e, c)
              | (Inr None, c) \<Rightarrow> chunk_snapshot n E ino index R c
              | (Inr (Some (attached_raw, eof_raw)), c) \<Rightarrow>
                  (chk (DecodeAttachedChunkID attached_raw) (\<lambda>chunk_id.
                     case sl_boundary eof_layout of
                       None \<Rightarrow> Inr \<lparr>fc_inode = inode, fc_chunk_id = chunk_id, fc_eof_boundary = None\<rparr>
                     | Some b \<Rightarrow> chk (DecodeAttachedChunkID eof_raw) (\<lambda>boundary_id.
                         Inr \<lparr>fc_inode = inode, fc_chunk_id = chunk_id,
                           fc_eof_boundary = Some \<lparr>bs_index = eof_index, bs_chunk_id = boundary_id,
                             bs_visible_prefix = sb_visible_prefix b\<rparr>\<rparr>)), c))))"

definition ops_ReadFileChunkSnapshot :: "meta_ops \<Rightarrow> u64 \<Rightarrow> u64 \<Rightarrow> FileChunkSnapshot cop" where
  "ops_ReadFileChunkSnapshot P ino index = chunk_snapshot (op_snapshot_attempts P) (op_env P) ino index"

text \<open>\<open>read_status\<close> is captured and the callback succeeds, so that the watched reads are validated before the
  status is reported.\<close>

definition captured :: "('v, 'a) tx \<Rightarrow> ('v, 'a res) tx" where
  "captured m = tcase m (\<lambda>status. treturn (Inr status))"

definition joined :: "'a res cop \<Rightarrow> 'a cop" where
  "joined m R c = (case m R c of (Inl e, c') \<Rightarrow> (Inl e, c') | (Inr status, c') \<Rightarrow> (status, c'))"

definition ops_ReadFileMappingSnapshot :: "meta_ops \<Rightarrow> u64 \<Rightarrow> FileMappingSnapshot cop" where
  "ops_ReadFileMappingSnapshot P ino =
    joined (TransactFromFiber P (captured (ReadFileMappingSnapshot (op_env P) ino)))"

definition ops_ProbeAttachment :: "meta_ops \<Rightarrow> u64 \<Rightarrow> u64 \<Rightarrow> u64 option cop" where
  "ops_ProbeAttachment P ino index = joined (TransactFromFiber P (captured (mt_ProbeAttachment (op_env P) ino index)))"

definition ops_AttachPrepared :: "meta_ops \<Rightarrow> u64 \<Rightarrow> u64 \<Rightarrow> u64 \<Rightarrow> u64 \<Rightarrow> FileSizePrecondition \<Rightarrow> unit cop" where
  "ops_AttachPrepared P ino index chunk_id end_off expected =
    TransactFromFiber P (mt_AttachPrepared (op_env P) ino index chunk_id end_off expected)"

definition ops_FinalizeAttachedWrite :: "meta_ops \<Rightarrow> u64 \<Rightarrow> u64 \<Rightarrow> u64 \<Rightarrow> u64 \<Rightarrow> FileSizePrecondition \<Rightarrow> unit cop" where
  "ops_FinalizeAttachedWrite P ino index chunk_id end_off expected =
    TransactFromFiber P (mt_FinalizeAttachedWrite (op_env P) ino index chunk_id end_off expected)"

definition ops_CommitShrink :: "meta_ops \<Rightarrow> u64 \<Rightarrow> ChunkSizePlan \<Rightarrow> SwordFsAttr \<Rightarrow> u32 \<Rightarrow> ChunkSizeCommitResult cop" where
  "ops_CommitShrink P ino plan requested fs = TransactFromFiber P (mt_CommitShrink (op_env P) ino plan requested fs)"

definition ops_CommitGrow :: "meta_ops \<Rightarrow> u64 \<Rightarrow> ChunkSizePlan \<Rightarrow> SwordFsAttr \<Rightarrow> u32 \<Rightarrow> ChunkSizeCommitResult cop" where
  "ops_CommitGrow P ino plan requested fs = TransactFromFiber P (mt_CommitGrow (op_env P) ino plan requested fs)"

section \<open>Snapshots are atomic\<close>

text \<open>What a chunk snapshot says of one key space: the inode, its attachment at \<open>index\<close> and the one at the end of file.\<close>

definition field_at :: "keyspace \<Rightarrow> bytes \<Rightarrow> u64 \<Rightarrow> bytes option" where
  "field_at d k i = fmlookup (hash_at d k) (number i)"

definition snapshot_at :: "meta_env \<Rightarrow> u64 \<Rightarrow> u64 \<Rightarrow> keyspace \<Rightarrow> FileChunkSnapshot \<Rightarrow> bool" where
  "snapshot_at E ino index d s \<longleftrightarrow>
    (\<exists>b. str_at d (K_Inode (me_key E) ino) = Some b \<and> inode_ParseFrom (me_io E) b = Inr (fc_inode s))
    \<and> i_ino (fc_inode s) = ino \<and> IsRegular (fc_inode s)
    \<and> DecodeAttachedChunkID (field_at d (K_ChunkRefs (me_key E) ino) index) = Inr (fc_chunk_id s)
    \<and> (\<exists>layout. PlanChunkSizeLayout (a_size (i_attr (fc_inode s))) (me_chunk_size E) = Inr layout
       \<and> (case sl_boundary layout of
            None \<Rightarrow> fc_eof_boundary s = None
          | Some b \<Rightarrow> (\<exists>id. DecodeAttachedChunkID (field_at d (K_ChunkRefs (me_key E) ino) (sb_index b)) = Inr id
              \<and> fc_eof_boundary s = Some \<lparr>bs_index = sb_index b, bs_chunk_id = id, bs_visible_prefix = sb_visible_prefix b\<rparr>)))"

context redis_server
begin

lemma client_Get_Inr:
  "client_Get k R c = (Inr v, c') \<Longrightarrow> c' = c\<lparr>sent := Suc (sent c)\<rparr> \<and> str_at (r_db R (sent c)) k = Some v"
  by (auto simp: client_Get_def RunReadOnlyCommand_def Let_def get_law get_reply_def str_at_def
      split: reply.splits option.splits prod.splits rval.splits)

lemma client_Get_NotFound:
  "client_Get k R c = (Inl kNotFound, c') \<Longrightarrow> c' = c\<lparr>sent := Suc (sent c)\<rparr> \<and> r_db R (sent c) k = None"
  by (auto simp: client_Get_def RunReadOnlyCommand_def Let_def get_law get_reply_def
      split: reply.splits option.splits prod.splits rval.splits)

lemma client_Get_client: "client_Get k R c = (r, c') \<Longrightarrow> c' = c\<lparr>sent := Suc (sent c)\<rparr>"
  by (auto simp: client_Get_def RunReadOnlyCommand_def Let_def split: reply.splits)

lemma attachments_unchanged:
  "ReadChunkAttachmentsIfUnchanged k h e i j R c = (Inr r, c') \<Longrightarrow> c' = c\<lparr>sent := Suc (sent c)\<rparr>
     \<and> (\<forall>a b. r = Some (a, b) \<longrightarrow> str_at (r_db R (sent c)) k = Some e \<and> a = field_at (r_db R (sent c)) h i \<and> b = field_at (r_db R (sent c)) h j)"
  by (auto simp: ReadChunkAttachmentsIfUnchanged_def ReadChunkAttachmentsScript_def RunReadOnlyCommand_def Let_def get_law hget_law
      get_reply_def hash_reply_def str_at_def hash_at_def field_at_def number_def
      split: reply.splits option.splits prod.splits rval.splits if_splits)

lemma chunk_snapshot_atomic:
  "chunk_snapshot n E ino index R c = (Inr s, c') \<Longrightarrow> \<exists>m. sent c \<le> m \<and> m < sent c' \<and> snapshot_at E ino index (r_db R m) s"
proof (induction n arbitrary: c)
  case (Suc n)
  obtain g c1 where g: "client_Get (K_Inode (me_key E) ino) R c = (g, c1)"
    by fastforce
  obtain e where e: "g = Inr e" "str_at (r_db R (sent c)) (K_Inode (me_key E) ino) = Some e" "c1 = c\<lparr>sent := Suc (sent c)\<rparr>"
    using Suc.prems g client_Get_Inr by (cases g) auto
  obtain inode layout where p: "inode_ParseFrom (me_io E) e = Inr inode" "i_ino inode = ino" "IsRegular inode"
      "PlanChunkSizeLayout (a_size (i_attr inode)) (me_chunk_size E) = Inr layout"
    using Suc.prems g e(1) by (auto simp: chk_Inr_iff split: sum.splits if_splits)
  define j where "j = (case sl_boundary layout of Some b \<Rightarrow> sb_index b | None \<Rightarrow> index)"
  obtain a c2 where a: "ReadChunkAttachmentsIfUnchanged (K_Inode (me_key E) ino) (K_ChunkRefs (me_key E) ino) e index j R c1 = (a, c2)"
    by fastforce
  show ?case
  proof (cases a)
    case (Inl err)
    then show ?thesis
      using Suc.prems g e(1) p a by (simp add: j_def Let_def)
  next
    case (Inr r)
    note sp = attachments_unchanged [OF a [unfolded Inr]]
    show ?thesis
    proof (cases r)
      case None
      then have "chunk_snapshot n E ino index R c2 = (Inr s, c')"
        using Suc.prems g e(1) p a Inr by (simp add: j_def Let_def)
      then obtain m where "sent c2 \<le> m" "m < sent c'" "snapshot_at E ino index (r_db R m) s"
        using Suc.IH by blast
      then show ?thesis
        using sp e(3) by (intro exI [of _ m]) auto
    next
      case (Some ab)
      then have "snapshot_at E ino index (r_db R (sent c1)) s \<and> c' = c2"
        using Suc.prems g e(1) p a Inr sp
        by (cases "sl_boundary layout") (auto simp: snapshot_at_def j_def Let_def chk_Inr_iff split: prod.splits)
      then show ?thesis
        using sp e(3) by (intro exI [of _ "sent c1"]) auto
    qed
  qed
qed simp

end

text \<open>C39: A chunk snapshot is not torn. When \<open>ReadFileChunkSnapshot\<close> succeeds, there was one moment during the call
  at which the inode it returns, the attachment of the wanted chunk and the attachment at the end of file that the inode's
  size determines were all what it returns, although it read them with two commands and other clients may change
  the file between them.\<close>

theorem file_chunk_snapshot_atomic:
  assumes "redis_server R" and "ops_ReadFileChunkSnapshot P ino index R c = (Inr s, c')"
  shows "\<exists>m. sent c \<le> m \<and> m < sent c' \<and> snapshot_at (op_env P) ino index (r_db R m) s"
  using redis_server.chunk_snapshot_atomic [OF assms(1)] assms(2) by (simp add: ops_ReadFileChunkSnapshot_def)

text \<open>A file of two chunks on the reference server.\<close>

definition ex_regular :: SwordFsInode where
  "ex_regular = ex_file\<lparr>i_attr := (i_attr ex_file)\<lparr>a_size := 5000\<rparr>\<rparr>"

definition ex_meta :: meta_env where
  "ex_meta = local_env 0 (ascii ''v'') (\<lambda>_. 0) 4096 None 8"

definition ex_config :: RedisMetaConfig where
  "ex_config = \<lparr>connect_timeout = 1, socket_timeout = 1, pool_size = 1, pool_wait_timeout = 1, retry_attempts = 2, retry_backoff = 0\<rparr>"

definition ex_ops :: meta_ops where
  "ex_ops = (new_meta_ops ex_meta ex_config)\<lparr>op_env := ex_meta\<rparr>"

definition ex_file_db :: keyspace where
  "ex_file_db = [K_Inode (me_key ex_meta) 5 \<mapsto> (RString (case inode_SerializeTo le_io ex_regular of Inr b \<Rightarrow> b | Inl _ \<Rightarrow> []), None),
     K_ChunkRefs (me_key ex_meta) 5 \<mapsto> (RHash (fmap_of_list [(number 0, number 9), (number 1, number 12)]), None)]"

lemma DecodeAttachedChunkID_number:
  assumes "n \<noteq> 0" "n \<le> kMaxChunkIDValue"
  shows "DecodeAttachedChunkID (Some (number n)) = Inr (Some n)"
  using assms from_chars_to_string [of "unat n" "2 ^ 64 - 1" "[]"] unsigned_less [where 'b=64 and 'a=nat, of n]
  by (simp add: DecodeAttachedChunkID_def number_def unat_eq_zero)

lemma ex_chunk_snapshot:
  "ops_ReadFileChunkSnapshot ex_ops 5 0 (mem_redis ex_file_db) \<lparr>sent = 0, effects = []\<rparr> =
    (Inr \<lparr>fc_inode = ex_regular, fc_chunk_id = Some 9,
       fc_eof_boundary = Some \<lparr>bs_index = 1, bs_chunk_id = Some 12, bs_visible_prefix = 904\<rparr>\<rparr>, \<lparr>sent = 2, effects = []\<rparr>)"
proof -
  have "inode_ok ex_regular"
    by (simp add: inode_ok_def ex_regular_def ex_file_def new_inode_def new_attr_def attr0_def attr_ok_def xattrs_ok_def string_ok_def om_ok_def nsec_bad_def HasOnlySupportedInodeFlags_def)
  then obtain b where b: "inode_SerializeTo le_io ex_regular = Inr b" "inode_ParseFrom le_io b = Inr ex_regular"
    using le.inode_rec.parse_ser by blast
  have reg: "i_ino ex_regular = 5" "IsRegular ex_regular" "a_size (i_attr ex_regular) = 5000"
    by (simp_all add: ex_regular_def ex_file_def new_inode_def new_attr_def attr0_def IsRegular_def S_ISREG_def flag_defs)
  have layout: "\<exists>l. PlanChunkSizeLayout 5000 4096 = Inr l \<and> sl_boundary l = Some \<lparr>sb_index = 1, sb_visible_prefix = 904\<rparr>"
    by (simp add: PlanChunkSizeLayout_def kMaxSupportedFileSize_def)
  have env: "me_io ex_meta = le_io" "me_chunk_size ex_meta = 4096" "op_env ex_ops = ex_meta" "op_snapshot_attempts ex_ops = Suc (Suc 0)"
      "K_ChunkRefs (me_key ex_meta) 5 \<noteq> K_Inode (me_key ex_meta) 5"
    by (simp_all add: ex_meta_def local_env_def ex_ops_def new_meta_ops_def ex_config_def)
  have db: "ex_file_db (K_Inode (me_key ex_meta) 5) = Some (RString b, None)"
      "ex_file_db (K_ChunkRefs (me_key ex_meta) 5) = Some (RHash (fmap_of_list [(number 0, number 9), (number 1, number 12)]), None)"
    using env(5) b(1) by (simp_all add: ex_file_db_def)
  have ids: "DecodeAttachedChunkID (Some (number 9)) = Inr (Some 9)" "DecodeAttachedChunkID (Some (number 12)) = Inr (Some 12)"
    by (simp_all add: DecodeAttachedChunkID_number kMaxChunkIDValue_def)
  have nums: "to_string (unat (0 :: u64)) = number 0" "to_string (unat (1 :: u64)) = number 1" "number 0 \<noteq> number 1"
    by (simp_all add: number_def)
  obtain l where l: "PlanChunkSizeLayout 5000 4096 = Inr l" "sl_boundary l = Some \<lparr>sb_index = 1, sb_visible_prefix = 904\<rparr>"
    using layout by blast
  have get: "client_Get (K_Inode (me_key ex_meta) 5) (mem_redis ex_file_db) \<lparr>sent = 0, effects = []\<rparr> = (Inr b, \<lparr>sent = Suc 0, effects = []\<rparr>)"
    by (simp add: client_Get_def RunReadOnlyCommand_def mem_redis_def get_reply_def db)
  have atts: "ReadChunkAttachmentsIfUnchanged (K_Inode (me_key ex_meta) 5) (K_ChunkRefs (me_key ex_meta) 5) b 0 1 (mem_redis ex_file_db)
      \<lparr>sent = Suc 0, effects = []\<rparr> = (Inr (Some (Some (number 9), Some (number 12))), \<lparr>sent = 2, effects = []\<rparr>)"
    using nums by (simp add: ReadChunkAttachmentsIfUnchanged_def ReadChunkAttachmentsScript_def RunReadOnlyCommand_def mem_redis_def
        get_reply_def hash_reply_def db fmlookup_of_list)
  show ?thesis
    by (simp add: ops_ReadFileChunkSnapshot_def env get b reg l atts ids)
qed

theorem file_chunk_snapshot_atomic_witness:
  "redis_server (mem_redis ex_file_db) \<and> (\<exists>s m. snapshot_at ex_meta 5 0 (r_db (mem_redis ex_file_db) m) s \<and> fc_chunk_id s = Some 9)"
  using file_chunk_snapshot_atomic [OF mem.redis_server_axioms ex_chunk_snapshot] mem.redis_server_axioms
  by (auto simp: ex_ops_def)

end
