(* ===== verification/RedisDirIterator.thy ===== *)
theory RedisDirIterator
  imports RedisMetaClient Records
begin

text \<open>
  Directory streams (\<open>metadata/redis/RedisDirIterator.cpp\<close>): a cursor over the \<open>.\<close> and \<open>..\<close> entries followed by the
  directory's hash, of which one page is cached. A cookie is a position in that sequence. The mutex serialises the calls,
  so a call is a function of the iterator's state. \<open>CHECK\<close> failures abort the process; they are the error
  \<open>kInternal\<close> here. The fuel bounds the pages one call may load, since the cursors come from the server.

  The theorem of the theory: while a directory does not change, the cache, its paging and its resets cannot be
  seen. \<open>Peek\<close> at any cookie, after any history of calls, is an index into the listing.
\<close>

definition kHScanCount :: nat where
  "kHScanCount = 128"

record dir_cache =
  dc_key :: bytes
  dc_entries :: "(bytes \<times> bytes) list"
  dc_base_index :: nat
  dc_cursor :: u64
  dc_exhausted :: bool

definition cache_Reset :: "dir_cache \<Rightarrow> dir_cache" where
  "cache_Reset D = D\<lparr>dc_entries := [], dc_base_index := 0, dc_cursor := 0, dc_exhausted := False\<rparr>"

definition new_dir_cache :: "bytes \<Rightarrow> dir_cache" where
  "new_dir_cache key = \<lparr>dc_key = key, dc_entries = [], dc_base_index = 0, dc_cursor = 0, dc_exhausted = False\<rparr>"

fun load_pages :: "nat \<Rightarrow> nat \<Rightarrow> dir_cache \<Rightarrow> redis \<Rightarrow> client \<Rightarrow> unit res \<times> dir_cache \<times> client" where
  "load_pages fuel index D R c =
    (if dc_exhausted D then (Inr (), D, c)
     else case fuel of
        0 \<Rightarrow> (Inl kUnavailable, D, c)
      | Suc n \<Rightarrow> (case client_HScan (dc_key D) (dc_cursor D) kHScanCount R c of
            (Inl e, c') \<Rightarrow> (Inl e, D, c')
          | (Inr (values, next_cursor), c') \<Rightarrow>
              let D = D\<lparr>dc_cursor := next_cursor, dc_exhausted := (next_cursor = 0)\<rparr> in
              if index < dc_base_index D + length values then (Inr (), D\<lparr>dc_entries := values\<rparr>, c')
              else load_pages n index (D\<lparr>dc_base_index := dc_base_index D + length values\<rparr>) R c'))"

declare load_pages.simps [simp del]

definition EnsureLoaded :: "nat \<Rightarrow> nat \<Rightarrow> dir_cache \<Rightarrow> redis \<Rightarrow> client \<Rightarrow> unit res \<times> dir_cache \<times> client" where
  "EnsureLoaded fuel index D R c =
    (let D = (if index < dc_base_index D then cache_Reset D else D) in
     if index < dc_base_index D + length (dc_entries D) then (Inr (), D, c)
     else load_pages fuel index (D\<lparr>dc_base_index := dc_base_index D + length (dc_entries D), dc_entries := []\<rparr>) R c)"

definition cache_Get :: "folly_io \<Rightarrow> nat \<Rightarrow> nat \<Rightarrow> dir_cache \<Rightarrow> redis \<Rightarrow> client \<Rightarrow> SwordFsEntry res \<times> dir_cache \<times> client" where
  "cache_Get F fuel index D R c = (case EnsureLoaded fuel index D R c of
      (Inl e, D, c) \<Rightarrow> (Inl e, D, c)
    | (Inr _, D, c) \<Rightarrow>
        if dc_base_index D + length (dc_entries D) \<le> index then
          (if dc_exhausted D then Inl kEndOfDirectory else Inl kInternal, D, c)
        else case dc_entries D ! (index - dc_base_index D) of (name, value) \<Rightarrow>
          (chk (entry_ParseFrom F value) (\<lambda>entry. if e_name entry \<noteq> name then Inl kMalformed else Inr entry), D, c))"

record dir_iterator =
  di_cache :: dir_cache
  di_prefix_entries :: "SwordFsEntry list"
  di_position :: u64
  di_pending_next :: "u64 option"

definition new_dir_iterator :: "bytes \<Rightarrow> SwordFsEntry list \<Rightarrow> dir_iterator" where
  "new_dir_iterator key prefix_entries =
    \<lparr>di_cache = new_dir_cache key, di_prefix_entries = prefix_entries, di_position = 0, di_pending_next = None\<rparr>"

definition Seek :: "u64 \<Rightarrow> dir_iterator \<Rightarrow> unit res \<times> dir_iterator" where
  "Seek cookie I = (Inr (), I\<lparr>di_position := cookie, di_pending_next := None\<rparr>)"

definition Peek :: "folly_io \<Rightarrow> nat \<Rightarrow> dir_iterator \<Rightarrow> redis \<Rightarrow> client \<Rightarrow> (SwordFsEntry \<times> u64) res \<times> dir_iterator \<times> client" where
  "Peek F fuel I R c =
    (if di_pending_next I \<noteq> None then (Inl kInvalidArgument, I, c)
     else let next_cookie = di_position I + 1 in
       if unat (di_position I) < length (di_prefix_entries I) then
         (Inr (di_prefix_entries I ! unat (di_position I), next_cookie), I\<lparr>di_pending_next := Some next_cookie\<rparr>, c)
       else case cache_Get F fuel (unat (di_position I) - length (di_prefix_entries I)) (di_cache I) R c of
           (Inl e, D, c) \<Rightarrow> (Inl e, I\<lparr>di_cache := D\<rparr>, c)
         | (Inr entry, D, c) \<Rightarrow> (Inr (entry, next_cookie), I\<lparr>di_cache := D, di_pending_next := Some next_cookie\<rparr>, c))"

definition Advance :: "dir_iterator \<Rightarrow> unit res \<times> dir_iterator" where
  "Advance I = (case di_pending_next I of
      None \<Rightarrow> (Inl kInternal, I)
    | Some n \<Rightarrow> (Inr (), I\<lparr>di_position := n, di_pending_next := None\<rparr>))"

section \<open>The listing\<close>

text \<open>The pages a scan returns from a cursor until the server answers with cursor \<open>0\<close>.\<close>

fun scan_pages :: "(u64 \<Rightarrow> 'p \<times> u64) \<Rightarrow> u64 \<Rightarrow> 'p list \<Rightarrow> bool" where
  "scan_pages S cursor [] \<longleftrightarrow> False"
| "scan_pages S cursor (p # ps) \<longleftrightarrow> fst (S cursor) = p \<and>
     (if ps = [] then snd (S cursor) = 0 else snd (S cursor) \<noteq> 0 \<and> scan_pages S (snd (S cursor)) ps)"

text \<open>A directory that does not change, on a server that answers: what \<open>HSCAN\<close> returns depends on the cursor only.\<close>

definition stable :: "redis \<Rightarrow> bytes \<Rightarrow> (u64 \<Rightarrow> (bytes \<times> bytes) list \<times> u64) \<Rightarrow> bool" where
  "stable R key S \<longleftrightarrow> (\<forall>n. r_link R n = Reply () \<and> (\<forall>cursor. r_hscan R n (r_db R n) key cursor kHScanCount = Reply (S cursor)))"

definition decode_field :: "folly_io \<Rightarrow> bytes \<times> bytes \<Rightarrow> SwordFsEntry res" where
  "decode_field F p = chk (entry_ParseFrom F (snd p)) (\<lambda>entry. if e_name entry \<noteq> fst p then Inl kMalformed else Inr entry)"

definition listing_at :: "folly_io \<Rightarrow> SwordFsEntry list \<Rightarrow> (bytes \<times> bytes) list \<Rightarrow> nat \<Rightarrow> SwordFsEntry res" where
  "listing_at F prefix flds i =
    (if i < length prefix then Inr (prefix ! i)
     else if i - length prefix < length flds then decode_field F (flds ! (i - length prefix))
     else Inl kEndOfDirectory)"

text \<open>The cached page is the part of the listing at \<open>dc_base_index\<close>, and the cursor leads to what follows it.\<close>

definition cache_ok :: "(u64 \<Rightarrow> (bytes \<times> bytes) list \<times> u64) \<Rightarrow> nat \<Rightarrow> (bytes \<times> bytes) list \<Rightarrow> dir_cache \<Rightarrow> bool" where
  "cache_ok S fuel flds D \<longleftrightarrow> (\<exists>pre rest. flds = pre @ dc_entries D @ rest \<and> length pre = dc_base_index D
     \<and> (if dc_exhausted D then rest = []
        else \<exists>ps. scan_pages S (dc_cursor D) ps \<and> length ps \<le> fuel \<and> concat ps = rest))"

lemma HScan_stable: "stable R key S \<Longrightarrow> client_HScan key cursor kHScanCount R c = (Inr (S cursor), c\<lparr>sent := Suc (sent c)\<rparr>)"
  by (simp add: stable_def client_HScan_def RunReadOnlyCommand_def Let_def)

lemma cache_ok_new: "\<lbrakk> scan_pages S 0 ps; length ps \<le> fuel \<rbrakk> \<Longrightarrow> cache_ok S fuel (concat ps) (new_dir_cache key)"
  by (auto simp: cache_ok_def new_dir_cache_def)

lemma cache_ok_Reset: "\<lbrakk> scan_pages S 0 ps; length ps \<le> fuel \<rbrakk> \<Longrightarrow> cache_ok S fuel (concat ps) (cache_Reset D)"
  by (auto simp: cache_ok_def cache_Reset_def)

lemma cache_ok_skip:
  "cache_ok S fuel flds D \<Longrightarrow> cache_ok S fuel flds (D\<lparr>dc_base_index := dc_base_index D + length (dc_entries D), dc_entries := []\<rparr>)"
  unfolding cache_ok_def by (elim exE, rule_tac x = "pre @ dc_entries D" in exI, rule_tac x = rest in exI) auto

text \<open>Loading ends with the wanted page or past the end.\<close>

lemma load_pages_ok:
  assumes "stable R (dc_key D) S" and "dc_entries D = []" and "dc_base_index D \<le> index" and "cache_ok S fuel flds D"
    and "fuel \<le> limit"
  shows "\<exists>D' c'. load_pages fuel index D R c = (Inr (), D', c') \<and> dc_key D' = dc_key D \<and> cache_ok S limit flds D'
    \<and> dc_base_index D' \<le> index \<and> (index < dc_base_index D' + length (dc_entries D') \<or> dc_exhausted D' \<and> length flds \<le> index \<and> dc_entries D' = [])"
  using assms
proof (induction fuel arbitrary: D c)
  case (0 D c)
  then have "dc_exhausted D" "length flds \<le> index"
    by (auto simp: cache_ok_def split: if_splits)
  then show ?case
    using 0 by (auto simp: load_pages.simps cache_ok_def)
next
  case (Suc n D c)
  show ?case
  proof (cases "dc_exhausted D")
    case True
    then have "length flds \<le> index" "cache_ok S limit flds D"
      using Suc.prems by (auto simp: cache_ok_def)
    then show ?thesis
      using Suc.prems True by (auto simp: load_pages.simps)
  next
    case False
    obtain pre qs where "flds = pre @ concat qs" "length pre = dc_base_index D" "scan_pages S (dc_cursor D) qs" "length qs \<le> Suc n"
      using Suc.prems(2,4) False by (auto simp: cache_ok_def)
    then obtain p ps where f: "flds = pre @ p @ concat ps" "length pre = dc_base_index D" and len: "length ps \<le> n"
      and S: "fst (S (dc_cursor D)) = p" "if ps = [] then snd (S (dc_cursor D)) = 0
        else snd (S (dc_cursor D)) \<noteq> 0 \<and> scan_pages S (snd (S (dc_cursor D))) ps"
      by (cases qs) auto
    define D1 where "D1 = D\<lparr>dc_cursor := snd (S (dc_cursor D)), dc_exhausted := (snd (S (dc_cursor D)) = 0)\<rparr>"
    have scan: "client_HScan (dc_key D) (dc_cursor D) kHScanCount R c = (Inr (p, snd (S (dc_cursor D))), c\<lparr>sent := Suc (sent c)\<rparr>)"
      using HScan_stable [OF Suc.prems(1)] S(1) by (auto simp: prod_eq_iff)
    have rest: "if dc_exhausted D1 then ps = [] else scan_pages S (dc_cursor D1) ps"
      using S(2) by (auto simp: D1_def split: if_splits)
    show ?thesis
    proof (cases "index < dc_base_index D + length p")
      case True
      have ok: "cache_ok S limit flds (D1\<lparr>dc_entries := p\<rparr>)"
        unfolding cache_ok_def using f rest len Suc.prems(5)
        by (intro exI [of _ pre] exI [of _ "concat ps"]) (auto simp: D1_def split: if_splits)
      show ?thesis
        using True False scan Suc.prems(3) ok by (simp add: load_pages.simps [of "Suc n"] Let_def D1_def)
    next
      case skip: False
      define D2 where "D2 = D1\<lparr>dc_base_index := dc_base_index D + length p\<rparr>"
      have "cache_ok S n flds D2"
        unfolding cache_ok_def using f rest len Suc.prems(2)
        by (intro exI [of _ "pre @ p"] exI [of _ "concat ps"]) (auto simp: D2_def D1_def split: if_splits)
      moreover have "load_pages (Suc n) index D R c = load_pages n index D2 R (c\<lparr>sent := Suc (sent c)\<rparr>)"
        using False scan skip by (simp add: load_pages.simps [of "Suc n"] Let_def D2_def D1_def)
      ultimately show ?thesis
        using Suc.IH [of D2] Suc.prems skip by (simp add: D2_def D1_def)
    qed
  qed
qed

lemma cache_Get_ok:
  assumes st: "stable R (dc_key D) S" and all: "scan_pages S 0 ps" "length ps \<le> fuel" and D: "cache_ok S fuel (concat ps) D"
  shows "\<exists>D' c'. cache_Get F fuel index D R c = (listing_at F [] (concat ps) index, D', c') \<and> dc_key D' = dc_key D
    \<and> cache_ok S fuel (concat ps) D'"
proof -
  define D0 where "D0 = (if index < dc_base_index D then cache_Reset D else D)"
  have D0: "dc_key D0 = dc_key D" "dc_base_index D0 \<le> index" "cache_ok S fuel (concat ps) D0"
    using D cache_ok_Reset [OF all] by (auto simp: D0_def cache_Reset_def)
  obtain D' c' where L: "EnsureLoaded fuel index D R c = (Inr (), D', c')" and D': "dc_key D' = dc_key D"
      "cache_ok S fuel (concat ps) D'" "dc_base_index D' \<le> index"
      "index < dc_base_index D' + length (dc_entries D') \<or> dc_exhausted D' \<and> length (concat ps) \<le> index \<and> dc_entries D' = []"
  proof (cases "index < dc_base_index D0 + length (dc_entries D0)")
    case True
    then show ?thesis
      using that [of D0 c] D0 by (simp add: EnsureLoaded_def Let_def D0_def [symmetric])
  next
    case False
    then show ?thesis
      using that load_pages_ok [OF _ _ _ cache_ok_skip [OF D0(3)] order_refl, of R index c] D0(1) st
      by (fastforce simp: EnsureLoaded_def Let_def D0_def [symmetric])
  qed
  obtain pre rest where f: "concat ps = pre @ dc_entries D' @ rest" "length pre = dc_base_index D'"
    using D'(2) by (auto simp: cache_ok_def)
  have "cache_Get F fuel index D R c = (listing_at F [] (concat ps) index, D', c')"
  proof (cases "index < dc_base_index D' + length (dc_entries D')")
    case True
    then have "concat ps ! index = dc_entries D' ! (index - dc_base_index D')" "index < length (concat ps)"
      using f D'(3) by (auto simp: nth_append)
    then show ?thesis
      using True L by (simp add: cache_Get_def listing_at_def decode_field_def split: prod.splits)
  next
    case False
    then show ?thesis
      using D'(4) L by (simp add: cache_Get_def listing_at_def)
  qed
  then show ?thesis
    using D' by blast
qed

section \<open>Any history of calls\<close>

datatype dir_call = CallSeek u64 | CallPeek | CallAdvance

fun dir_step :: "folly_io \<Rightarrow> nat \<Rightarrow> redis \<Rightarrow> dir_call \<Rightarrow> dir_iterator \<times> client \<Rightarrow> dir_iterator \<times> client" where
  "dir_step F fuel R (CallSeek cookie) (I, c) = (snd (Seek cookie I), c)"
| "dir_step F fuel R CallPeek (I, c) = snd (Peek F fuel I R c)"
| "dir_step F fuel R CallAdvance (I, c) = (snd (Advance I), c)"

definition dir_inv :: "(u64 \<Rightarrow> (bytes \<times> bytes) list \<times> u64) \<Rightarrow> nat \<Rightarrow> bytes \<Rightarrow> SwordFsEntry list \<Rightarrow> (bytes \<times> bytes) list \<Rightarrow> dir_iterator \<Rightarrow> bool" where
  "dir_inv S fuel key prefix flds I \<longleftrightarrow> dc_key (di_cache I) = key \<and> di_prefix_entries I = prefix \<and> cache_ok S fuel flds (di_cache I)"

lemma Peek_ok:
  assumes "stable R key S" "scan_pages S 0 ps" "length ps \<le> fuel" "dir_inv S fuel key prefix (concat ps) I"
  shows "dir_inv S fuel key prefix (concat ps) (fst (snd (Peek F fuel I R c)))
    \<and> (di_pending_next I = None \<longrightarrow> fst (Peek F fuel I R c) =
        map_sum id (\<lambda>e. (e, di_position I + 1)) (listing_at F prefix (concat ps) (unat (di_position I))))"
proof -
  obtain D' c' where "cache_Get F fuel (unat (di_position I) - length prefix) (di_cache I) R c =
      (listing_at F [] (concat ps) (unat (di_position I) - length prefix), D', c')"
      "dc_key D' = key" "cache_ok S fuel (concat ps) D'"
    using cache_Get_ok [of R "di_cache I"] assms unfolding dir_inv_def by metis
  then show ?thesis
    using assms(4) by (auto simp: Peek_def dir_inv_def Let_def listing_at_def split: sum.splits if_splits)
qed

lemma dir_calls_ok:
  assumes "stable R key S" "scan_pages S 0 ps" "length ps \<le> fuel"
  shows "dir_inv S fuel key prefix (concat ps) (fst (fold (dir_step F fuel R) calls (new_dir_iterator key prefix, c)))"
proof (induction calls rule: rev_induct)
  case Nil
  then show ?case
    using cache_ok_new [OF assms(2,3)] by (simp add: dir_inv_def new_dir_iterator_def) (simp add: new_dir_cache_def)
next
  case (snoc x calls)
  obtain I c1 where I: "fold (dir_step F fuel R) calls (new_dir_iterator key prefix, c) = (I, c1)"
    by fastforce
  show ?case
  proof (cases x)
    case CallPeek
    then show ?thesis
      using snoc I Peek_ok [OF assms, of prefix I] by simp
  qed (use snoc I in \<open>auto simp: dir_inv_def Seek_def Advance_def split: option.splits\<close>)
qed

text \<open>C40: On a directory that does not change, the iterator behaves as an index into its listing, whatever calls came
  before: \<open>Peek\<close> returns the entry at the current cookie (\<open>.\<close> and \<open>..\<close>, then the decoded fields in the order of the scan)
  with the next cookie, or the end of the directory; page cache, paging and seeking back are invisible, and no
  call runs out of pages.\<close>

theorem peek_is_indexing:
  assumes "stable R key S" and "scan_pages S 0 ps" and "length ps \<le> fuel"
    and "fst (fold (dir_step F fuel R) calls (new_dir_iterator key prefix, c)) = I" and "di_pending_next I = None"
  shows "fst (Peek F fuel I R c') =
    map_sum id (\<lambda>e. (e, di_position I + 1)) (listing_at F prefix (concat ps) (unat (di_position I)))"
  using Peek_ok [OF assms(1-3) dir_calls_ok [OF assms(1-3)]] assms(4,5) by blast

text \<open>A directory of two files whose listing comes in two pages.\<close>

definition ex_dirent :: "u64 \<Rightarrow> SwordFsEntry" where
  "ex_dirent i = \<lparr>e_name = [102, ucast i], e_type = 8, e_ino = i\<rparr>"

definition ex_field :: "u64 \<Rightarrow> bytes \<times> bytes" where
  "ex_field i = (e_name (ex_dirent i), case entry_SerializeTo le_io (ex_dirent i) of Inr b \<Rightarrow> b | Inl _ \<Rightarrow> [])"

definition ex_scan :: "u64 \<Rightarrow> (bytes \<times> bytes) list \<times> u64" where
  "ex_scan cursor = (if cursor = 0 then ([ex_field 7], 9) else ([ex_field 8], 0))"

definition ex_dir_server :: redis where
  "ex_dir_server = (mem_redis Map.empty)\<lparr>r_hscan := \<lambda>_ _ _ cursor _. Reply (ex_scan cursor)\<rparr>"

lemma ex_field_decodes:
  assumes "entry_ok (ex_dirent i)"
  shows "decode_field le_io (ex_field i) = Inr (ex_dirent i)"
proof -
  obtain b where "entry_SerializeTo le_io (ex_dirent i) = Inr b" "entry_ParseFrom le_io b = Inr (ex_dirent i)"
    using le.entry_rec.parse_ser [OF assms] by blast
  then show ?thesis
    by (simp add: decode_field_def ex_field_def)
qed

lemma after_Seek: "fst (dir_step F fuel R (CallSeek cookie) x) = (fst x)\<lparr>di_position := cookie, di_pending_next := None\<rparr>"
  by (cases x) (simp add: Seek_def)

theorem peek_is_indexing_witness:
  "stable ex_dir_server (ascii ''dir:1'') ex_scan \<and> scan_pages ex_scan 0 [[ex_field 7], [ex_field 8]]
   \<and> fst (Peek le_io 2 (fst (fold (dir_step le_io 2 ex_dir_server) [CallSeek 3, CallPeek, CallSeek 2, CallPeek, CallSeek 3]
       (new_dir_iterator (ascii ''dir:1'') [ex_dirent 1, ex_dirent 1], \<lparr>sent = 0, effects = []\<rparr>)))
       ex_dir_server \<lparr>sent = 5, effects = []\<rparr>) = Inr (ex_dirent 8, 4)"
proof -
  have st: "stable ex_dir_server (ascii ''dir:1'') ex_scan"
    by (simp add: stable_def ex_dir_server_def)
  have sp: "scan_pages ex_scan 0 [[ex_field 7], [ex_field 8]]"
    by (simp add: ex_scan_def)
  have ok: "entry_ok (ex_dirent 8)"
    by (simp add: entry_ok_def ex_dirent_def string_ok_def)
  show ?thesis
    using peek_is_indexing [OF st sp _ refl, of 2 le_io "[CallSeek 3, CallPeek, CallSeek 2, CallPeek, CallSeek 3]"
        "[ex_dirent 1, ex_dirent 1]" "\<lparr>sent = 0, effects = []\<rparr>" "\<lparr>sent = 5, effects = []\<rparr>"]
      st sp ex_field_decodes [OF ok] by (simp add: after_Seek listing_at_def)
qed

end
