(* ===== verification/RedisMetaImpl.thy ===== *)
theory RedisMetaImpl
  imports RedisMetaOps RedisDirIterator
begin

text \<open>
  The POSIX policy of the Redis metadata engine (\<open>metadata/redis/RedisMetaImpl.cpp\<close>): name checks, file types, sticky
  directories, set-group-id and ACL inheritance, rename flags. Each handler that changes the namespace composes
  the primitives of one transaction; the callback is a definition of its own, named after the handler. The caller's identity
  is an argument. \<open>CreateInstance\<close> and the constructor only build the objects; the handlers that forward to
  \<open>RedisMetaOps\<close> unchanged (attributes, extended attributes, reclaim, attachments) are the operations of that theory.
\<close>

record SwordFsContext =
  ctx_uid :: u64
  ctx_gid :: u64
  ctx_umask :: u32

record Limits =
  max_name_length :: nat
  max_free_inodes :: u64

definition kRedisLimits :: Limits where
  "kRedisLimits = \<lparr>max_name_length = kMaxNameLength, max_free_inodes = - 1\<rparr>"

definition GetLimits :: Limits where
  "GetLimits = kRedisLimits"

section \<open>Reads\<close>

definition Lookup :: "meta_ops \<Rightarrow> u64 \<Rightarrow> bytes \<Rightarrow> SwordFsInode cop" where
  "Lookup P parent_ino name R c = (case ValidateNameComponent name of
      Inl e \<Rightarrow> (Inl e, c) | Inr _ \<Rightarrow> ops_LookupEntry P parent_ino name R c)"

text \<open>A failed update is only logged.\<close>

definition UpdateAtimeBestEffort :: "meta_ops \<Rightarrow> u64 \<Rightarrow> redis \<Rightarrow> client \<Rightarrow> client" where
  "UpdateAtimeBestEffort P ino R c = snd (ops_TouchInode P ino fAtime R c)"

definition OpenDir :: "meta_ops \<Rightarrow> bool \<Rightarrow> u64 \<Rightarrow> dir_iterator cop" where
  "OpenDir P implicit_atime ino R c = (case ops_GetInode P ino R c of
      (Inl e, c) \<Rightarrow> (Inl e, c)
    | (Inr dir, c) \<Rightarrow>
        if \<not> IsDir dir then (Inl kNotDirectory, c)
        else (Inr (new_dir_iterator (K_Directory (me_key (op_env P)) ino)
                [\<lparr>e_name = ascii ''.'', e_type = 4, e_ino = ino\<rparr>, \<lparr>e_name = ascii ''..'', e_type = 4, e_ino = i_parent_ino dir\<rparr>]),
              if implicit_atime then UpdateAtimeBestEffort P ino R c else c))"

definition Readlink :: "meta_ops \<Rightarrow> u64 \<Rightarrow> bytes cop" where
  "Readlink P ino R c = (case ops_GetInode P ino R c of
      (Inl e, c) \<Rightarrow> (Inl e, c)
    | (Inr inode, c) \<Rightarrow> (if \<not> IsSymlink inode then Inl kInvalidArgument else Inr (i_symlink_target inode), c))"

text \<open>The value is the size and the inode flags.\<close>

definition Open :: "meta_ops \<Rightarrow> bool \<Rightarrow> u64 \<Rightarrow> (u64 \<times> u32) cop" where
  "Open P implicit_atime ino R c = (case ops_GetInode P ino R c of
      (Inl e, c) \<Rightarrow> (Inl e, c)
    | (Inr inode, c) \<Rightarrow>
        if \<not> IsRegular inode then (Inl kNotDirectory, c)
        else (Inr (a_size (i_attr inode), a_inode_flags (i_attr inode)),
              if implicit_atime then UpdateAtimeBestEffort P ino R c else c))"

record SwordFsStatFs =
  sf_name_max :: nat
  sf_fragment_size :: u64
  sf_block_size :: u64
  sf_blocks :: u64
  sf_blocks_free :: u64
  sf_blocks_available :: u64
  sf_files :: u64
  sf_files_free :: u64

definition StatFs :: "SwordFsStatFs res" where
  "StatFs = Inr \<lparr>sf_name_max = max_name_length GetLimits, sf_fragment_size = 4096, sf_block_size = 4096, sf_blocks = 268435456,
     sf_blocks_free = 268435456, sf_blocks_available = 268435456, sf_files = max_free_inodes GetLimits,
     sf_files_free = max_free_inodes GetLimits\<rparr>"

section \<open>Creation\<close>

definition create_child :: "SwordFsContext \<Rightarrow> i64 \<Rightarrow> u64 \<Rightarrow> SwordFsInode \<Rightarrow> u64 \<Rightarrow> u32 \<Rightarrow> u64 \<Rightarrow> SwordFsInode res" where
  "create_child ctx now child_ino parent parent_ino mode rdev =
    (let (gid, mode) = ResolveCreateInheritance (ctx_gid ctx) (i_attr parent) mode;
         attr = (new_attr now child_ino mode (ctx_uid ctx) gid)\<lparr>a_rdev := rdev\<rparr>
     in ApplyPosixAclCreateInheritance parent (ctx_umask ctx) (new_inode child_ino attr parent_ino []))"

definition create_txn :: "meta_env \<Rightarrow> SwordFsContext \<Rightarrow> u64 \<Rightarrow> u64 \<Rightarrow> bytes \<Rightarrow> u32 \<Rightarrow> u64 \<Rightarrow> ('v, SwordFsInode) tx" where
  "create_txn E ctx child_ino parent_ino name mode rdev =
    tbind (LookupInode E parent_ino) (\<lambda>parent.
    if \<not> IsDir parent then treturn (Inl kNotDirectory) else
    tbind (tnow E) (\<lambda>now.
    tcheck (create_child ctx now child_ino parent parent_ino mode rdev) (\<lambda>child.
    tbind (mt_AddEntry E parent_ino name child parent) (\<lambda>_. treturn (Inr child)))))"

definition CreateNode :: "meta_ops \<Rightarrow> SwordFsContext \<Rightarrow> u64 \<Rightarrow> bytes \<Rightarrow> u32 \<Rightarrow> u64 \<Rightarrow> SwordFsInode cop" where
  "CreateNode P ctx parent_ino name mode rdev R c = (case AllocateInode P R c of
      (Inl e, c) \<Rightarrow> (Inl e, c)
    | (Inr child_ino, c) \<Rightarrow> TransactFromFiber P (create_txn (op_env P) ctx child_ino parent_ino name mode rdev) R c)"

definition Create :: "meta_ops \<Rightarrow> SwordFsContext \<Rightarrow> u64 \<Rightarrow> bytes \<Rightarrow> u32 \<Rightarrow> SwordFsInode cop" where
  "Create P ctx parent_ino name mode R c = (case ValidateNameComponent name of
      Inl e \<Rightarrow> (Inl e, c)
    | Inr _ \<Rightarrow> CreateNode P ctx parent_ino name (S_IFREG OR (mode AND 0xFFF)) 0 R c)"

definition MkNod :: "meta_ops \<Rightarrow> SwordFsContext \<Rightarrow> u64 \<Rightarrow> bytes \<Rightarrow> u32 \<Rightarrow> u64 \<Rightarrow> SwordFsInode cop" where
  "MkNod P ctx parent_ino name mode rdev R c = (case ValidateNameComponent name of
      Inl e \<Rightarrow> (Inl e, c)
    | Inr _ \<Rightarrow> (case ValidateMknodMode mode of
          Inl e \<Rightarrow> (Inl e, c)
        | Inr _ \<Rightarrow> CreateNode P ctx parent_ino name mode (NormalizeMknodRdev mode rdev) R c))"

definition MkDir :: "meta_ops \<Rightarrow> SwordFsContext \<Rightarrow> u64 \<Rightarrow> bytes \<Rightarrow> u32 \<Rightarrow> SwordFsInode cop" where
  "MkDir P ctx parent_ino name mode R c = (case ValidateNameComponent name of
      Inl e \<Rightarrow> (Inl e, c)
    | Inr _ \<Rightarrow> CreateNode P ctx parent_ino name (S_IFDIR OR (mode AND 0x1FF)) 0 R c)"

definition symlink_child :: "SwordFsContext \<Rightarrow> i64 \<Rightarrow> u64 \<Rightarrow> SwordFsInode \<Rightarrow> u64 \<Rightarrow> bytes \<Rightarrow> SwordFsInode" where
  "symlink_child ctx now child_ino parent parent_ino link =
    (let (gid, mode) = ResolveCreateInheritance (ctx_gid ctx) (i_attr parent) (S_IFLNK OR 0x1FF);
         attr = (new_attr now child_ino mode (ctx_uid ctx) gid)\<lparr>a_size := of_nat (length link)\<rparr>
     in new_inode child_ino attr parent_ino link)"

definition symlink_txn :: "meta_env \<Rightarrow> SwordFsContext \<Rightarrow> u64 \<Rightarrow> u64 \<Rightarrow> bytes \<Rightarrow> bytes \<Rightarrow> ('v, SwordFsInode) tx" where
  "symlink_txn E ctx child_ino parent_ino name link =
    tbind (LookupInode E parent_ino) (\<lambda>parent.
    if \<not> IsDir parent then treturn (Inl kNotDirectory) else
    tbind (tnow E) (\<lambda>now.
    let child = symlink_child ctx now child_ino parent parent_ino link in
    tbind (mt_AddEntry E parent_ino name child parent) (\<lambda>_. treturn (Inr child))))"

definition Symlink :: "meta_ops \<Rightarrow> SwordFsContext \<Rightarrow> u64 \<Rightarrow> bytes \<Rightarrow> bytes \<Rightarrow> SwordFsInode cop" where
  "Symlink P ctx parent_ino name link R c = (case ValidateNameComponent name of
      Inl e \<Rightarrow> (Inl e, c)
    | Inr _ \<Rightarrow> (case AllocateInode P R c of
          (Inl e, c) \<Rightarrow> (Inl e, c)
        | (Inr child_ino, c) \<Rightarrow> TransactFromFiber P (symlink_txn (op_env P) ctx child_ino parent_ino name link) R c))"

section \<open>Removal\<close>

definition dot_name :: "bytes \<Rightarrow> bool" where
  "dot_name name \<longleftrightarrow> name = ascii ''.'' \<or> name = ascii ''..''"

definition unlink_txn :: "meta_env \<Rightarrow> SwordFsContext \<Rightarrow> u64 \<Rightarrow> bytes \<Rightarrow> u64 option \<Rightarrow> ('v, unit) tx" where
  "unlink_txn E ctx parent_ino name expected_ino =
    tbind (LookupInode E parent_ino) (\<lambda>parent.
    if \<not> IsDir parent then treturn (Inl kNotDirectory) else
    tbind (LookupEntryIn E parent name) (\<lambda>child.
    if expected_ino \<noteq> None \<and> expected_ino \<noteq> Some (i_ino child) then treturn (Inl kBusy)
    else if IsDir child then treturn (Inl kInvalidArgument)
    else if \<not> CheckStickyDelete parent (ctx_uid ctx) child then treturn (Inl kPermission)
    else tbind (mt_UnlinkFile E parent_ino name parent child) (\<lambda>_. treturn (Inr ()))))"

definition Unlink :: "meta_ops \<Rightarrow> SwordFsContext \<Rightarrow> u64 \<Rightarrow> bytes \<Rightarrow> u64 option \<Rightarrow> unit cop" where
  "Unlink P ctx parent_ino name expected_ino R c = (case ValidateNameComponent name of
      Inl e \<Rightarrow> (Inl e, c)
    | Inr _ \<Rightarrow> if dot_name name then (Inl kInvalidArgument, c)
        else TransactFromFiber P (unlink_txn (op_env P) ctx parent_ino name expected_ino) R c)"

definition rmdir_txn :: "meta_env \<Rightarrow> SwordFsContext \<Rightarrow> u64 \<Rightarrow> bytes \<Rightarrow> ('v, unit) tx" where
  "rmdir_txn E ctx parent_ino name =
    tbind (LookupInode E parent_ino) (\<lambda>parent.
    if \<not> IsDir parent then treturn (Inl kNotDirectory) else
    tbind (LookupEntryIn E parent name) (\<lambda>child.
    if \<not> IsDir child then treturn (Inl kNotDirectory)
    else if \<not> CheckStickyDelete parent (ctx_uid ctx) child then treturn (Inl kPermission)
    else tbind (mt_RemoveDirectory E parent_ino name parent child) (\<lambda>_. treturn (Inr ()))))"

definition RmDir :: "meta_ops \<Rightarrow> SwordFsContext \<Rightarrow> u64 \<Rightarrow> bytes \<Rightarrow> unit cop" where
  "RmDir P ctx parent_ino name R c = (case ValidateNameComponent name of
      Inl e \<Rightarrow> (Inl e, c)
    | Inr _ \<Rightarrow> if dot_name name then (Inl kInvalidArgument, c)
        else TransactFromFiber P (rmdir_txn (op_env P) ctx parent_ino name) R c)"

section \<open>Rename and link\<close>

text \<open>The decision after the lookups: same inode, sticky target, exchange, move.\<close>

definition rename_entries :: "meta_env \<Rightarrow> SwordFsContext \<Rightarrow> u64 \<Rightarrow> bytes \<Rightarrow> u64 \<Rightarrow> bytes \<Rightarrow> bool \<Rightarrow> bool \<Rightarrow> parents \<Rightarrow> SwordFsInode \<Rightarrow> SwordFsInode option \<Rightarrow> ('v, unit) tx" where
  "rename_entries E ctx old_parent_ino old_name new_parent_ino new_name no_replace exchange ps source target =
    (if no_replace \<and> target \<noteq> None then treturn (Inl kAlreadyExists)
     else case target of
        None \<Rightarrow>
          if exchange then treturn (Inl kNotFound)
          else mt_MoveEntry E old_parent_ino old_name new_parent_ino new_name ps source None (\<not> no_replace)
      | Some tgt \<Rightarrow>
          if i_ino tgt = i_ino source then treturn (Inr ())
          else if \<not> CheckStickyDelete (new_of ps) (ctx_uid ctx) tgt then treturn (Inl kPermission)
          else if exchange then mt_ExchangeEntries E old_parent_ino old_name new_parent_ino new_name ps source tgt
          else mt_MoveEntry E old_parent_ino old_name new_parent_ino new_name ps source (Some tgt) (\<not> no_replace))"

definition rename_txn :: "meta_env \<Rightarrow> SwordFsContext \<Rightarrow> u64 \<Rightarrow> bytes \<Rightarrow> u64 \<Rightarrow> bytes \<Rightarrow> bool \<Rightarrow> bool \<Rightarrow> ('v, unit) tx" where
  "rename_txn E ctx old_parent_ino old_name new_parent_ino new_name no_replace exchange =
    tbind (LookupInode E old_parent_ino) (\<lambda>old_parent.
    if \<not> IsDir old_parent then treturn (Inl kNotDirectory) else
    tbind (if new_parent_ino \<noteq> old_parent_ino then tbind (LookupInode E new_parent_ino) (\<lambda>p. treturn (Inr (Some p)))
           else treturn (Inr None)) (\<lambda>new_parent.
    let ps = (old_parent, new_parent) in
    if \<not> IsDir (new_of ps) then treturn (Inl kNotDirectory) else
    tbind (LookupEntryIn E old_parent old_name) (\<lambda>source.
    if \<not> CheckStickyDelete old_parent (ctx_uid ctx) source then treturn (Inl kPermission) else
    tcase (LookupEntryIn E (new_of ps) new_name) (\<lambda>status.
      case status of
        Inr tgt \<Rightarrow> rename_entries E ctx old_parent_ino old_name new_parent_ino new_name no_replace exchange ps source (Some tgt)
      | Inl e \<Rightarrow> if e \<noteq> kNotFound then treturn (Inl e)
          else rename_entries E ctx old_parent_ino old_name new_parent_ino new_name no_replace exchange ps source None))))"

definition Rename :: "meta_ops \<Rightarrow> SwordFsContext \<Rightarrow> u64 \<Rightarrow> bytes \<Rightarrow> u64 \<Rightarrow> bytes \<Rightarrow> u32 \<Rightarrow> unit cop" where
  "Rename P ctx old_parent_ino old_name new_parent_ino new_name flags R c =
    (case ValidateNameComponent old_name of
       Inl e \<Rightarrow> (Inl e, c)
     | Inr _ \<Rightarrow> (case ValidateNameComponent new_name of
         Inl e \<Rightarrow> (Inl e, c)
       | Inr _ \<Rightarrow>
           if dot_name old_name \<or> dot_name new_name then (Inl kBusy, c)
           else if flags AND NOT (kNoReplace OR kExchange) \<noteq> 0 then (Inl kInvalidArgument, c)
           else if HasRenameFlag flags kNoReplace \<and> HasRenameFlag flags kExchange then (Inl kInvalidArgument, c)
           else TransactFromFiber P (rename_txn (op_env P) ctx old_parent_ino old_name new_parent_ino new_name
                  (HasRenameFlag flags kNoReplace) (HasRenameFlag flags kExchange)) R c))"

definition link_txn :: "meta_env \<Rightarrow> u64 \<Rightarrow> u64 \<Rightarrow> bytes \<Rightarrow> ('v, SwordFsInode) tx" where
  "link_txn E ino newparent_ino newname =
    tbind (LookupInode E ino) (\<lambda>inode.
    if IsDir inode then treturn (Inl kNotPermitted) else
    tbind (LookupInode E newparent_ino) (\<lambda>parent.
    if \<not> IsDir parent then treturn (Inl kNotDirectory)
    else mt_LinkExistingEntry E newparent_ino newname parent inode))"

definition Link :: "meta_ops \<Rightarrow> u64 \<Rightarrow> u64 \<Rightarrow> bytes \<Rightarrow> SwordFsInode cop" where
  "Link P ino newparent_ino newname R c = (case ValidateNameComponent newname of
      Inl e \<Rightarrow> (Inl e, c)
    | Inr _ \<Rightarrow> TransactFromFiber P (link_txn (op_env P) ino newparent_ino newname) R c)"

end
