(* ===== verification/MetaEngine.thy ===== *)
theory MetaEngine
  imports MetaAttrs RedisMetaImpl
begin

text \<open>
  The metadata engine as a whole: what the handlers of \<open>RedisMetaImpl\<close> and \<open>RedisMetaOps\<close> do to a volume. Each handler is
  shown to refine one operation of the abstract file tree, and the steps of any number of clients, in any order, keep a
  formatted volume consistent. Inode numbers come from a counter, in a step of their own before the transaction that uses
  the number; that the number is still free then is part of the invariant, since no transaction touches the counter.
\<close>

section \<open>The inode counter is left alone\<close>

text \<open>\<open>avoids k m\<close>: whatever the server answers, the program \<open>m\<close> queues no command on the key \<open>k\<close>.\<close>

definition avoids :: "bytes \<Rightarrow> ('v, 'a) tx \<Rightarrow> bool" where
  "avoids k m \<longleftrightarrow> (\<forall>R t o1 t'. m R t = (o1, t') \<longrightarrow> k \<notin> cmd_key ` set (queue t) \<longrightarrow> k \<notin> cmd_key ` set (queue t'))"

named_theorems avoid_intros

lemma avoidsD: "\<lbrakk> avoids k m; m R t = (o1, t'); k \<notin> cmd_key ` set (queue t) \<rbrakk> \<Longrightarrow> k \<notin> cmd_key ` set (queue t')"
  unfolding avoids_def by blast

lemma avoids_return [avoid_intros]: "avoids k (treturn r)"
  by (simp add: avoids_def treturn_def)

lemma avoids_tnow [avoid_intros]: "avoids k (tnow E)"
  by (simp add: avoids_def tnow_def)

lemma avoids_tcase [avoid_intros]:
  assumes "avoids k m" "\<And>r. avoids k (f r)"
  shows "avoids k (tcase m f)"
  unfolding avoids_def
proof (intro allI impI)
  fix R t o2 t'
  assume run: "tcase m f R t = (o2, t')" and t: "k \<notin> cmd_key ` set (queue t)"
  obtain o1 t1 where m: "m R t = (o1, t1)"
    by fastforce
  then have "k \<notin> cmd_key ` set (queue t1)"
    using avoidsD [OF assms(1) _ t] by blast
  then show "k \<notin> cmd_key ` set (queue t')"
    using run m avoidsD [OF assms(2)] by (cases o1) (auto simp: tcase_def)
qed

lemma avoids_tbind [avoid_intros]: "\<lbrakk> avoids k m; \<And>x. avoids k (f x) \<rbrakk> \<Longrightarrow> avoids k (tbind m f)"
  unfolding tbind_def by (rule avoids_tcase) (auto intro: avoids_return split: sum.splits)

lemma avoids_tcheck [avoid_intros]: "(\<And>x. avoids k (f x)) \<Longrightarrow> avoids k (tcheck r f)"
  by (cases r) (auto simp: tcheck_def intro: avoids_return)

lemma avoids_if [avoid_intros]: "\<lbrakk> c \<Longrightarrow> avoids k m; \<not> c \<Longrightarrow> avoids k m' \<rbrakk> \<Longrightarrow> avoids k (if c then m else m')"
  by simp

lemma avoids_option [avoid_intros]: "\<lbrakk> avoids k m; \<And>y. avoids k (f y) \<rbrakk> \<Longrightarrow> avoids k (case x of None \<Rightarrow> m | Some y \<Rightarrow> f y)"
  by (cases x) simp_all

lemma avoids_sum [avoid_intros]: "\<lbrakk> \<And>e. avoids k (g e); \<And>y. avoids k (f y) \<rbrakk> \<Longrightarrow> avoids k (case x of Inl e \<Rightarrow> g e | Inr y \<Rightarrow> f y)"
  by (cases x) simp_all

lemma avoids_prod [avoid_intros]: "(\<And>a b. avoids k (f a b)) \<Longrightarrow> avoids k (case x of (a, b) \<Rightarrow> f a b)"
  by (cases x) simp

lemma avoids_tseq [avoid_intros]: "(\<And>m. m \<in> set ms \<Longrightarrow> avoids k m) \<Longrightarrow> avoids k (tseq ms)"
  by (induction ms) (auto intro: avoids_return avoids_tbind)

lemma avoids_read: "avoids k (watched_read ks q)"
  by (auto simp: avoids_def watched_read_def RunRedisCommand_def watch_def ask_def tick_def split: if_splits reply.splits prod.splits)

lemma avoids_reads [avoid_intros]: "avoids k (Get k')" "avoids k (HGet k' f)" "avoids k (HLen k')" "avoids k (HScan k' cursor n)"
  unfolding Get_def HGet_watched HLen_def HScan_def by (rule avoids_read)+

lemma avoids_write: "cmd_key c \<noteq> k \<Longrightarrow> avoids k (queue_write c)"
  by (auto simp: avoids_def queue_write_def RunRedisCommand_def tick_def split: reply.splits)

lemma avoids_writes [avoid_intros]: "k' \<noteq> k \<Longrightarrow> avoids k (Set k' v)" "k' \<noteq> k \<Longrightarrow> avoids k (HSet k' f v)"
  "k' \<noteq> k \<Longrightarrow> avoids k (HDel k' f)" "k' \<noteq> k \<Longrightarrow> avoids k (IncrBy k' delta)" "k' \<noteq> k \<Longrightarrow> avoids k (Del k')"
  unfolding Set_def HSet_def HDel_def IncrBy_def Del_def by (auto intro!: avoids_write simp: cmd_key_def)

abbreviation next_ino :: "meta_env \<Rightarrow> bytes" where
  "next_ino E \<equiv> K_NextIno (me_key E)"

context meta_store
begin

lemma counter_key [simp]: "K_Inode (me_key E) i \<noteq> next_ino E" "K_Directory (me_key E) i \<noteq> next_ino E" "K_ChunkRefs (me_key E) i \<noteq> next_ino E"
  "K_Orphans (me_key E) \<noteq> next_ino E" "K_InodeCount (me_key E) \<noteq> next_ino E" "K_Reclaims (me_key E) \<noteq> next_ino E"
  "K_PendingDeletes (me_key E) \<noteq> next_ino E"
  by (simp_all flip: key_of.simps add: keys.key_of_inject)

lemma avoids_Lookup [avoid_intros]: "avoids k (LookupInode E i)" "avoids k (LookupEntryIn E parent name)" "avoids k (LookupEntry E p name)"
  unfolding LookupInode_def LookupEntryIn_def LookupEntry_def by (intro avoid_intros)+

lemma avoids_descend [avoid_intros]: "avoids k (descend E' a c visited)"
  by (induction E' a c visited rule: descend.induct) (subst descend.simps, auto simp: LookupInode_def intro!: avoid_intros)

lemmas block_defs = IsDescendantOf_def AdjustInodeCount_def SetInode_def DeleteInode_def LinkEntry_def DetachEntry_def ReplaceEntry_def
    ClearOrphanMarker_def mt_CompleteReclaim_def QueuePendingDelete_def mt_CompletePendingDelete_def Let_def

lemma avoids_blocks [avoid_intros]:
  "avoids k (IsDescendantOf E a c)" "avoids (next_ino E) (AdjustInodeCount E delta)" "avoids (next_ino E) (SetInode E n)"
  "avoids (next_ino E) (DeleteInode E i)" "avoids (next_ino E) (LinkEntry E p name child parent)"
  "avoids (next_ino E) (DetachEntry E p name child parent)" "avoids (next_ino E) (ReplaceEntry E p name child parent)"
  "avoids (next_ino E) (ClearOrphanMarker E i)" "avoids (next_ino E) (mt_CompleteReclaim E i)"
  "avoids (next_ino E) (QueuePendingDelete E w)" "avoids (next_ino E) (mt_CompletePendingDelete E x)"
  unfolding block_defs by (auto intro!: avoid_intros)

lemma avoids_attributes [avoid_intros]:
  "avoids (next_ino E) (mt_SetAttr E i req fs)" "avoids (next_ino E) (mt_SetInodeFlags E i fl)" "avoids (next_ino E) (mt_SetXAttr E i name v md)"
  "avoids (next_ino E) (mt_RemoveXAttr E i name)" "avoids (next_ino E) (mt_TouchInode E i fs)"
  unfolding mt_SetAttr_def mt_SetInodeFlags_def mt_SetXAttr_def mt_RemoveXAttr_def mt_TouchInode_def Let_def
  by (intro avoid_intros)+

lemma avoids_scan [avoid_intros]: "avoids k (scan_mappings n k' cursor acc)"
  by (induction n arbitrary: cursor acc) (auto intro!: avoid_intros)

lemma avoids_file_reads [avoid_intros]: "avoids k (LookupAttachment E i index)" "avoids k (ReadFileMappingSnapshot E i)" "avoids k (check_boundary E i expected)"
  unfolding LookupAttachment_def ReadFileMappingSnapshot_def check_boundary_def Let_def by (intro avoid_intros)+

lemma avoids_file_writes [avoid_intros]:
  "avoids (next_ino E) (mt_AttachPrepared E i index c off expected)" "avoids (next_ino E) (mt_FinalizeAttachedWrite E i index c off expected)"
  "avoids (next_ino E) (mt_RegisterPendingDeletes E work)" "avoids (next_ino E) (queue_detached E i ms)" "avoids (next_ino E) (detach_mappings E i ms)"
  unfolding mt_AttachPrepared_def mt_FinalizeAttachedWrite_def mt_RegisterPendingDeletes_def queue_detached_def detach_mappings_def
  by (auto intro!: avoid_intros)

lemma avoids_size [avoid_intros]: "avoids (next_ino E) (mt_CommitShrink E i plan req fs)" "avoids (next_ino E) (mt_CommitGrow E i plan req fs)"
  unfolding mt_CommitShrink_def mt_CommitGrow_def CommitSizeChange_def Let_def by (intro avoid_intros)+

lemma avoids_reclaim [avoid_intros]: "avoids (next_ino E) (mt_PrepareReclaim E i)"
  unfolding mt_PrepareReclaim_def reclaim_inode_def by (auto intro!: avoid_intros)

lemma avoids_entries [avoid_intros]:
  "avoids (next_ino E) (mt_AddEntry E p name child parent)" "avoids (next_ino E) (mt_UnlinkFile E p name parent child)"
  "avoids (next_ino E) (mt_RemoveDirectory E p name parent child)" "avoids (next_ino E) (mt_LinkExistingEntry E p name parent child)"
  unfolding mt_AddEntry_def mt_UnlinkFile_def mt_RemoveDirectory_def mt_LinkExistingEntry_def Let_def by (auto intro!: avoid_intros)

lemma avoids_rename [avoid_intros]:
  "avoids (next_ino E) (mt_MoveEntry E p n q m ps source target overwrite)" "avoids (next_ino E) (mt_ExchangeEntries E p n q m ps source tgt)"
  unfolding mt_MoveEntry_def mt_ExchangeEntries_def replace_target_def move_source_def set_parents_def not_into_itself_def Let_def
  by (auto intro!: avoid_intros)

lemma avoids_handlers [avoid_intros]:
  "avoids (next_ino E) (create_txn E ctx i p name mode rdev)" "avoids (next_ino E) (symlink_txn E ctx i p name link)"
  "avoids (next_ino E) (unlink_txn E ctx p name x)" "avoids (next_ino E) (rmdir_txn E ctx p name)"
  "avoids (next_ino E) (rename_txn E ctx p n q m nr ex)" "avoids (next_ino E) (link_txn E i p name)"
  unfolding create_txn_def symlink_txn_def unlink_txn_def rmdir_txn_def rename_txn_def rename_entries_def link_txn_def Let_def
  by (auto intro!: avoid_intros)

end

section \<open>New inodes\<close>

lemma om_set_pair: "k \<noteq> k' \<Longrightarrow> set (om_set k v [(k', v')]) = {(k, v), (k', v')}" "length (om_set k v [(k', v')]) \<le> 2"
  by auto

lemma inherit_shape:
  assumes "ApplyPosixAclCreateInheritance parent umask child = Inr c" "i_xattrs child = []"
  shows "i_ino c = i_ino child" "i_parent_ino c = i_parent_ino child" "i_symlink_target c = i_symlink_target child"
    "i_attr c = (i_attr child)\<lparr>a_mode := i_mode c\<rparr>"
    "set (i_xattrs c) \<subseteq> {p. \<exists>v acl. map_of (i_xattrs parent) kPosixAclDefaultXAttr = Some v \<and> Parse v = Inr acl
        \<and> p \<in> {(kPosixAclAccessXAttr, Serialize (RestrictToMode (i_mode child) acl)), (kPosixAclDefaultXAttr, v)}}"
    "length (i_xattrs c) \<le> 2"
  using assms by (auto simp: ApplyPosixAclCreateInheritance_def set_mode_def Let_def split: if_splits option.splits sum.splits)

lemma length_RestrictToMode [simp]: "length (RestrictToMode m es) = length es"
  by (simp add: RestrictToMode_def Let_def)

lemma type_of_perm: "m AND NOT 0x1FF = m' AND NOT 0x1FF \<Longrightarrow> m AND S_IFMT = m' AND (S_IFMT :: u32)"
proof -
  assume "m AND NOT 0x1FF = m' AND NOT 0x1FF"
  then have "(m AND NOT 0x1FF) AND S_IFMT = (m' AND NOT 0x1FF) AND S_IFMT"
    by simp
  then show ?thesis
    by (simp add: S_IFMT_def and.assoc)
qed

lemma inherit_good:
  assumes parent: "good parent" and child: "inode_ok child" "i_xattrs child = []"
    and run: "ApplyPosixAclCreateInheritance parent umask child = Inr c"
  shows "good c" "IsDir c = IsDir child"
proof -
  note sh = inherit_shape [OF run child(2)]
  obtain "acl_inv c" and m: "i_mode c AND NOT 0x1FF = i_mode child AND NOT 0x1FF"
    using create_inheritance [OF goodD(2) [OF parent] child(2), of umask] run by auto
  have vals: "string_ok v" "string_ok (Serialize (RestrictToMode (i_mode child) acl))"
    if "map_of (i_xattrs parent) kPosixAclDefaultXAttr = Some v" "Parse v = Inr acl" for v acl
  proof -
    show v: "string_ok v"
      using map_of_SomeD [OF that(1)] goodD(1) [OF parent] by (auto simp: inode_ok_def xattrs_ok_def)
    show "string_ok (Serialize (RestrictToMode (i_mode child) acl))"
      using v Parse_InrD(2) [OF that(2)] length_Serialize [of acl] by (simp add: string_ok_def)
  qed
  have "fst p \<noteq> [] \<and> string_ok (fst p) \<and> string_ok (snd p)" if "p \<in> set (i_xattrs c)" for p
    using subsetD [OF sh(5) that] vals
      acl_names_ok [of kPosixAclAccessXAttr] acl_names_ok [of kPosixAclDefaultXAttr] by (auto simp: IsPosixAclXAttrName_def)
  then have "xattrs_ok (i_xattrs c)"
    using \<open>acl_inv c\<close> sh(6) by (auto simp: xattrs_ok_def acl_inv_def)
  moreover have "attr_ok (i_attr c)" "a_ino (i_attr c) = i_ino c"
    using child(1) sh(1) by (subst sh(4); simp add: inode_ok_def)+
  ultimately show "good c"
    using \<open>acl_inv c\<close> child(1) sh by (simp add: good_def inode_ok_def)
  show "IsDir c = IsDir child"
    using type_of_perm [OF m] by (rule IsDir_same_type)
qed

lemma new_inode_ok: "\<lbrakk> i \<noteq> 0; string_ok link \<rbrakk> \<Longrightarrow> inode_ok (new_inode i ((new_attr now i mode uid gid)\<lparr>a_rdev := rd, a_size := sz\<rparr>) p link)"
  by (simp add: inode_ok_def new_inode_def new_attr_def attr0_def attr_ok_def xattrs_ok_def om_ok_def nsec_bad_def HasOnlySupportedInodeFlags_def)

lemma create_child_good:
  assumes "good parent" "i \<noteq> 0" "create_child ctx now i parent p mode rdev = Inr c"
  shows "good c" "i_ino c = i" "i_parent_ino c = p" "i_nlink c = (if IsDir c then 2 else 1)"
proof -
  obtain gid m where g: "ResolveCreateInheritance (ctx_gid ctx) (i_attr parent) mode = (gid, m)"
    by fastforce
  define a where "a = (new_attr now i m (ctx_uid ctx) gid)\<lparr>a_rdev := rdev\<rparr>"
  have run: "ApplyPosixAclCreateInheritance parent (ctx_umask ctx) (new_inode i a p []) = Inr c"
    using assms(3) g by (simp add: create_child_def a_def)
  have ok: "inode_ok (new_inode i a p [])" "i_xattrs (new_inode i a p []) = []"
    using new_inode_ok [where i = i and link = "[]" and now = now and mode = m and uid = "ctx_uid ctx" and gid = gid and rd = rdev
        and sz = "a_size (new_attr now i m (ctx_uid ctx) gid)" and p = p] assms(2)
    by (simp_all add: a_def string_ok_def new_inode_def)
  note sh = inherit_shape [OF run ok(2)]
  show "good c" "i_ino c = i" "i_parent_ino c = p"
    using inherit_good [OF assms(1) ok run] sh by (simp_all add: new_inode_def)
  have "i_nlink c = i_nlink (new_inode i a p [])"
    by (subst sh(4)) simp
  moreover have "IsDir (new_inode i a p []) = S_ISDIR m"
    by (simp add: IsDir_def new_inode_def a_def new_attr_def attr0_def)
  ultimately show "i_nlink c = (if IsDir c then 2 else 1)"
    using inherit_good(2) [OF assms(1) ok run] by (simp add: new_inode_def a_def new_attr_def)
qed

lemma symlink_child_good:
  assumes "i \<noteq> 0" "string_ok link"
  shows "good (symlink_child ctx now i parent p link)" "i_ino (symlink_child ctx now i parent p link) = i"
    "i_parent_ino (symlink_child ctx now i parent p link) = p" "\<not> IsDir (symlink_child ctx now i parent p link)"
    "i_nlink (symlink_child ctx now i parent p link) = 1"
proof -
  have link: "\<not> S_ISDIR (S_IFLNK OR 0x1FF)"
    by (simp add: S_ISDIR_def flag_defs)
  obtain gid where g: "ResolveCreateInheritance (ctx_gid ctx) (i_attr parent) (S_IFLNK OR 0x1FF) = (gid, S_IFLNK OR 0x1FF)"
    unfolding ResolveCreateInheritance_def if_not_P [OF link] by (cases "i_mode parent AND S_ISGID = 0") auto
  have c: "symlink_child ctx now i parent p link =
      new_inode i ((new_attr now i (S_IFLNK OR 0x1FF) (ctx_uid ctx) gid)\<lparr>a_size := of_nat (length link)\<rparr>) p link" (is "_ = ?c")
    using g by (simp add: symlink_child_def)
  have "inode_ok ?c"
    using new_inode_ok [OF assms, where now = now and mode = "S_IFLNK OR 0x1FF" and uid = "ctx_uid ctx" and gid = gid and p = p
        and rd = "a_rdev (new_attr now i (S_IFLNK OR 0x1FF) (ctx_uid ctx) gid)" and sz = "of_nat (length link)"] by simp
  moreover have "acl_inv ?c"
    by (rule no_acl_inv) (simp_all add: new_inode_def)
  ultimately show "good (symlink_child ctx now i parent p link)"
    unfolding c good_def by blast
qed (auto simp: symlink_child_def ResolveCreateInheritance_def new_inode_def new_attr_def attr0_def IsDir_def S_ISDIR_def flag_defs)

section \<open>The handlers refine the tree operations\<close>

lemma ValidateName_ok: "ValidateNameComponent name = Inr () \<Longrightarrow> string_ok name"
  by (auto simp: ValidateNameComponent_def kMaxNameLength_def string_ok_def)

definition after :: "'v kv_txn \<Rightarrow> keyspace \<Rightarrow> keyspace" where
  "after t d = fst (exec_cmds (queue t) d)"

lemma new_txn_fields [simp]: "queue (new_txn n v) = []" "has_writes (new_txn n v) = False"
  by (simp_all add: new_txn_def)

lemma after_read_sel [simp]: "queue (after_read ks t) = queue t" "has_writes (after_read ks t) = has_writes t"
  by (simp_all add: after_read_def)

text \<open>\<open>renameat2\<close> on the tree: \<open>None\<close> where it has to fail. In the order of the cases: the old name does not exist; a parent is not a
  directory; there is nothing to exchange with; the new name exists and must not be replaced; a directory would move below itself;
  a directory would replace a non-directory or the other way round; the directory to replace is not empty. Two names of one inode
  are left as they are.\<close>

definition inside :: "tree \<Rightarrow> u64 \<Rightarrow> u64 \<Rightarrow> bool" where
  "inside T c q \<longleftrightarrow> is_dir T c \<and> (q, c) \<in> (upr T)\<^sup>*"

definition t_posix_rename :: "u64 \<Rightarrow> bytes \<Rightarrow> u64 \<Rightarrow> bytes \<Rightarrow> bool \<Rightarrow> bool \<Rightarrow> tree \<Rightarrow> tree option" where
  "t_posix_rename p n q m no_replace exchange T = (case ent T p n of
      None \<Rightarrow> None
    | Some c \<Rightarrow>
        if \<not> is_dir T p \<or> \<not> is_dir T q then None
        else (case ent T q m of
          None \<Rightarrow> if exchange \<or> inside T c q then None else Some (t_move p n q m c T)
        | Some g \<Rightarrow>
            if no_replace then None
            else if g = c then Some T
            else if inside T c q then None
            else if exchange then (if inside T g p then None else Some (t_exchange p n q m c g T))
            else if is_dir T c \<noteq> is_dir T g then None
            else if is_dir T g \<and> ent T g \<noteq> Map.empty then None
            else Some (t_move p n q m c (t_replace (is_dir T g) q m g T))))"

lemma t_posix_rename_cases:
  assumes "ent T p n = Some c" "is_dir T p" "is_dir T q"
  shows "\<lbrakk> ent T q m = None; \<not> inside T c q \<rbrakk> \<Longrightarrow> t_posix_rename p n q m nr False T = Some (t_move p n q m c T)"
    "ent T q m = Some c \<Longrightarrow> t_posix_rename p n q m False ex T = Some T"
    "\<lbrakk> ent T q m = Some g; g \<noteq> c; \<not> inside T c q; \<not> inside T g p \<rbrakk> \<Longrightarrow> t_posix_rename p n q m False True T = Some (t_exchange p n q m c g T)"
    "\<lbrakk> ent T q m = Some g; g \<noteq> c; \<not> inside T c q; is_dir T c = is_dir T g; is_dir T g \<longrightarrow> ent T g = Map.empty \<rbrakk>
      \<Longrightarrow> t_posix_rename p n q m False False T = Some (t_move p n q m c (t_replace (is_dir T g) q m g T))"
  using assms by (simp_all add: t_posix_rename_def)

context meta_store
begin

lemma kv_handlers [kv_intros]:
  "kv_prog R (create_txn E ctx i p name mode rdev)" "kv_prog R (symlink_txn E ctx i p name link)"
  "kv_prog R (unlink_txn E ctx p name x)" "kv_prog R (rmdir_txn E ctx p name)"
  "kv_prog R (rename_txn E ctx p n q m nr ex)" "kv_prog R (link_txn E i p name)"
proof -
  show "kv_prog R (create_txn E ctx i p name mode rdev)" "kv_prog R (symlink_txn E ctx i p name link)"
    "kv_prog R (unlink_txn E ctx p name x)" "kv_prog R (rmdir_txn E ctx p name)" "kv_prog R (link_txn E i p name)"
    unfolding create_txn_def symlink_txn_def unlink_txn_def rmdir_txn_def link_txn_def Let_def by (intro kv_intros)+
  have e: "kv_prog R (rename_entries E ctx p n q m nr ex ps source target)" for ps source target
    unfolding rename_entries_def by (cases target) (auto intro!: kv_intros)
  show "kv_prog R (rename_txn E ctx p n q m nr ex)"
    unfolding rename_txn_def Let_def by (intro kv_intros kv_tcase) (auto intro!: kv_intros e split: sum.splits)
qed

lemma create_refines:
  assumes d: "consistent E d" "limits E d" and i: "inode_at E d i = None" "i \<noteq> 0" and name: "ValidateNameComponent name = Inr ()"
    and run: "create_txn E ctx i p name mode rdev (snap R d) (new_txn n v) = (Ret (Inr c), t)"
  shows "consistent E (after t d) \<and> tree_at E (after t d) = t_add p name i (IsDir c) (tree_at E d) \<and> i_ino c = i \<and> has_writes t
    \<and> ent (tree_at E d) p name = None"
proof -
  obtain parent now t0 where p: "inode_at E d p = Some parent" and c: "create_child ctx now i parent p mode rdev = Inr c"
    and add: "mt_AddEntry E p name c parent (snap R d) t0 = (Ret (Inr ()), t)" "queue t0 = []"
    using run by (auto simp: create_txn_def tbind_Inr tcheck_Inr treturn_eq meta_simps split: if_splits)
  note c = create_child_good [OF good_at [OF d(1) p] i(2) c]
  have "ent (tree_at E d) p name = None"
    using AddEntry_run [OF add(1)] typedD(2) [OF consistentD(1) [OF d(1)]] by (simp add: tree_at_def)
  then show ?thesis
    using AddEntry_consistent [OF d add p c(1)] AddEntry_run [OF add(1)] c i ValidateName_ok [OF name] by (simp add: after_def)
qed

lemma symlink_refines:
  assumes d: "consistent E d" "limits E d" and i: "inode_at E d i = None" "i \<noteq> 0" and name: "ValidateNameComponent name = Inr ()" "string_ok link"
    and run: "symlink_txn E ctx i p name link (snap R d) (new_txn n v) = (Ret (Inr c), t)"
  shows "consistent E (after t d) \<and> tree_at E (after t d) = t_add p name i False (tree_at E d) \<and> i_ino c = i \<and> has_writes t"
proof -
  obtain parent now t0 where p: "inode_at E d p = Some parent" and c: "c = symlink_child ctx now i parent p link"
    and add: "mt_AddEntry E p name c parent (snap R d) t0 = (Ret (Inr ()), t)" "queue t0 = []"
    using run by (auto simp: symlink_txn_def Let_def tbind_Inr tcheck_Inr treturn_eq meta_simps split: if_splits)
  note cc = symlink_child_good [OF i(2) name(2), of ctx now parent p, folded c]
  show ?thesis
    using AddEntry_consistent [OF d add p cc(1)] AddEntry_run [OF add(1)] cc i ValidateName_ok [OF name(1)] by (simp add: after_def)
qed

lemma unlink_refines:
  assumes d: "consistent E d" and run: "unlink_txn E ctx p name x (snap R d) (new_txn n v) = (Ret (Inr u), t)"
  shows "\<exists>c. ent (tree_at E d) p name = Some c \<and> kind (tree_at E d) c = Some False \<and> (x = None \<or> x = Some c)
    \<and> consistent E (after t d) \<and> tree_at E (after t d) = t_unlink p name c (tree_at E d) \<and> has_writes t"
proof -
  obtain parent e child t0 r where p: "inode_at E d p = Some parent" and e: "entry_at E d (i_ino parent) name = Some e"
    and c: "inode_at E d (e_ino e) = Some child" "x = None \<or> x = Some (i_ino child)" "\<not> IsDir child"
    and un: "mt_UnlinkFile E p name parent child (snap R d) t0 = (Ret (Inr r), t)" "queue t0 = []"
    using run by (auto simp: unlink_txn_def tbind_Inr treturn_eq meta_simps split: if_splits)
  have pi: "i_ino parent = p" "i_ino child = e_ino e"
    using consistentD(4) [OF d p] consistentD(4) [OF d c(1)] by auto
  show ?thesis
    using UnlinkFile_consistent [OF d un p _ c(1)] UnlinkFile_run [of p name parent child d t0 "fst r" "snd r" t] un e c pi
    by (intro exI [of _ "e_ino e"]) (auto simp: after_def)
qed

lemma rmdir_refines:
  assumes d: "consistent E d" "limits E d" and run: "rmdir_txn E ctx p name (snap R d) (new_txn n v) = (Ret (Inr u), t)"
  shows "\<exists>c. ent (tree_at E d) p name = Some c \<and> kind (tree_at E d) c = Some True \<and> (\<forall>m. ent (tree_at E d) c m = None)
    \<and> consistent E (after t d) \<and> tree_at E (after t d) = t_rmdir p name c (tree_at E d) \<and> has_writes t"
proof -
  obtain parent e child t0 r where p: "inode_at E d p = Some parent" and e: "entry_at E d (i_ino parent) name = Some e"
    and c: "inode_at E d (e_ino e) = Some child" "IsDir child"
    and rm: "mt_RemoveDirectory E p name parent child (snap R d) t0 = (Ret (Inr r), t)" "queue t0 = []"
    using run by (auto simp: rmdir_txn_def tbind_Inr treturn_eq meta_simps split: if_splits)
  have pi: "i_ino parent = p"
    using consistentD(4) [OF d(1) p] by auto
  show ?thesis
    using RemoveDirectory_consistent [OF d rm p _ c(1)] RemoveDirectory_run [OF rm(1)] e c pi
    by (intro exI [of _ "e_ino e"]) (auto simp: after_def)
qed

lemma link_refines:
  assumes d: "consistent E d" "limits E d" and name: "ValidateNameComponent name = Inr ()"
    and run: "link_txn E i p name (snap R d) (new_txn n v) = (Ret (Inr c), t)"
  shows "kind (tree_at E d) i = Some False \<and> consistent E (after t d) \<and> tree_at E (after t d) = t_link p name i (tree_at E d) \<and> has_writes t"
proof -
  obtain parent inode t0 where p: "inode_at E d p = Some parent" and i: "inode_at E d i = Some inode" "\<not> IsDir inode"
    and ln: "mt_LinkExistingEntry E p name parent inode (snap R d) t0 = (Ret (Inr c), t)" "queue t0 = []"
    using run by (auto simp: link_txn_def tbind_Inr treturn_eq meta_simps split: if_splits)
  show ?thesis
    using LinkExistingEntry_consistent [OF d ln ValidateName_ok [OF name] p i(1)] LinkExistingEntry_run [OF ln(1)] i by (simp add: after_def)
qed

lemma rename_run:
  fixes t :: "'v kv_txn"
  assumes d: "consistent E d" and run: "rename_txn E ctx p n q m nr ex (snap R d) (new_txn i v) = (Ret (Inr u), t)"
  shows "\<exists>ps source s target t0. inode_at E d p = Some (fst ps) \<and> inode_at E d q = Some (new_of ps)
    \<and> entry_at E d p n = Some s \<and> inode_at E d (e_ino s) = Some source
    \<and> (case target of None \<Rightarrow> entry_at E d q m = None | Some tgt \<Rightarrow> \<exists>e. entry_at E d q m = Some e \<and> inode_at E d (e_ino e) = Some tgt)
    \<and> queue t0 = [] \<and> \<not> has_writes t0 \<and> rename_entries E ctx p n q m nr ex ps source target (snap R d) t0 = (Ret (Inr ()), t)"
proof -
  define rest :: "parents \<Rightarrow> SwordFsInode \<Rightarrow> ('v, unit) tx" where "rest ps source = tcase (LookupEntryIn E (new_of ps) m) (\<lambda>status.
        case status of
          Inr tgt \<Rightarrow> rename_entries E ctx p n q m nr ex ps source (Some tgt)
        | Inl e \<Rightarrow> if e \<noteq> kNotFound then treturn (Inl e) else rename_entries E ctx p n q m nr ex ps source None)" for ps source
  define body :: "SwordFsInode \<Rightarrow> SwordFsInode option \<Rightarrow> ('v, unit) tx" where "body op np = (let ps = (op, np) in
      if \<not> IsDir (new_of ps) then treturn (Inl kNotDirectory) else
      tbind (LookupEntryIn E op n) (\<lambda>source.
      if \<not> CheckStickyDelete op (ctx_uid ctx) source then treturn (Inl kPermission) else rest ps source))" for op np
  have txn: "rename_txn E ctx p n q m nr ex = tbind (LookupInode E p) (\<lambda>op.
      if \<not> IsDir op then treturn (Inl kNotDirectory) else
      tbind (if q \<noteq> p then tbind (LookupInode E q) (\<lambda>p. treturn (Inr (Some p))) else treturn (Inr None)) (body op))"
    unfolding rename_txn_def body_def rest_def ..
  obtain op np t2 where op: "inode_at E d p = Some op" and np: "inode_at E d q = Some (new_of (op, np))" "queue t2 = []" "\<not> has_writes t2"
    and r: "body op np (snap R d) t2 = (Ret (Inr ()), t)"
  proof (cases "q = p")
    case True
    then obtain op where "inode_at E d p = Some op" "body op None (snap R d) (after_read [K_Inode (me_key E) p] (new_txn i v)) = (Ret (Inr ()), t)"
      using run unfolding txn by (auto simp: tbind_Inr treturn_eq meta_simps split: if_splits)
    then show ?thesis
      using that [of op None "after_read [K_Inode (me_key E) p] (new_txn i v)"] True by (simp add: new_of_def)
  next
    case False
    then obtain op np where "inode_at E d p = Some op" "inode_at E d q = Some np"
        "body op (Some np) (snap R d) (after_read [K_Inode (me_key E) q] (after_read [K_Inode (me_key E) p] (new_txn i v))) = (Ret (Inr ()), t)"
      using run unfolding txn by (auto simp: tbind_Inr treturn_eq meta_simps split: if_splits)
    then show ?thesis
      using that [of op "Some np" "after_read [K_Inode (me_key E) q] (after_read [K_Inode (me_key E) p] (new_txn i v))"] by (simp add: new_of_def)
  qed
  have ino: "i_ino op = p" "i_ino (new_of (op, np)) = q"
    using consistentD(4) [OF d op] consistentD(4) [OF d np(1)] by auto
  obtain source s where src: "entry_at E d p n = Some s" "inode_at E d (e_ino s) = Some source"
    and r: "rest (op, np) source (snap R d) (after_read [K_Inode (me_key E) (e_ino s)] (after_read [K_Directory (me_key E) p] t2)) = (Ret (Inr ()), t)"
      (is "rest _ _ _ ?t3 = _")
    using r np(2,3) ino by (auto simp: body_def Let_def tbind_Inr treturn_eq meta_simps split: if_splits)
  have none: "fmlookup (hash_at d (K_Directory (me_key E) q)) m = None \<Longrightarrow> entry_at E d q m = None"
    using typedD(2) [OF consistentD(1) [OF d]] by simp
  obtain target t4 where "case target of None \<Rightarrow> entry_at E d q m = None | Some tgt \<Rightarrow> \<exists>e. entry_at E d q m = Some e \<and> inode_at E d (e_ino e) = Some tgt"
      "queue t4 = []" "\<not> has_writes t4" "rename_entries E ctx p n q m nr ex (op, np) source target (snap R d) t4 = (Ret (Inr ()), t)"
  proof -
    consider (found) tgt t4 where "LookupEntryIn E (new_of (op, np)) m (snap R d) ?t3 = (Ret (Inr tgt), t4)"
        "rename_entries E ctx p n q m nr ex (op, np) source (Some tgt) (snap R d) t4 = (Ret (Inr ()), t)"
      | (missing) t4 where "LookupEntryIn E (new_of (op, np)) m (snap R d) ?t3 = (Ret (Inl kNotFound), t4)"
        "rename_entries E ctx p n q m nr ex (op, np) source None (snap R d) t4 = (Ret (Inr ()), t)"
      using r by (auto simp: rest_def tcase_sum treturn_eq split: if_splits)
    then show ?thesis
    proof cases
      case found
      show ?thesis
        by (rule that [of "Some tgt" t4]) (use found np(2) ino in \<open>auto simp: meta_simps\<close>)
    next
      case missing
      show ?thesis
        by (rule that [of None t4]) (use missing np(2,3) ino none in \<open>auto simp: meta_simps\<close>)
    qed
  qed
  then show ?thesis
    using op np(1) src(1,2) by (intro exI [of _ "(op, np)"] exI [of _ source] exI [of _ s] exI [of _ target] exI [of _ t4]) auto
qed

lemma MoveEntry_allowed:
  assumes d: "consistent E d" "limits E d"
    and run: "mt_MoveEntry E p n q m ps source target overwrite (snap R d) t = (Ret (Inr u), t')" "\<not> has_writes t"
    and ps: "inode_at E d p = Some (fst ps)" "inode_at E d q = Some (new_of ps)" and c: "inode_at E d (i_ino source) = Some source"
    and g: "\<And>tgt. target = Some tgt \<Longrightarrow> inode_at E d (i_ino tgt) = Some tgt"
  shows "is_dir (tree_at E d) p" "is_dir (tree_at E d) q" "\<not> inside (tree_at E d) (i_ino source) q"
    "\<lbrakk> target = Some tgt; i_ino tgt \<noteq> i_ino source \<rbrakk> \<Longrightarrow> is_dir (tree_at E d) (i_ino source) = is_dir (tree_at E d) (i_ino tgt)
       \<and> (is_dir (tree_at E d) (i_ino tgt) \<longrightarrow> ent (tree_at E d) (i_ino tgt) = Map.empty)"
proof -
  obtain t1 where ck: "check_parents p q ps = Inr ()" and t1: "not_into_itself E source q (snap R d) t = (Ret (Inr ()), t1)"
    and tr: "case target of None \<Rightarrow> True
       | Some tgt \<Rightarrow> i_ino tgt \<noteq> i_ino source \<longrightarrow> (\<exists>ps' t2. replace_target E q m ps source tgt (snap R d) t1 = (Ret (Inr ps'), t2))"
    using MoveEntry_run [OF run(1)] by (cases target) (auto split: if_splits)
  have dirs: "IsDir (fst ps)" "IsDir (new_of ps)"
    using ck by (simp_all add: check_parents_Inr)
  then show "is_dir (tree_at E d) p" "is_dir (tree_at E d) q"
    using ps by (simp_all add: tree_at_def)
  show "\<not> inside (tree_at E d) (i_ino source) q"
    using not_inside(3) [OF d(1) t1 ps(2) dirs(2) run(2)] c by (auto simp: inside_def tree_at_def)
  assume T: "target = Some tgt" "i_ino tgt \<noteq> i_ino source"
  then obtain ps' t2 where r: "replace_target E q m ps source tgt (snap R d) t1 = (Ret (Inr ps'), t2)"
    using tr by auto
  have "ent (tree_at E d) (i_ino tgt) = Map.empty" if "IsDir tgt"
    using replace_target_run [OF r] RemoveDirectory_run empty_dir [OF consistentD(1) [OF d(1)] d(2)] that
    by (fastforce simp: tree_at_def)
  then show "is_dir (tree_at E d) (i_ino source) = is_dir (tree_at E d) (i_ino tgt)
       \<and> (is_dir (tree_at E d) (i_ino tgt) \<longrightarrow> ent (tree_at E d) (i_ino tgt) = Map.empty)"
    using replace_target_run [OF r] c g [OF T(1)] by (simp add: tree_at_def)
qed

lemma ExchangeEntries_allowed:
  assumes d: "consistent E d"
    and run: "mt_ExchangeEntries E p n q m ps source target (snap R d) t = (Ret (Inr u), t')" "\<not> has_writes t" "i_ino source \<noteq> i_ino target"
    and ps: "inode_at E d p = Some (fst ps)" "inode_at E d q = Some (new_of ps)"
    and c: "inode_at E d (i_ino source) = Some source" "inode_at E d (i_ino target) = Some target"
  shows "is_dir (tree_at E d) p" "is_dir (tree_at E d) q" "\<not> inside (tree_at E d) (i_ino source) q" "\<not> inside (tree_at E d) (i_ino target) p"
proof -
  obtain t1 t2 where ck: "check_parents p q ps = Inr ()" and t1: "not_into_itself E source q (snap R d) t = (Ret (Inr ()), t1)"
    and t2: "not_into_itself E target p (snap R d) t1 = (Ret (Inr ()), t2)"
    using ExchangeEntries_run [OF run(1)] run(3) by auto
  have dirs: "IsDir (fst ps)" "IsDir (new_of ps)"
    using ck by (simp_all add: check_parents_Inr)
  then show "is_dir (tree_at E d) p" "is_dir (tree_at E d) q"
    using ps by (simp_all add: tree_at_def)
  note I1 = not_inside [OF d t1 ps(2) dirs(2) run(2)]
  show "\<not> inside (tree_at E d) (i_ino source) q" "\<not> inside (tree_at E d) (i_ino target) p"
    using I1(3) not_inside(3) [OF d t2 ps(1) dirs(1) I1(2)] c by (auto simp: inside_def tree_at_def)
qed

lemma rename_refines:
  assumes d: "consistent E d" "limits E d" and name: "ValidateNameComponent n = Inr ()" "ValidateNameComponent m = Inr ()"
    and run: "rename_txn E ctx p n q m nr ex (snap R d) (new_txn i v) = (Ret (Inr u), t)"
  shows "consistent E (after t d) \<and> t_posix_rename p n q m nr ex (tree_at E d) = Some (tree_at E (after t d))"
proof -
  obtain ps source s target t0 where ps: "inode_at E d p = Some (fst ps)" "inode_at E d q = Some (new_of ps)"
    and src: "entry_at E d p n = Some s" "inode_at E d (e_ino s) = Some source"
    and tgt: "case target of None \<Rightarrow> entry_at E d q m = None | Some tgt \<Rightarrow> \<exists>e. entry_at E d q m = Some e \<and> inode_at E d (e_ino e) = Some tgt"
    and t0: "queue t0 = []" "\<not> has_writes t0" and r: "rename_entries E ctx p n q m nr ex ps source target (snap R d) t0 = (Ret (Inr ()), t)"
    using rename_run [OF d(1) run] by blast
  have si: "i_ino source = e_ino s"
    using consistentD(4) [OF d(1) src(2)] by simp
  have ok: "string_ok n" "string_ok m"
    using name ValidateName_ok by auto
  note T = tree_okD(5) [OF consistentD(2) [OF d(1)]]
  have en: "ent (tree_at E d) p n = Some (i_ino source)" and sat: "inode_at E d (i_ino source) = Some source"
    using src si by (simp_all add: tree_at_def)
  have gat: "inode_at E d (i_ino tgt) = Some tgt" if "target = Some tgt" for tgt
    using that tgt consistentD(4) [OF d(1)] by auto
  show ?thesis
  proof (cases target)
    case None
    then have mv: "mt_MoveEntry E p n q m ps source None (\<not> nr) (snap R d) t0 = (Ret (Inr ()), t)" "\<not> ex"
      using r by (auto simp: rename_entries_def treturn_eq split: if_splits)
    have "ent (tree_at E d) q m = None"
      using tgt None by (simp add: tree_at_def)
    then have "t_posix_rename p n q m nr ex (tree_at E d) = Some (t_move p n q m (i_ino source) (tree_at E d))"
      using t_posix_rename_cases(1) [OF en MoveEntry_allowed(1,2) [OF d mv(1) t0(2) ps sat]] MoveEntry_allowed(3) [OF d mv(1) t0(2) ps sat] mv(2) by simp
    then show ?thesis
      using MoveEntry_consistent [OF d mv(1) t0 ok(2) ps src tgt [unfolded None]] by (simp add: t_rename_def after_def)
  next
    case (Some g)
    then have em: "ent (tree_at E d) q m = Some (i_ino g)"
      using tgt consistentD(4) [OF d(1)] by (auto simp: tree_at_def)
    then obtain e where e: "entry_at E d q m = Some e" "inode_at E d (e_ino e) = Some g"
      using tgt Some by auto
    have nr: "\<not> nr"
      using r Some by (auto simp: rename_entries_def treturn_eq)
    consider (same) "i_ino g = i_ino source" "t = t0"
      | (swap) "i_ino source \<noteq> i_ino g" ex "mt_ExchangeEntries E p n q m ps source g (snap R d) t0 = (Ret (Inr ()), t)"
      | (move) "i_ino g \<noteq> i_ino source" "\<not> ex" "mt_MoveEntry E p n q m ps source (Some g) (\<not> nr) (snap R d) t0 = (Ret (Inr ()), t)"
      using r Some by (auto simp: rename_entries_def treturn_eq split: if_splits)
    then show ?thesis
    proof cases
      case same
      then show ?thesis
        using t_posix_rename_cases(2) [OF en T [OF en] T [OF em]] em nr d(1) t0(1) by (simp add: after_def exec_cmds.simps)
    next
      case swap
      note A = ExchangeEntries_allowed [OF d(1) swap(3) t0(2) swap(1) ps sat gat [OF Some]]
      show ?thesis
        using ExchangeEntries_consistent [OF d swap(3) t0 ok ps src e swap(1)]
          t_posix_rename_cases(3) [OF en A(1,2) em swap(1) [symmetric] A(3,4)] swap(2) nr by (simp add: after_def)
    next
      case move
      have g: "inode_at E d (i_ino tgt) = Some tgt" if "Some g = Some tgt" for tgt
        using gat Some that by simp
      note A = MoveEntry_allowed [OF d move(3) t0(2) ps sat g]
      show ?thesis
        using MoveEntry_consistent [OF d move(3) t0 ok(2) ps src tgt [unfolded Some]]
          t_posix_rename_cases(4) [OF en A(1,2) em move(1) A(3)] A(4) [OF _ refl move(1)] move(1,2) nr
        by (simp add: t_rename_def after_def gat [OF Some])
    qed
  qed
qed

end

end
