(* ===== verification/MetaSystem.thy ===== *)
theory MetaSystem
  imports MetaEngine
begin

text \<open>
  A volume and its clients as one system. A step is the effect one client's command or transaction has on the shared
  key space: the allocation of an inode number, a transaction that creates the inode with such a number, a transaction of
  any other handler, or a write of another component (locks, leases, chunk data) to its own keys. \<open>volume_run\<close> collects the
  key spaces that any interleaving of such steps can reach from a formatted volume, together with the inode numbers
  that are allocated but not yet used.
\<close>

section \<open>Steps\<close>

definition commits :: "redis \<Rightarrow> (unit, 'a) tx \<Rightarrow> keyspace \<Rightarrow> keyspace \<Rightarrow> bool" where
  "commits R m d d' \<longleftrightarrow> (\<exists>n v x t. m (snap R d) (new_txn n v) = (Ret (Inr x), t) \<and> has_writes t \<and> d' = after t d)"

datatype label = Alloc u64 | Make u64 | Work

inductive lstep :: "redis \<Rightarrow> meta_env \<Rightarrow> label \<Rightarrow> keyspace \<Rightarrow> keyspace \<Rightarrow> bool" for R E where
  alloc: "exec_single now (SIncr (next_ino E)) d = (d', Reply v) \<Longrightarrow> lstep R E (Alloc (word_of_int v)) d d'"
| create: "\<lbrakk> ValidateNameComponent name = Inr (); commits R (create_txn E ctx i p name mode rdev) d d' \<rbrakk> \<Longrightarrow> lstep R E (Make i) d d'"
| symlink: "\<lbrakk> ValidateNameComponent name = Inr (); string_ok link; commits R (symlink_txn E ctx i p name link) d d' \<rbrakk> \<Longrightarrow> lstep R E (Make i) d d'"
| unlink: "commits R (unlink_txn E ctx p name x) d d' \<Longrightarrow> lstep R E Work d d'"
| rmdir: "commits R (rmdir_txn E ctx p name) d d' \<Longrightarrow> lstep R E Work d d'"
| rename: "\<lbrakk> ValidateNameComponent n = Inr (); ValidateNameComponent m = Inr (); commits R (rename_txn E ctx p n q m nr ex) d d' \<rbrakk> \<Longrightarrow> lstep R E Work d d'"
| link: "\<lbrakk> ValidateNameComponent name = Inr (); commits R (link_txn E i p name) d d' \<rbrakk> \<Longrightarrow> lstep R E Work d d'"
| setattr: "\<lbrakk> request_ok req fs; commits R (mt_SetAttr E i req fs) d d' \<rbrakk> \<Longrightarrow> lstep R E Work d d'"
| setflags: "commits R (mt_SetInodeFlags E i fl) d d' \<Longrightarrow> lstep R E Work d d'"
| setxattr: "commits R (mt_SetXAttr E i name value md) d d' \<Longrightarrow> lstep R E Work d d'"
| removexattr: "commits R (mt_RemoveXAttr E i name) d d' \<Longrightarrow> lstep R E Work d d'"
| touch: "commits R (mt_TouchInode E i fs) d d' \<Longrightarrow> lstep R E Work d d'"
| reclaim: "commits R (mt_PrepareReclaim E i) d d' \<Longrightarrow> lstep R E Work d d'"
| reclaimed: "commits R (mt_CompleteReclaim E i) d d' \<Longrightarrow> lstep R E Work d d'"
| todelete: "commits R (mt_RegisterPendingDeletes E work) d d' \<Longrightarrow> lstep R E Work d d'"
| deleted: "commits R (mt_CompletePendingDelete E key) d d' \<Longrightarrow> lstep R E Work d d'"
| attach: "commits R (mt_AttachPrepared E i index chunk off expected) d d' \<Longrightarrow> lstep R E Work d d'"
| finalize: "commits R (mt_FinalizeAttachedWrite E i index chunk off expected) d d' \<Longrightarrow> lstep R E Work d d'"
| shrink: "\<lbrakk> request_ok req fs; commits R (mt_CommitShrink E i plan req fs) d d' \<rbrakk> \<Longrightarrow> lstep R E Work d d'"
| grow: "\<lbrakk> request_ok req fs; commits R (mt_CommitGrow E i plan req fs) d d' \<rbrakk> \<Longrightarrow> lstep R E Work d d'"
| idle: "lstep R E Work d d"

text \<open>Other components leave inodes, directories, orphan markers and the inode counter as they are.\<close>

definition same_names :: "meta_env \<Rightarrow> keyspace \<Rightarrow> keyspace \<Rightarrow> bool" where
  "same_names E d d' \<longleftrightarrow> (\<forall>i. d' (K_Inode (me_key E) i) = d (K_Inode (me_key E) i))
     \<and> (\<forall>i. d' (K_Directory (me_key E) i) = d (K_Directory (me_key E) i)) \<and> d' (K_Orphans (me_key E)) = d (K_Orphans (me_key E))"

text \<open>Where a volume is formatted, there are no inodes and directories of an earlier one.\<close>

definition fresh :: "meta_env \<Rightarrow> keyspace \<Rightarrow> bool" where
  "fresh E d \<longleftrightarrow> (\<forall>i. d (K_Inode (me_key E) i) = None) \<and> (\<forall>i. d (K_Directory (me_key E) i) = None) \<and> d (K_Orphans (me_key E)) = None"

inductive volume_run :: "redis \<Rightarrow> meta_env \<Rightarrow> keyspace \<Rightarrow> u64 set \<Rightarrow> bool" for R E where
  format: "\<lbrakk> fresh E d; inode_SerializeTo (me_io E) (root_inode now) = Inr root; commits R (format_txn E config root) d d' \<rbrakk>
     \<Longrightarrow> volume_run R E d' {}"
| allocate: "\<lbrakk> volume_run R E d U; lstep R E (Alloc i) d d' \<rbrakk> \<Longrightarrow> volume_run R E d' (insert i U)"
| make: "\<lbrakk> volume_run R E d U; limits E d; i \<in> U; lstep R E (Make i) d d' \<rbrakk> \<Longrightarrow> volume_run R E d' (U - {i})"
| work: "\<lbrakk> volume_run R E d U; limits E d; lstep R E Work d d' \<rbrakk> \<Longrightarrow> volume_run R E d' U"
| other: "\<lbrakk> volume_run R E d U; same_names E d d'; d' (next_ino E) = d (next_ino E) \<rbrakk> \<Longrightarrow> volume_run R E d' U"

inductive_cases AllocE: "lstep R E (Alloc i) d d'"
inductive_cases MakeE: "lstep R E (Make i) d d'"

section \<open>The inode counter\<close>

text \<open>The counter is past every inode number in use or reserved; reserved numbers are unused.\<close>

definition counter_ok :: "meta_env \<Rightarrow> keyspace \<Rightarrow> u64 set \<Rightarrow> bool" where
  "counter_ok E d U \<longleftrightarrow> (\<exists>n x. d (next_ino E) = Some (RString (to_string n), x) \<and> n < 2 ^ 63
     \<and> (\<forall>i. inode_at E d i \<noteq> None \<longrightarrow> unat i \<le> n) \<and> (\<forall>i\<in>U. i \<noteq> 0 \<and> unat i \<le> n \<and> inode_at E d i = None))"

lemma parse_int_to_string: "n < 2 ^ 63 \<Longrightarrow> parse_int (to_string n) = Some (int n)"
proof -
  assume n: "n < 2 ^ 63"
  obtain c cs where s: "to_string n = c # cs"
    by (cases "to_string n") auto
  have "is_digit c"
    using to_string_digits [of c n] s by simp
  then have "c \<noteq> of_char CHR ''-''"
    by (auto simp: is_digit_def)
  then show ?thesis
    using n dec_value_to_string [of n] by (simp add: parse_int_def s int_string_def)
qed

context meta_store
begin

lemma same_names_view:
  assumes "same_names E d d'"
  shows "inode_at E d' = inode_at E d" "consistent E d' = consistent E d" "tree_at E d' = tree_at E d"
proof -
  have k: "str_at d' (K_Inode (me_key E) i) = str_at d (K_Inode (me_key E) i)"
      "hash_at d' (K_Directory (me_key E) i) = hash_at d (K_Directory (me_key E) i)"
      "is_hash d' (K_Directory (me_key E) i) = is_hash d (K_Directory (me_key E) i)"
      "hash_at d' (K_Orphans (me_key E)) = hash_at d (K_Orphans (me_key E))"
      "is_hash d' (K_Orphans (me_key E)) = is_hash d (K_Orphans (me_key E))" for i
    using assms by (simp_all add: same_names_def str_at_def hash_at_def is_hash_def)
  show i: "inode_at E d' = inode_at E d"
    by (simp add: fun_eq_iff inode_at_def k)
  have e: "entry_at E d' = entry_at E d"
    by (simp add: fun_eq_iff entry_at_def k)
  have v: "vol_of E d' = vol_of E d"
    by (simp add: vol_of_def i e k)
  show "tree_at E d' = tree_at E d"
    by (simp add: tree_at_def v)
  show "consistent E d' = consistent E d"
    using assms by (simp add: consistent_def v typed_def i e k same_names_def)
qed

lemma alloc_step:
  assumes "lstep R E (Alloc i) d d'" "counter_ok E d U" "consistent E d"
  shows "consistent E d' \<and> counter_ok E d' (insert i U) \<and> i \<notin> U \<and> inode_at E d i = None"
proof -
  obtain now v where i: "i = word_of_int v" and ex: "exec_single now (SIncr (next_ino E)) d = (d', Reply v)"
    using assms(1) by (auto elim: AllocE)
  obtain n x where n: "d (next_ino E) = Some (RString (to_string n), x)" "n < 2 ^ 63"
    and le: "\<And>i. inode_at E d i \<noteq> None \<Longrightarrow> unat i \<le> n" "\<And>i. i \<in> U \<Longrightarrow> i \<noteq> 0 \<and> unat i \<le> n \<and> inode_at E d i = None"
    using assms(2) unfolding counter_ok_def by blast
  have d': "d' = d(next_ino E \<mapsto> (RString (to_string (Suc n)), x))" "v = int (Suc n)" "Suc n < 2 ^ 63"
    using ex n by (auto simp: parse_int_to_string int_string_def nat_add_distrib split: if_splits)
  have same: "same_names E d d'"
    by (simp add: d' same_names_def)
  have u: "unat i = Suc n"
    using d'(3) by (simp add: i d'(2) unat_of_nat flip: of_nat_Suc del: of_nat_Suc)
  have new: "i \<notin> U" "inode_at E d i = None"
    using le u by (metis Suc_n_not_le_n)+
  have "counter_ok E d' (insert i U)"
    unfolding counter_ok_def same_names_view(1) [OF same]
    using d' le u new(2) by (intro exI [of _ "Suc n"] exI [of _ x]) (auto intro: le_SucI)
  then show ?thesis
    using same_names_view(2) [OF same] assms(3) new by simp
qed

lemma kind_None: "inode_at E d i = None \<longleftrightarrow> kind (tree_at E d) i = None"
  by simp

lemma commits_counter: "\<lbrakk> avoids (next_ino E) m; commits R m d d' \<rbrakk> \<Longrightarrow> d' (next_ino E) = d (next_ino E)"
  by (auto simp: commits_def after_def dest!: avoidsD intro!: exec_cmds_frame)

lemma make_step:
  assumes "lstep R E (Make i) d d'" "counter_ok E d U" "i \<in> U" "consistent E d" "limits E d"
  shows "consistent E d' \<and> counter_ok E d' (U - {i})"
proof -
  have i: "inode_at E d i = None" "i \<noteq> 0"
    using assms(2,3) by (auto simp: counter_ok_def)
  have "\<exists>p name b. consistent E d' \<and> tree_at E d' = t_add p name i b (tree_at E d) \<and> d' (next_ino E) = d (next_ino E)"
    using assms(1)
  proof cases
    case (create name ctx p mode rdev)
    then show ?thesis
      using create_refines [OF assms(4,5) i create(1)] commits_counter [OF avoids_handlers(1) create(2)] by (fastforce simp: commits_def)
  next
    case (symlink name link ctx p)
    then show ?thesis
      using symlink_refines [OF assms(4,5) i symlink(1,2)] commits_counter [OF avoids_handlers(2) symlink(3)] by (fastforce simp: commits_def)
  qed
  then obtain p name b where d': "consistent E d'" "d' (next_ino E) = d (next_ino E)" and t: "tree_at E d' = t_add p name i b (tree_at E d)"
    by blast
  have k: "inode_at E d' j = None \<longleftrightarrow> j \<noteq> i \<and> inode_at E d j = None" for j
    unfolding kind_None t by (simp add: tree_defs)
  show ?thesis
    using d' assms(2,3) unfolding counter_ok_def k by auto
qed

lemma kinds [simp]:
  "kind (t_unlink p n c T) = kind T" "kind (t_link p n c T) = kind T" "kind (t_move p n q m c T) = kind T"
  "kind (t_exchange p n q m c e T) = kind T" "kind (t_rmdir p n c T) = (kind T)(c := None)" "kind (t_reclaim c T) = (kind T)(c := None)"
  by (simp_all add: tree_defs t_exchange_def Let_def)

lemma rename_kinds: "\<lbrakk> t_posix_rename p n q m nr ex T = Some T'; kind T j = None \<rbrakk> \<Longrightarrow> kind T' j = None"
  by (auto simp: t_posix_rename_def t_replace_def split: option.splits if_splits)

text \<open>Work never adds an inode and leaves the counter alone.\<close>

definition tame :: "keyspace \<Rightarrow> keyspace \<Rightarrow> bool" where
  "tame d d' \<longleftrightarrow> consistent E d' \<and> (\<forall>j. kind (tree_at E d) j = None \<longrightarrow> kind (tree_at E d') j = None)
     \<and> d' (next_ino E) = d (next_ino E)"

lemma tameI:
  assumes "commits R m d d'" "avoids (next_ino E) m"
    and "\<And>n v x t. \<lbrakk> m (snap R d) (new_txn n v) = (Ret (Inr x), t); d' = after t d \<rbrakk> \<Longrightarrow>
      consistent E (after t d) \<and> (\<forall>j. kind (tree_at E d) j = None \<longrightarrow> kind (tree_at E (after t d)) j = None)"
  shows "tame d d'"
proof -
  obtain n v x t where "m (snap R d) (new_txn n v) = (Ret (Inr x), t)" and d': "d' = after t d"
    using assms(1) unfolding commits_def by blast
  from assms(3) [OF this] show ?thesis
    using commits_counter [OF assms(2,1)] unfolding tame_def d' by blast
qed

lemma quiet_tame:
  assumes "commits R m d d'" "avoids (next_ino E) m" "consistent E d"
    and "\<And>n v x t. m (snap R d) (new_txn n v) = (Ret (Inr x), t) \<Longrightarrow> quiet d (queue t)"
  shows "tame d d'"
  by (rule tameI [OF assms(1,2)]) (use assms(3,4) quiet_consistent in \<open>auto simp: after_def\<close>)

lemma work_step:
  assumes "lstep R E Work d d'" "consistent E d" "limits E d"
  shows "tame d d'"
  using assms(1)
proof cases
  case (unlink ctx p name x)
  show ?thesis
    by (rule tameI [OF unlink avoids_handlers(3)]) (use unlink_refines [OF assms(2)] in fastforce)
next
  case (rmdir ctx p name)
  show ?thesis
    by (rule tameI [OF rmdir avoids_handlers(4)]) (use rmdir_refines [OF assms(2,3)] in fastforce)
next
  case (rename n m ctx p q nr ex)
  show ?thesis
  proof (rule tameI [OF rename(3) avoids_handlers(5)])
    fix i v x t
    assume "rename_txn E ctx p n q m nr ex (snap R d) (new_txn i v) = (Ret (Inr x), t)"
    note r = rename_refines [OF assms(2,3) rename(1,2) this]
    show "consistent E (after t d) \<and> (\<forall>j. kind (tree_at E d) j = None \<longrightarrow> kind (tree_at E (after t d)) j = None)"
      using r rename_kinds [OF conjunct2 [OF r]] by blast
  qed
next
  case (link name i p)
  show ?thesis
    by (rule tameI [OF link(2) avoids_handlers(6)]) (use link_refines [OF assms(2,3) link(1)] in fastforce)
next
  case (reclaim i)
  show ?thesis
  proof (rule tameI [OF reclaim avoids_reclaim])
    fix n v x t
    assume "mt_PrepareReclaim E i (snap R d) (new_txn n v) = (Ret (Inr x), t)"
    from PrepareReclaim_consistent [OF assms(2) new_txn_fields(1) this]
    show "consistent E (after t d) \<and> (\<forall>j. kind (tree_at E d) j = None \<longrightarrow> kind (tree_at E (after t d)) j = None)"
      by (auto simp: after_def simp del: tree_at_sel split: option.splits)
  qed
next
  case (setattr req fs i)
  show ?thesis
    by (rule quiet_tame [OF setattr(2) avoids_attributes(1) assms(2)]) (erule SetAttr_quiet [OF assms(2) setattr(1)], simp)
next
  case (setflags i fl)
  show ?thesis
    by (rule quiet_tame [OF setflags avoids_attributes(2) assms(2)]) (erule inode_ops_quiet [OF assms(2) new_txn_fields(1)])
next
  case (setxattr i name val md)
  show ?thesis
    by (rule quiet_tame [OF setxattr avoids_attributes(3) assms(2)]) (erule inode_ops_quiet [OF assms(2) new_txn_fields(1)])
next
  case (removexattr i name)
  show ?thesis
    by (rule quiet_tame [OF removexattr avoids_attributes(4) assms(2)]) (erule inode_ops_quiet [OF assms(2) new_txn_fields(1)])
next
  case (touch i fs)
  show ?thesis
    by (rule quiet_tame [OF touch avoids_attributes(5) assms(2)]) (erule inode_ops_quiet [OF assms(2) new_txn_fields(1)])
next
  case (reclaimed i)
  show ?thesis
    by (rule quiet_tame [OF reclaimed avoids_blocks(9) assms(2)]) (erule side_ops_quiet [OF new_txn_fields(1)])
next
  case (todelete w)
  show ?thesis
    by (rule quiet_tame [OF todelete avoids_file_writes(3) assms(2)]) (erule side_ops_quiet [OF new_txn_fields(1)])
next
  case (deleted k)
  show ?thesis
    by (rule quiet_tame [OF deleted avoids_blocks(11) assms(2)]) (erule side_ops_quiet [OF new_txn_fields(1)])
next
  case (attach i index chunk off expected)
  show ?thesis
    by (rule quiet_tame [OF attach avoids_file_writes(1) assms(2)]) (erule file_ops_quiet [OF assms(2) new_txn_fields(1)])
next
  case (finalize i index chunk off expected)
  show ?thesis
    by (rule quiet_tame [OF finalize avoids_file_writes(2) assms(2)]) (erule file_ops_quiet [OF assms(2) new_txn_fields(1)])
next
  case (shrink req fs i plan)
  show ?thesis
    by (rule quiet_tame [OF shrink(2) avoids_size(1) assms(2)]) (unfold mt_CommitShrink_def, erule CommitSizeChange_quiet [OF assms(2) new_txn_fields(1) shrink(1)])
next
  case (grow req fs i plan)
  show ?thesis
    by (rule quiet_tame [OF grow(2) avoids_size(2) assms(2)]) (unfold mt_CommitGrow_def, erule CommitSizeChange_quiet [OF assms(2) new_txn_fields(1) grow(1)])
next
  case idle
  then show ?thesis
    using assms(2) by (simp add: tame_def)
qed

section \<open>Formatting\<close>

lemma Sets_run: "tseq (map (\<lambda>(k, v). Set k v) kvs) (snap R d) t = (Ret (Inr u), t') \<Longrightarrow> queue t' = queue t @ map (\<lambda>(k, v). CSet k v) kvs"
  by (induction kvs arbitrary: t) (auto simp: treturn_eq tbind_Inr snap_writes after_write_def)

lemma format_run:
  assumes "format_txn E config root (snap R d) (new_txn n v) = (Ret (Inr u), t)"
  shows "queue t = map (\<lambda>(k, v). CSet k v) (initial_keys (me_key E) config root)"
proof -
  have "tseq (map (\<lambda>(k, v). Set k v) (initial_keys (me_key E) config root)) (snap R d) (after_read [K_Format (me_key E)] (new_txn n v)) = (Ret (Inr ()), t)"
    using assms by (auto simp: format_txn_def tcase_sum treturn_eq Get_NotFound split: if_splits)
  from Sets_run [OF this] show ?thesis
    by simp
qed

lemma format_db:
  assumes "commits R (format_txn E config root) d d'"
  shows "d' (K_Inode (me_key E) i) = (if i = kRootInodeId then Some (RString root, None) else d (K_Inode (me_key E) i))"
    "d' (K_Directory (me_key E) i) = d (K_Directory (me_key E) i)" "d' (K_Orphans (me_key E)) = d (K_Orphans (me_key E))"
    "d' (next_ino E) = Some (RString (to_string 1), None)"
proof -
  have d': "d' = fst (exec_cmds (map (\<lambda>(k, v). CSet k v) (initial_keys (me_key E) config root)) d)"
    using assms by (auto simp: commits_def after_def dest!: format_run)
  show "d' (K_Inode (me_key E) i) = (if i = kRootInodeId then Some (RString root, None) else d (K_Inode (me_key E) i))"
    "d' (K_Directory (me_key E) i) = d (K_Directory (me_key E) i)" "d' (K_Orphans (me_key E)) = d (K_Orphans (me_key E))"
    "d' (next_ino E) = Some (RString (to_string 1), None)"
    unfolding d' initial_keys_def
    by (simp_all flip: key_of.simps add: keys.key_of_inject exec_cmds.simps exec_cmd.simps split_beta kRootInodeId_def)
qed

lemma root_ok: "good (root_inode now)" "IsDir (root_inode now)" "i_nlink (root_inode now) = 2" "i_parent_ino (root_inode now) = kRootInodeId"
  "i_ino (root_inode now) = kRootInodeId"
  by (auto simp: good_def inode_ok_def root_inode_def new_attr_def attr0_def attr_ok_def xattrs_ok_def om_ok_def nsec_bad_def
      HasOnlySupportedInodeFlags_def string_ok_def kRootInodeId_def IsDir_def S_ISDIR_def flag_defs intro!: no_acl_inv)

lemma format_step:
  assumes "fresh E d" "inode_SerializeTo (me_io E) (root_inode now) = Inr root" "commits R (format_txn E config root) d d'"
  shows "consistent E d' \<and> counter_ok E d' {}"
proof -
  note db = format_db [OF assms(3)]
  have root: "inode_ParseFrom (me_io E) root = Inr (root_inode now)"
    using io.inode_rec.parse_ser [OF goodD(1) [OF root_ok(1)], of now] assms(2) by auto
  have i: "inode_at E d' i = (if i = kRootInodeId then Some (root_inode now) else None)" for i
    using assms(1) db(1) [of i] root by (simp add: inode_at_def str_at_def fresh_def)
  have h: "hash_at d' (K_Directory (me_key E) p) = fmempty" "is_hash d' (K_Directory (me_key E) p)"
      "hash_at d' (K_Orphans (me_key E)) = fmempty" "is_hash d' (K_Orphans (me_key E))" for p
    using assms(1) db(2,3) by (simp_all add: hash_at_def is_hash_def fresh_def)
  have e: "entry_at E d' p n = None" for p n
    by (simp add: entry_at_def h)
  have "tree_ok (tree_at E d')"
    by (auto simp: tree_ok_def links_def subdirs_def tree_at_def tree_of_def i e root_ok)
  moreover have "recs_ok (vol_of E d')"
    using root_ok by (auto simp: recs_ok_def i e split: if_splits)
  moreover have "typed E d'"
    using assms(1) db(1) by (auto simp: typed_def i e h fresh_def)
  ultimately have "consistent E d'"
    by (simp add: consistent_def vol_ok_def tree_at_def)
  moreover have "counter_ok E d' {}"
    unfolding counter_ok_def by (rule exI [of _ 1], rule exI [of _ None]) (simp add: db(4) i kRootInodeId_def)
  ultimately show ?thesis ..
qed

theorem volume_invariant: "volume_run R E d U \<Longrightarrow> consistent E d \<and> counter_ok E d U"
proof (induction rule: volume_run.induct)
  case (format d now root config d')
  then show ?case
    using format_step by blast
next
  case (allocate d U i d')
  then show ?case
    using alloc_step by blast
next
  case (make d U i d')
  then show ?case
    using make_step by blast
next
  case (work d U d')
  then have t: "tame d d'"
    using work_step by blast
  have new: "inode_at E d' i = None" if "inode_at E d i = None" for i
    using t that by (simp add: tame_def)
  obtain n x where n: "d (next_ino E) = Some (RString (to_string n), x)" "n < 2 ^ 63"
      "\<And>i. inode_at E d i \<noteq> None \<Longrightarrow> unat i \<le> n" "\<And>i. i \<in> U \<Longrightarrow> i \<noteq> 0 \<and> unat i \<le> n \<and> inode_at E d i = None"
    using work.IH unfolding counter_ok_def by blast
  have "counter_ok E d' U"
    unfolding counter_ok_def
  proof (intro exI [of _ n] exI [of _ x] conjI allI ballI impI)
    show "d' (next_ino E) = Some (RString (to_string n), x)" "n < 2 ^ 63"
      using t n(1,2) by (simp_all add: tame_def)
    show "unat i \<le> n" if "inode_at E d' i \<noteq> None" for i
      using n(3) [of i] new [of i] that by argo
    show "i \<noteq> 0" "unat i \<le> n" "inode_at E d' i = None" if "i \<in> U" for i
      using n(4) [OF that] new [of i] by simp_all
  qed
  then show ?case
    using t by (simp add: tame_def)
next
  case (other d U d')
  then show ?case
    using same_names_view [OF other.hyps(2)] by (simp add: counter_ok_def)
qed

end

section \<open>Calls of the engine\<close>

text \<open>The effects a client's writes had between two of its states are steps with the given labels.\<close>

definition labelled :: "redis \<Rightarrow> meta_env \<Rightarrow> client \<Rightarrow> client \<Rightarrow> label list \<Rightarrow> bool" where
  "labelled R E c c' ls \<longleftrightarrow> (\<exists>es. effects c' = effects c @ es \<and> list_all2 (\<lambda>l e. lstep R E l (fst e) (snd e)) ls es)"

definition works :: "redis \<Rightarrow> meta_env \<Rightarrow> client \<Rightarrow> client \<Rightarrow> bool" where
  "works R E c c' \<longleftrightarrow> (\<exists>ls. labelled R E c c' ls \<and> set ls \<subseteq> {Work})"

text \<open>A number that is used was allocated before, by the same call.\<close>

definition own :: "label list \<Rightarrow> bool" where
  "own ls \<longleftrightarrow> set ls \<subseteq> {Work} \<or> (\<exists>i. ls = [Alloc i] \<or> ls = [Alloc i, Make i])"

datatype meta_request =
    RLookup u64 bytes | ROpenDir bool u64 | ROpen bool u64 | RReadlink u64
  | RCreate u64 bytes u32 | RMkNod u64 bytes u32 u64 | RMkDir u64 bytes u32 | RSymlink u64 bytes bytes
  | RUnlink u64 bytes "u64 option" | RRmDir u64 bytes | RRename u64 bytes u64 bytes u32 | RLink u64 u64 bytes
  | RGetInodes "u64 list" | RSetAttr u64 SwordFsAttr u32 | RSetInodeFlags u64 u32
  | RSetXAttr u64 bytes bytes XAttrSetMode | RRemoveXAttr u64 bytes
  | RPrepareReclaim u64 | RCompleteReclaim u64 | RRegisterPendingDelete PendingDelete | RCompletePendingDelete bytes
  | RAttachPrepared u64 u64 u64 u64 FileSizePrecondition | RFinalizeAttachedWrite u64 u64 u64 u64 FileSizePrecondition
  | RCommitShrink u64 ChunkSizePlan SwordFsAttr u32 | RCommitGrow u64 ChunkSizePlan SwordFsAttr u32
  | RReadFileChunkSnapshot u64 u64

fun serve :: "meta_ops \<Rightarrow> SwordFsContext \<Rightarrow> meta_request \<Rightarrow> redis \<Rightarrow> client \<Rightarrow> client" where
  "serve P ctx (RLookup p name) R c = snd (Lookup P p name R c)"
| "serve P ctx (ROpenDir atime i) R c = snd (OpenDir P atime i R c)"
| "serve P ctx (ROpen atime i) R c = snd (Open P atime i R c)"
| "serve P ctx (RReadlink i) R c = snd (Readlink P i R c)"
| "serve P ctx (RCreate p name mode) R c = snd (Create P ctx p name mode R c)"
| "serve P ctx (RMkNod p name mode rdev) R c = snd (MkNod P ctx p name mode rdev R c)"
| "serve P ctx (RMkDir p name mode) R c = snd (MkDir P ctx p name mode R c)"
| "serve P ctx (RSymlink p name link) R c = snd (Symlink P ctx p name link R c)"
| "serve P ctx (RUnlink p name x) R c = snd (Unlink P ctx p name x R c)"
| "serve P ctx (RRmDir p name) R c = snd (RmDir P ctx p name R c)"
| "serve P ctx (RRename p n q m flags) R c = snd (Rename P ctx p n q m flags R c)"
| "serve P ctx (RLink i p name) R c = snd (Link P i p name R c)"
| "serve P ctx (RGetInodes is) R c = snd (ops_GetInodes P is R c)"
| "serve P ctx (RSetAttr i req fs) R c = snd (ops_SetAttr P i req fs R c)"
| "serve P ctx (RSetInodeFlags i fl) R c = snd (ops_SetInodeFlags P i fl R c)"
| "serve P ctx (RSetXAttr i name v md) R c = snd (ops_SetXAttr P i name v md R c)"
| "serve P ctx (RRemoveXAttr i name) R c = snd (ops_RemoveXAttr P i name R c)"
| "serve P ctx (RPrepareReclaim i) R c = snd (ops_PrepareReclaim P i R c)"
| "serve P ctx (RCompleteReclaim i) R c = snd (ops_CompleteReclaim P i R c)"
| "serve P ctx (RRegisterPendingDelete w) R c = snd (ops_RegisterPendingDelete P w R c)"
| "serve P ctx (RCompletePendingDelete k) R c = snd (ops_CompletePendingDelete P k R c)"
| "serve P ctx (RAttachPrepared i x ch off expected) R c = snd (ops_AttachPrepared P i x ch off expected R c)"
| "serve P ctx (RFinalizeAttachedWrite i x ch off expected) R c = snd (ops_FinalizeAttachedWrite P i x ch off expected R c)"
| "serve P ctx (RCommitShrink i plan req fs) R c = snd (ops_CommitShrink P i plan req fs R c)"
| "serve P ctx (RCommitGrow i plan req fs) R c = snd (ops_CommitGrow P i plan req fs R c)"
| "serve P ctx (RReadFileChunkSnapshot i x) R c = snd (ops_ReadFileChunkSnapshot P i x R c)"

text \<open>What the caller of the engine guarantees: explicit timestamps are canonical and a link target fits a string.\<close>

fun request_valid :: "meta_request \<Rightarrow> bool" where
  "request_valid (RSymlink p name link) = string_ok link"
| "request_valid (RSetAttr i req fs) = request_ok req fs"
| "request_valid (RCommitShrink i plan req fs) = request_ok req fs"
| "request_valid (RCommitGrow i plan req fs) = request_ok req fs"
| "request_valid _ = True"

lemma labelled_refl: "effects c' = effects c \<Longrightarrow> labelled R E c c' []"
  by (auto simp: labelled_def)

lemma labelled_trans: "\<lbrakk> labelled R E c c1 ls; labelled R E c1 c2 ks \<rbrakk> \<Longrightarrow> labelled R E c c2 (ls @ ks)"
  unfolding labelled_def by (auto intro: list_all2_appendI)

lemma works_refl: "effects c' = effects c \<Longrightarrow> works R E c c'"
  unfolding works_def using labelled_refl by (intro exI [of _ "[]"]) simp

lemma works_trans: "\<lbrakk> works R E c c1; works R E c1 c2 \<rbrakk> \<Longrightarrow> works R E c c2"
  unfolding works_def using labelled_trans by fastforce

lemma works_own: "works R E c c' \<Longrightarrow> \<exists>ls. labelled R E c c' ls \<and> own ls"
  by (auto simp: works_def own_def)

context meta_store
begin

lemma Transact_labelled:
  assumes kv: "kv_prog R m" and st: "\<And>d d'. commits R m d d' \<Longrightarrow> lstep R E l d d'" and run: "RunTransact n m R c = (r, c')"
  shows "\<exists>ls. labelled R E c c' ls \<and> (ls = [] \<or> ls = [l])"
proof -
  obtain v' where tr: "Transact n m R c () = (r, c', v')"
    using run by (auto simp: RunTransact_def split: prod.splits)
  obtain es where es: "serial m R c c' r es"
    using Transact_serial [OF kv tr] by blast
  show ?thesis
  proof (cases "es = []")
    case True
    then show ?thesis
      using es labelled_refl by (fastforce simp: serial_def)
  next
    case False
    then obtain v x i where "ran_at m R v (r_db R i) x es"
      using es unfolding serial_def by blast
    then obtain k t where "m (snap R (r_db R i)) (new_txn k v) = (Ret (Inr x), t)" "has_writes t" "es = [(r_db R i, after t (r_db R i))]"
      using False unfolding ran_at_def after_def by (auto split: if_splits)
    then have "lstep R E l (r_db R i) (after t (r_db R i))" "es = [(r_db R i, after t (r_db R i))]"
      using st unfolding commits_def by blast+
    then show ?thesis
      using es by (intro exI [of _ "[l]"]) (auto simp: labelled_def serial_def)
  qed
qed

lemma Transact_works:
  assumes "kv_prog R m" "\<And>d d'. commits R m d d' \<Longrightarrow> lstep R E Work d d'"
  shows "works R E c (snd (RunTransact n m R c))"
proof -
  obtain r c' where run: "RunTransact n m R c = (r, c')"
    by fastforce
  show ?thesis
    using Transact_labelled [OF assms run] by (auto simp: works_def run)
qed

lemma AllocateInode_labelled:
  assumes "AllocateInode P R c = (r, c')" "op_env P = E"
  shows "case r of Inr i \<Rightarrow> labelled R E c c' [Alloc i] | Inl _ \<Rightarrow> (\<exists>ls. labelled R E c c' ls \<and> own ls)"
proof -
  define e where "e = exec_single (r_now R (sent c)) (SIncr (next_ino E)) (r_db R (sent c))"
  have e1: "snd e \<noteq> Error" "snd e = ReplyError \<Longrightarrow> fst e = r_db R (sent c)"
    by (auto simp: e_def split: option.splits rval.splits if_splits)
  have st: "lstep R E (Alloc (word_of_int v)) (r_db R (sent c)) (fst e)" if "snd e = Reply v" for v
    using that by (intro lstep.alloc [of "r_now R (sent c)"]) (simp add: e_def prod_eq_iff)
  have inr: "labelled R E c c' [Alloc (word_of_int v)]" if "snd e = Reply v" "effects c' = effects c @ [(r_db R (sent c), fst e)]" for v
    using st [OF that(1)] that(2) by (auto simp: labelled_def)
  have un: "\<exists>ls. labelled R E c c' ls \<and> own ls" if "effects c' = effects c"
    using works_own [OF works_refl [OF that]] .
  have lost: "\<exists>ls. labelled R E c c' ls \<and> own ls" if "effects c' = effects c @ [(r_db R (sent c), fst e)]"
  proof (cases "snd e")
    case (Reply v)
    then show ?thesis
      using inr that by (auto simp: own_def)
  next
    case ReplyError
    then have "labelled R E c c' [Work]"
      using that e1(2) lstep.idle [of R E "r_db R (sent c)"] by (auto simp: labelled_def)
    then show ?thesis
      by (auto simp: own_def)
  qed (use e1 in simp)
  have m: "mutate (\<lambda>R n d. r_command R n (SIncr (next_ino E)) d) R c = (let c1 = c\<lparr>sent := Suc (sent c)\<rparr>; c2 = c1\<lparr>effects := effects c @ [(r_db R (sent c), fst e)]\<rparr> in
      case r_link R (sent c) of
        Reply _ \<Rightarrow> (snd e, if snd e = ReplyError then c1 else c2)
      | ReplyError \<Rightarrow> (ReplyError, c1)
      | Error \<Rightarrow> (Error, if r_lost R (sent c) then c2 else c1))"
    by (simp add: mutate_def command_law e_def split_beta Let_def split: reply.splits)
  have run: "client_Incr (next_ino E) R c = (r, c')"
    using assms by (simp add: AllocateInode_def)
  show ?thesis
  proof (cases "r_link R (sent c)")
    case (Reply u)
    then show ?thesis
      using run e1(1) inr un by (cases "snd e") (auto simp: client_Incr_def m Let_def)
  qed (use run un lost in \<open>auto simp: client_Incr_def m Let_def split: if_splits\<close>)
qed

lemma Fiber_works:
  assumes "kv_prog R m" "\<And>d d'. commits R m d d' \<Longrightarrow> lstep R E Work d d'"
  shows "works R E c (snd (TransactFromFiber P m R c))"
  using Transact_works [OF assms] by (simp add: TransactFromFiber_def)

text \<open>A creation: a number, then at most one transaction with it.\<close>

lemma creation_own:
  assumes P: "op_env P = E" and kv: "\<And>i. kv_prog R (m i)" and st: "\<And>i d d'. commits R (m i) d d' \<Longrightarrow> lstep R E (Make i) d d'"
    and run: "(case AllocateInode P R c of (Inl e, c1) \<Rightarrow> (Inl e, c1) | (Inr i, c1) \<Rightarrow> TransactFromFiber P (m i) R c1) = (r, c')"
  shows "\<exists>ls. labelled R E c c' ls \<and> own ls"
proof -
  obtain a c1 where a: "AllocateInode P R c = (a, c1)"
    by fastforce
  note al = AllocateInode_labelled [OF a P]
  show ?thesis
  proof (cases a)
    case (Inl e)
    then show ?thesis
      using al run a by simp
  next
    case (Inr i)
    then have "RunTransact (op_attempts P) (m i) R c1 = (r, c')" and l1: "labelled R E c c1 [Alloc i]"
      using run a al by (simp_all add: TransactFromFiber_def)
    then obtain ls where "labelled R E c1 c' ls" "ls = [] \<or> ls = [Make i]"
      using Transact_labelled [OF kv st] by blast
    then show ?thesis
      using labelled_trans [OF l1] by (fastforce simp: own_def)
  qed
qed

lemma GetInode_effects: "effects (snd (ops_GetInode P i R c)) = effects c"
  using client_Get_client [of "K_Inode (me_key (op_env P)) i" c]
  by (auto simp: ops_GetInode_def split: prod.splits sum.splits)

lemma RunReadOnly_effects: "effects (snd (RunReadOnlyCommand q R c)) = effects c"
  by (auto simp: RunReadOnlyCommand_def Let_def split: reply.splits)

lemma MGet_effects: "effects (snd (MGet ks R c)) = effects c"
  by (simp add: MGet_def RunReadOnly_effects)

lemma chunk_snapshot_effects: "effects (snd (chunk_snapshot n E' i x R c)) = effects c"
proof (induction n arbitrary: c)
  case (Suc n)
  have g: "effects c' = effects c" if "client_Get k R c = (r, c')" for k r c c'
    using that client_Get_client by fastforce
  have a: "effects c' = effects c" if "ReadChunkAttachmentsIfUnchanged k h e j l R c = (r, c')" for k h e j l r c c'
    using that RunReadOnly_effects by (metis ReadChunkAttachmentsIfUnchanged_def snd_conv)
  show ?case
    using Suc.IH by (auto simp: Let_def g a split: prod.splits sum.splits option.splits)
qed simp

lemma reclaim_works:
  assumes P: "op_env P = E"
  shows "works R E c (snd (reconcile n (PrepareReclaimAttempt P i) (ops_GetInode P i) ambiguous R c))"
proof (induction n arbitrary: ambiguous c)
  case 0
  then show ?case
    by (simp add: works_refl)
next
  case (Suc n)
  obtain st c1 where at: "PrepareReclaimAttempt P i R c = (st, c1)"
    by fastforce
  obtain g c2 where g: "ops_GetInode P i R c1 = (g, c2)"
    by fastforce
  have "works R E c (snd (TransactFromFiber P (mt_PrepareReclaim E i) R c))"
    by (rule Fiber_works [OF kv_reclaim(2) lstep.reclaim])
  then have w1: "works R E c c1"
    using at P by (auto simp: PrepareReclaimAttempt_def split: prod.splits sum.splits)
  have "effects c2 = effects c1"
    using GetInode_effects [of P i c1] g by simp
  then have w2: "works R E c c2"
    using works_trans [OF w1 works_refl] by blast
  show ?case
    using w1 w2 works_trans [OF w2 Suc.IH] by (auto simp: at g split: sum.splits)
qed

lemma lookup_idle: "commits R (LookupEntry E p name) d d' \<Longrightarrow> lstep R E Work d d'"
  by (auto simp: commits_def LookupEntry_def tbind_Inr meta_simps)

lemma touch_works: "op_env P = E \<Longrightarrow> works R E c (UpdateAtimeBestEffort P i R c)"
  unfolding UpdateAtimeBestEffort_def ops_TouchInode_def by (simp add: Fiber_works kv_attributes lstep.touch)

lemma reads_work:
  assumes P: "op_env P = E"
  shows "works R E c (snd (Lookup P p name R c))" "works R E c (snd (OpenDir P b i R c))" "works R E c (snd (Open P b i R c))"
    "works R E c (snd (Readlink P i R c))" "works R E c (snd (ops_GetInodes P is R c))" "works R E c (snd (ops_ReadFileChunkSnapshot P i x R c))"
proof -
  show "works R E c (snd (Lookup P p name R c))"
    using Fiber_works [OF kv_Lookup(3) lookup_idle] by (simp add: Lookup_def ops_LookupEntry_def P works_refl split: sum.splits)
  obtain g c1 where g: "ops_GetInode P i R c = (g, c1)"
    by fastforce
  have w: "works R E c c1"
    using works_refl [OF GetInode_effects [of P i c]] g by simp
  note t = works_trans [OF w touch_works [OF P]]
  show "works R E c (snd (OpenDir P b i R c))" "works R E c (snd (Open P b i R c))" "works R E c (snd (Readlink P i R c))"
    using w t by (auto simp: OpenDir_def Open_def Readlink_def g split: sum.splits)
  show "works R E c (snd (ops_GetInodes P is R c))"
    using MGet_effects [of "map (K_Inode (me_key (op_env P))) is" c]
    by (auto simp: ops_GetInodes_def intro!: works_refl split: prod.splits sum.splits)
  show "works R E c (snd (ops_ReadFileChunkSnapshot P i x R c))"
    by (simp add: ops_ReadFileChunkSnapshot_def works_refl chunk_snapshot_effects)
qed

lemma changes_work:
  assumes P: "op_env P = E"
  shows "works R E c (snd (Unlink P ctx p name x R c))" "works R E c (snd (RmDir P ctx p name R c))"
    "works R E c (snd (Rename P ctx p n q m flags R c))" "works R E c (snd (Link P i p name R c))"
    "works R E c (snd (ops_PrepareReclaim P i R c))"
proof -
  show "works R E c (snd (Unlink P ctx p name x R c))" "works R E c (snd (RmDir P ctx p name R c))"
    "works R E c (snd (Link P i p name R c))" "works R E c (snd (Rename P ctx p n q m flags R c))"
    using Fiber_works [OF kv_handlers(3) lstep.unlink] Fiber_works [OF kv_handlers(4) lstep.rmdir]
      Fiber_works [OF kv_handlers(6) lstep.link] Fiber_works [OF kv_handlers(5) lstep.rename]
    by (simp_all add: Unlink_def RmDir_def Link_def Rename_def P works_refl split: sum.splits)
  show "works R E c (snd (ops_PrepareReclaim P i R c))"
    using reclaim_works [OF P] by (simp add: ops_PrepareReclaim_def RunReclaimWithOutcomeReconciliation_def works_refl)
qed

lemma operations_work:
  assumes P: "op_env P = E"
  shows "request_ok req fs \<Longrightarrow> works R E c (snd (ops_SetAttr P i req fs R c))" "works R E c (snd (ops_SetInodeFlags P i fl R c))"
    "works R E c (snd (ops_SetXAttr P i name v md R c))" "works R E c (snd (ops_RemoveXAttr P i name R c))"
    "works R E c (snd (ops_CompleteReclaim P i R c))" "works R E c (snd (ops_RegisterPendingDelete P w R c))"
    "works R E c (snd (ops_CompletePendingDelete P key R c))" "works R E c (snd (ops_AttachPrepared P i x ch off expected R c))"
    "works R E c (snd (ops_FinalizeAttachedWrite P i x ch off expected R c))"
    "request_ok req fs \<Longrightarrow> works R E c (snd (ops_CommitShrink P i plan req fs R c))"
    "request_ok req fs \<Longrightarrow> works R E c (snd (ops_CommitGrow P i plan req fs R c))"
  using Fiber_works [OF kv_attributes(1) lstep.setattr] Fiber_works [OF kv_attributes(2) lstep.setflags]
    Fiber_works [OF kv_attributes(3) lstep.setxattr] Fiber_works [OF kv_attributes(4) lstep.removexattr]
    Fiber_works [OF kv_blocks(9) lstep.reclaimed] Fiber_works [OF kv_queue_detached(3) lstep.todelete]
    Fiber_works [OF kv_blocks(11) lstep.deleted] Fiber_works [OF kv_writes_of_file(1) lstep.attach]
    Fiber_works [OF kv_writes_of_file(2) lstep.finalize] Fiber_works [OF kv_size(2) lstep.shrink]
    Fiber_works [OF kv_size(3) lstep.grow]
  by (simp_all add: ops_SetAttr_def ops_SetInodeFlags_def ops_SetXAttr_def ops_RemoveXAttr_def ops_CompleteReclaim_def
    ops_RegisterPendingDelete_def ops_CompletePendingDelete_def ops_AttachPrepared_def ops_FinalizeAttachedWrite_def
    ops_CommitShrink_def ops_CommitGrow_def P works_refl)

lemma create_own:
  assumes P: "op_env P = E" and n: "ValidateNameComponent name = Inr ()"
  shows "\<exists>ls. labelled R E c (snd (CreateNode P ctx p name mode rdev R c)) ls \<and> own ls"
  unfolding CreateNode_def P
  by (rule creation_own [where m = "\<lambda>i. create_txn E ctx i p name mode rdev", OF P kv_handlers(1) _ prod.collapse [symmetric]])
    (rule lstep.create [OF n])

lemma symlink_own:
  assumes P: "op_env P = E" and n: "ValidateNameComponent name = Inr ()" and l: "string_ok link"
  shows "\<exists>ls. labelled R E c (snd (Symlink P ctx p name link R c)) ls \<and> own ls"
  unfolding Symlink_def P n sum.case
  by (rule creation_own [where m = "\<lambda>i. symlink_txn E ctx i p name link", OF P kv_handlers(2) _ prod.collapse [symmetric]])
    (rule lstep.symlink [OF n l])

lemma serve_labelled:
  assumes P: "op_env P = E" and rq: "request_valid rq"
  shows "\<exists>ls. labelled R E c (serve P ctx rq R c) ls \<and> own ls"
proof -
  have none: "\<exists>ls. labelled R E c c ls \<and> own ls"
    by (rule works_own [OF works_refl]) simp
  have u: "\<And>r :: unit res. (\<exists>e. r = Inl e) \<or> r = Inr ()"
    by (metis old.unit.exhaust sum.exhaust)
  show ?thesis
  proof (cases rq)
    case (RCreate p name mode)
    then show ?thesis
      using none create_own [OF P] u [of "ValidateNameComponent name"] by (auto simp: Create_def)
  next
    case (RMkNod p name mode rdev)
    then show ?thesis
      using none create_own [OF P] u [of "ValidateNameComponent name"] by (auto simp: MkNod_def split: sum.splits)
  next
    case (RMkDir p name mode)
    then show ?thesis
      using none create_own [OF P] u [of "ValidateNameComponent name"] by (auto simp: MkDir_def)
  next
    case (RSymlink p name link)
    then show ?thesis
      using none symlink_own [OF P] u [of "ValidateNameComponent name"] rq by (auto simp: Symlink_def)
  qed (use rq in \<open>auto intro!: works_own simp: reads_work [OF P] changes_work [OF P] operations_work [OF P]\<close>)
qed

section \<open>A volume exists\<close>

lemma Sets_total: "\<exists>t'. tseq (map (\<lambda>(k, v). Set k v) kvs) (snap R d) t = (Ret (Inr ()), t') \<and> (has_writes t' \<longleftrightarrow> has_writes t \<or> kvs \<noteq> [])"
proof (induction kvs arbitrary: t)
  case (Cons kv kvs)
  obtain k x where kv: "kv = (k, x)"
    by fastforce
  show ?case
    using Cons.IH [of "after_write (CSet k x) t"] by (simp add: kv tbind_Inr snap_writes)
qed (simp add: treturn_def)

lemma new_volume:
  assumes "fresh E d" "d (K_Format (me_key E)) = None"
  shows "\<exists>d'. volume_run R E d' {2}"
proof -
  obtain root where root: "inode_SerializeTo (me_io E) (root_inode 0) = Inr root"
    using io.inode_rec.parse_ser [OF goodD(1) [OF root_ok(1)]] by blast
  have "Get (K_Format (me_key E)) (snap R d) (new_txn 0 ()) = (Ret (Inl kNotFound), after_read [K_Format (me_key E)] (new_txn 0 ()))"
    using assms(2) by (simp add: Get_NotFound)
  then have run: "format_txn E [] root (snap R d) (new_txn 0 ())
      = tseq (map (\<lambda>(k, v). Set k v) (initial_keys (me_key E) [] root)) (snap R d) (after_read [K_Format (me_key E)] (new_txn 0 ()))"
    by (simp add: format_txn_def tcase_eq)
  obtain t where "format_txn E [] root (snap R d) (new_txn 0 ()) = (Ret (Inr ()), t)" "has_writes t"
    using Sets_total [of "initial_keys (me_key E) [] root" d "after_read [K_Format (me_key E)] (new_txn 0 ())"] unfolding run
    by (auto simp: initial_keys_def)
  then have c: "commits R (format_txn E [] root) d (after t d)"
    unfolding commits_def by blast
  have "exec_single 0 (SIncr (next_ino E)) (after t d) = ((after t d)(next_ino E \<mapsto> (RString (to_string 2), None)), Reply 2)"
    using format_db(4) [OF c] parse_int_to_string [of 1] by (simp add: int_string_def)
  from lstep.alloc [OF this] show ?thesis
    using volume_run.allocate [OF volume_run.format [OF assms(1) root c]] by fastforce
qed

end

end
