(* ===== verification/ScanIteration.thy ===== *)
theory ScanIteration
  imports MetaAttrs
begin

text \<open>
  Complete iterations over a Redis hash. \<open>HSCAN\<close> returns a hash in pages; the server promises that a full iteration returns every
  field that is there from its start to its end. The first use of the promise is here: \<open>ReadFileMappingSnapshot\<close>, which collects
  the chunk map of a file page by page, returns the whole map, each chunk once.
\<close>

section \<open>The iteration promise\<close>

text \<open>\<open>misses\<close>: an iteration at \<open>cursor\<close> when \<open>n\<close> commands have been sent ends before \<open>b\<close> commands have been, without returning \<open>f\<close>.\<close>

inductive misses :: "redis \<Rightarrow> bytes \<Rightarrow> nat \<Rightarrow> bytes \<Rightarrow> nat \<Rightarrow> u64 \<Rightarrow> nat \<Rightarrow> bool" for R k batch f b where
  last: "\<lbrakk> n < b; r_hscan R n (r_db R n) k cursor batch = Reply (es, 0); f \<notin> fst ` set es \<rbrakk> \<Longrightarrow> misses R k batch f b cursor n"
| more: "\<lbrakk> n < b; r_hscan R n (r_db R n) k cursor batch = Reply (es, next_cursor); next_cursor \<noteq> 0; f \<notin> fst ` set es; n < m;
     misses R k batch f b next_cursor m \<rbrakk> \<Longrightarrow> misses R k batch f b cursor n"

text \<open>What Redis documents of \<open>SCAN\<close>: a full iteration misses no element that is there from its start to its end.\<close>

definition scan_promise :: "redis \<Rightarrow> bytes \<Rightarrow> bool" where
  "scan_promise R k \<longleftrightarrow> (\<forall>batch f b n. misses R k batch f b 0 n \<longrightarrow> (\<exists>j. n \<le> j \<and> j < b \<and> fmlookup (hash_at (r_db R j) k) f = None))"

text \<open>The reference server returns a hash in one page.\<close>

lemma mem_promise: "scan_promise (mem_redis d) k"
  unfolding scan_promise_def
proof (intro allI impI)
  fix batch f b n
  have "fmlookup (hash_at d k) f = None"
    if "r_hscan (mem_redis d) n (r_db (mem_redis d) n) k cursor batch = Reply (es, c)" "f \<notin> fst ` set es" for n cursor es c
    using that
    by (auto simp: mem_redis_def hash_at_def hash_reply_def sorted_list_of_fmap_def fmlookup_dom_iff sorted_list_of_fset.rep_eq image_image
        split: option.splits rval.splits prod.splits intro: ccontr)
  note page = this
  assume "misses (mem_redis d) k batch f b 0 n"
  then show "\<exists>j\<ge>n. j < b \<and> fmlookup (hash_at (r_db (mem_redis d) j) k) f = None"
    by cases (use page in auto)
qed

section \<open>The chunk map of a file\<close>

text \<open>A field of the chunk map and the mapping it stands for.\<close>

definition mapping_field :: "bytes \<Rightarrow> bytes \<Rightarrow> ChunkMapping \<Rightarrow> bool" where
  "mapping_field f v m \<longleftrightarrow> (\<exists>x. from_chars (2 ^ 64 - 1) f = Some (x, []) \<and> cm_index m = of_nat x \<and> ParseAttachedChunkID v = Inr (cm_chunk_id m))"

text \<open>\<open>chunk_map E d i ms\<close>: the list \<open>ms\<close> is the chunk map of the inode \<open>i\<close>, in the order of the indices, each index once.\<close>

definition chunk_map :: "meta_env \<Rightarrow> keyspace \<Rightarrow> u64 \<Rightarrow> ChunkMapping list \<Rightarrow> bool" where
  "chunk_map E d i ms \<longleftrightarrow> sorted (map cm_index ms) \<and> distinct (map cm_index ms)
     \<and> (\<forall>f v. fmlookup (hash_at d (K_ChunkRefs (me_key E) i)) f = Some v \<longrightarrow> (\<exists>m\<in>set ms. mapping_field f v m))
     \<and> (\<forall>m\<in>set ms. \<exists>f v. fmlookup (hash_at d (K_ChunkRefs (me_key E) i)) f = Some v \<and> mapping_field f v m)"

lemma parse_page_Inr: "parse_page page acc = Inr acc' \<Longrightarrow> \<exists>ms. acc' = acc @ ms \<and> list_all2 (\<lambda>p. mapping_field (fst p) (snd p)) page ms"
proof (induction page acc rule: parse_page.induct)
  case (2 index_field id_value page acc)
  then obtain x c where x: "from_chars (2 ^ 64 - 1) index_field = Some (x, [])" "ParseAttachedChunkID id_value = Inr c"
    and r: "parse_page page (acc @ [\<lparr>cm_index = of_nat x, cm_chunk_id = c\<rparr>]) = Inr acc'"
    by (auto simp: chk_Inr_iff split: option.splits if_splits)
  obtain ms where "acc' = (acc @ [\<lparr>cm_index = of_nat x, cm_chunk_id = c\<rparr>]) @ ms" "list_all2 (\<lambda>p. mapping_field (fst p) (snd p)) page ms"
    using "2.IH" [OF x(1) refl _ x(2) r] by auto
  then show ?case
    using x by (intro exI [of _ "\<lparr>cm_index = of_nat x, cm_chunk_id = c\<rparr> # ms"]) (auto simp: mapping_field_def [of index_field])
qed simp

lemma no_duplicate: "\<lbrakk> sorted (map cm_index ms); \<not> has_duplicate ms \<rbrakk> \<Longrightarrow> distinct (map cm_index ms)"
proof (induction ms rule: has_duplicate.induct)
  case (1 a b r)
  then have d: "distinct (map cm_index (b # r))" "cm_index a < cm_index b"
    by auto
  moreover have "cm_index b \<le> x" if "x \<in> set (map cm_index (b # r))" for x
    using "1.prems"(1) that by auto
  ultimately have "cm_index a \<notin> set (map cm_index (b # r))"
    by (meson linorder_not_less)
  then show ?case
    using d(1) by simp
qed simp_all

context meta_store
begin

lemma HScan_page:
  assumes "HScan k cursor count' (snap R d) t = (Ret (Inr (page, nc)), t')"
  shows "r_hscan R (Suc (clock t)) d k cursor count' = Reply (page, nc)" "clock t' = clock t + 2"
    "\<forall>p\<in>set page. fmlookup (hash_at d k) (fst p) = Some (snd p)"
proof -
  show r: "r_hscan R (Suc (clock t)) d k cursor count' = Reply (page, nc)" and "clock t' = clock t + 2"
    using assms by (auto simp: snap_HScan reply_res_def after_read_def split: if_splits reply.splits)
      (cases "r_hscan R (Suc (clock t)) d k cursor count'"; simp)+
  show "\<forall>p\<in>set page. fmlookup (hash_at d k) (fst p) = Some (snd p)"
    using hscan_law [where d = d and k = k and n = "Suc (clock t)" and c = cursor and m = count'] r
    by (fastforce simp: hash_reply_def hash_at_def split: option.splits rval.splits)
qed

lemma scan_mappings_map:
  assumes "scan_mappings n k cursor acc (snap R d) t = (Ret (Inr ms), t')"
  shows "\<exists>new. ms = acc @ new \<and> clock t < clock t'
    \<and> (\<forall>m\<in>set new. \<exists>f v. fmlookup (hash_at d k) f = Some v \<and> mapping_field f v m)
    \<and> (\<forall>f v. fmlookup (hash_at d k) f = Some v \<and> \<not> (\<exists>m\<in>set new. mapping_field f v m) \<longrightarrow> misses (snap R d) k 128 f (clock t') cursor (Suc (clock t)))"
  using assms
proof (induction n arbitrary: cursor acc t)
  case (Suc n)
  obtain page nc t1 acc1 where h: "HScan k cursor 128 (snap R d) t = (Ret (Inr (page, nc)), t1)" and p: "parse_page page acc = Inr acc1"
    and r: "(if nc \<noteq> 0 then scan_mappings n k nc acc1 else treturn (Inr acc1)) (snap R d) t1 = (Ret (Inr ms), t')"
    using Suc.prems by (auto simp: tbind_Inr tcheck_Inr)
  note H = HScan_page [OF h]
  obtain new where new: "acc1 = acc @ new" "list_all2 (\<lambda>p. mapping_field (fst p) (snd p)) page new"
    using parse_page_Inr [OF p] by blast
  have sound: "\<exists>f v. fmlookup (hash_at d k) f = Some v \<and> mapping_field f v m" if "m \<in> set new" for m
    using new(2) that H(3) unfolding list_all2_conv_all_nth in_set_conv_nth by (metis nth_mem)
  have found: "f \<notin> fst ` set page" if "fmlookup (hash_at d k) f = Some v" "\<not> (\<exists>m\<in>set new. mapping_field f v m)" for f v
  proof
    assume "f \<in> fst ` set page"
    then obtain j where "j < length page" "fst (page ! j) = f"
      by (auto simp: in_set_conv_nth)
    then show False
      using new(2) that H(3) by (auto simp: list_all2_conv_all_nth)
  qed
  show ?case
  proof (cases "nc = 0")
    case True
    then have "ms = acc @ new" "t' = t1"
      using r new(1) by (simp_all add: treturn_eq)
    moreover have "misses (snap R d) k 128 f (clock t1) cursor (Suc (clock t))" if "fmlookup (hash_at d k) f = Some v" "\<not> (\<exists>m\<in>set new. mapping_field f v m)" for f v
      using found [OF that] H True by (intro misses.last [where es = page]) simp_all
    ultimately show ?thesis
      using sound H(2) by (intro exI [of _ new]) auto
  next
    case False
    then have "scan_mappings n k nc acc1 (snap R d) t1 = (Ret (Inr ms), t')"
      using r by simp
    from Suc.IH [OF this] obtain new' where n': "ms = acc1 @ new'" "clock t1 < clock t'"
      "\<forall>m\<in>set new'. \<exists>f v. fmlookup (hash_at d k) f = Some v \<and> mapping_field f v m"
      "\<And>f v. \<lbrakk> fmlookup (hash_at d k) f = Some v; \<not> (\<exists>m\<in>set new'. mapping_field f v m) \<rbrakk> \<Longrightarrow> misses (snap R d) k 128 f (clock t') nc (Suc (clock t1))"
      by blast
    have "misses (snap R d) k 128 f (clock t') cursor (Suc (clock t))"
      if "fmlookup (hash_at d k) f = Some v" "\<not> (\<exists>m\<in>set (new @ new'). mapping_field f v m)" for f v
    proof (rule misses.more [where es = page and next_cursor = nc and m = "Suc (clock t1)"])
      show "f \<notin> fst ` set page"
        by (rule found [OF that(1)]) (use that(2) in auto)
      show "misses (snap R d) k 128 f (clock t') nc (Suc (clock t1))"
        by (rule n'(4) [OF that(1)]) (use that(2) in auto)
    qed (use H n'(2) False in simp_all)
    then show ?thesis
      using sound n' new(1) H(2) by (intro exI [of _ "new @ new'"]) auto
  qed
qed (simp add: treturn_eq)

text \<open>On a server that keeps the promise of an iteration the snapshot is the whole map.\<close>

lemma ReadFileMappingSnapshot_map:
  fixes t :: "'v kv_txn"
  assumes "scan_promise (snap R d) (K_ChunkRefs (me_key E) i)" "ReadFileMappingSnapshot E i (snap R d) t = (Ret (Inr fm), t')"
  shows "chunk_map E d i (fm_mappings fm)"
proof -
  obtain ms and t1 t2 :: "'v kv_txn" where s: "scan_mappings (me_fuel E) (K_ChunkRefs (me_key E) i) 0 [] (snap R d) t1 = (Ret (Inr ms), t2)"
    and fm: "fm_mappings fm = sort_key cm_index ms" "\<not> has_duplicate (sort_key cm_index ms)"
    using assms(2) by (auto simp: ReadFileMappingSnapshot_def Let_def tbind_Inr treturn_eq split: if_splits)
  obtain new where n: "ms = new" "\<forall>m\<in>set new. \<exists>f v. fmlookup (hash_at d (K_ChunkRefs (me_key E) i)) f = Some v \<and> mapping_field f v m"
    and all: "\<And>f v. \<lbrakk> fmlookup (hash_at d (K_ChunkRefs (me_key E) i)) f = Some v; \<not> (\<exists>m\<in>set new. mapping_field f v m) \<rbrakk>
      \<Longrightarrow> misses (snap R d) (K_ChunkRefs (me_key E) i) 128 f (clock t2) 0 (Suc (clock t1))"
    using scan_mappings_map [OF s] by auto
  have "\<exists>m\<in>set new. mapping_field f v m" if "fmlookup (hash_at d (K_ChunkRefs (me_key E) i)) f = Some v" for f v
    using all [OF that] assms(1) that unfolding scan_promise_def by fastforce
  then show ?thesis
    using n fm no_duplicate [of "sort_key cm_index ms"] by (auto simp: chunk_map_def)
qed

end

end
