(* ===== verification/HistoryServer.thy ===== *)
theory HistoryServer
  imports RedisMetaImpl
begin

text \<open>
  A server with a past and a future: the reference server with a given history of key spaces. An \<open>EXEC\<close> runs when no watched key has
  changed since it was watched, and is refused otherwise. It meets the laws of \<open>redis_server\<close> for every history, in particular for one that
  goes on with the effects of the client's own commands.

  \<open>steady\<close> programs run on it as on the constant server, as long as the history stands still.
\<close>

definition run_redis :: "(nat \<Rightarrow> keyspace) \<Rightarrow> redis" where
  "run_redis h = (mem_redis (h 0))\<lparr>r_db := h,
     r_exec := \<lambda>n ws. if \<forall>(k, m)\<in>set ws. \<forall>i\<in>set [m..<Suc n]. h i k = h n k then ExecReplies else ExecNil\<rparr>"

lemma run_sel [simp]:
  "r_db (run_redis h) = h" "r_link (run_redis h) n = Reply ()" "r_get (run_redis h) = r_get (mem_redis (h 0))"
  "r_lrange (run_redis h) = r_lrange (mem_redis (h 0))" "r_hget (run_redis h) = r_hget (mem_redis (h 0))" "r_hlen (run_redis h) = r_hlen (mem_redis (h 0))"
  "r_hgetall (run_redis h) = r_hgetall (mem_redis (h 0))" "r_hscan (run_redis h) = r_hscan (mem_redis (h 0))" "r_pttl (run_redis h) = r_pttl (mem_redis (h 0))"
  "r_apply (run_redis h) = exec_cmds" "r_mget (run_redis h) = r_mget (mem_redis (h 0))" "r_command (run_redis h) = exec_single"
  "r_now (run_redis h) n = n" "r_lost (run_redis h) n = False"
  "r_exec (run_redis h) n ws = (if \<forall>(k, m)\<in>set ws. \<forall>i\<in>set [m..<Suc n]. h i k = h n k then ExecReplies else ExecNil)"
  by (simp_all add: run_redis_def mem_redis_def)

interpretation hist: redis_server "run_redis h" for h
proof (unfold_locales, goal_cases)
  case (13 n ws k m i)
  then show ?case
    by (fastforce simp: executed_def split: if_splits)
qed (unfold run_sel(2-14), (rule mem.get_law mem.lrange_all mem.lrange_first mem.hget_law mem.hlen_law mem.hgetall_law mem.hscan_law mem.mget_law mem.pttl_law
    refl | erule mem.hgetall_local mem.hscan_local | rule mem.pttl_local, simp)+)

section \<open>Steady programs\<close>

definition steady :: "('v, 'a) tx \<Rightarrow> bool" where
  "steady m \<longleftrightarrow> (\<forall>d t o1 t'. m (mem_redis d) t = (o1, t') \<longrightarrow> clock t \<le> clock t'
     \<and> set (watched t') \<subseteq> set (watched t) \<union> {(k, n). clock t \<le> n}
     \<and> (\<forall>h. (\<forall>j. clock t \<le> j \<and> j \<le> clock t' \<longrightarrow> h j = d) \<longrightarrow> m (run_redis h) t = (o1, t')))"

lemma steadyD:
  assumes "steady m" "m (mem_redis d) t = (o1, t')"
  shows "clock t \<le> clock t'" "set (watched t') \<subseteq> set (watched t) \<union> {(k, n). clock t \<le> n}"
    "(\<And>j. \<lbrakk> clock t \<le> j; j \<le> clock t' \<rbrakk> \<Longrightarrow> h j = d) \<Longrightarrow> m (run_redis h) t = (o1, t')"
  using assms unfolding steady_def by blast+

named_theorems steady_intros

lemma steady_pure [steady_intros]: "steady (treturn r)" "steady (tnow E)"
  by (auto simp: steady_def treturn_def tnow_def)

lemma steady_tcase [steady_intros]:
  assumes m: "steady m" and f: "\<And>r. steady (f r)"
  shows "steady (tcase m f)"
  unfolding steady_def
proof (intro allI impI)
  fix d t o1 t'
  assume run: "tcase m f (mem_redis d) t = (o1, t')"
  obtain o0 t0 where m0: "m (mem_redis d) t = (o0, t0)"
    by fastforce
  note M = steadyD [OF m m0]
  show "clock t \<le> clock t' \<and> set (watched t') \<subseteq> set (watched t) \<union> {(k, n). clock t \<le> n}
     \<and> (\<forall>h. (\<forall>j. clock t \<le> j \<and> j \<le> clock t' \<longrightarrow> h j = d) \<longrightarrow> tcase m f (run_redis h) t = (o1, t'))"
  proof (cases o0)
    case (Ret r)
    then have f0: "f r (mem_redis d) t0 = (o1, t')"
      using run m0 by (simp add: tcase_def)
    note F = steadyD [OF f f0]
    have "tcase m f (run_redis h) t = (o1, t')" if "\<forall>j. clock t \<le> j \<and> j \<le> clock t' \<longrightarrow> h j = d" for h
      using M(1) M(3) [of h] F(1) F(3) [of h] that Ret by (simp add: tcase_def)
    then show ?thesis
      using M(1,2) F(1,2) by fastforce
  next
    case Throw
    then have "o1 = Throw" "t' = t0"
      using run m0 by (simp_all add: tcase_def)
    then show ?thesis
      using M Throw by (auto simp: tcase_def)
  qed
qed

lemma steady_tbind [steady_intros]: "\<lbrakk> steady m; \<And>x. steady (f x) \<rbrakk> \<Longrightarrow> steady (tbind m f)"
  unfolding tbind_def by (rule steady_tcase) (auto intro: steady_intros split: sum.splits)

lemma steady_tcheck [steady_intros]: "(\<And>x. steady (f x)) \<Longrightarrow> steady (tcheck r f)"
  by (auto simp: tcheck_def intro: steady_intros split: sum.splits)

lemma steady_if [steady_intros]: "\<lbrakk> c \<Longrightarrow> steady m; \<not> c \<Longrightarrow> steady m' \<rbrakk> \<Longrightarrow> steady (if c then m else m')"
  by simp

lemma steady_reads [steady_intros]: "steady (Get k)" "steady (HGet k f)"
  by (auto simp: steady_def Get_def HGetMode_def watched_read_def RunRedisCommand_def watch_def ask_def tick_def mem_redis_def run_redis_def
      split: if_splits reply.splits)

lemma steady_writes [steady_intros]: "steady (Set k v)" "steady (HSet k f v)" "steady (HDel k f)" "steady (IncrBy k i)" "steady (Del k)"
  by (auto simp: steady_def Set_def HSet_def HDel_def IncrBy_def Del_def queue_write_def RunRedisCommand_def tick_def split: reply.splits)

text \<open>A transaction during which nothing else happens; the history may go on with its effect.\<close>

lemma hist_Transact:
  assumes m: "steady m" and run: "m (mem_redis d) (new_txn (Suc (sent c)) v) = (Ret (Inr x), t)" and w: "has_writes t"
    and ok: "\<forall>r\<in>set (snd (exec_cmds (queue t) d)). r = Reply ()" and h: "\<And>j. \<lbrakk> sent c < j; j \<le> clock t \<rbrakk> \<Longrightarrow> h j = d"
  shows "Transact (Suc n) m (run_redis h) c v
    = (Inr x, \<lparr>sent = Suc (clock t), effects = effects c @ [(d, fst (exec_cmds (queue t) d))]\<rparr>, vars t)"
proof -
  have t: "clock t > sent c" "set (watched t) \<subseteq> {(k, n). sent c < n}"
    using steadyD(1,2) [OF m run] by (auto simp: new_txn_def)
  have "m (run_redis h) (new_txn (Suc (sent c)) v) = (Ret (Inr x), t)"
    by (rule steadyD(3) [OF m run]) (use h in \<open>auto simp: new_txn_def\<close>)
  moreover have "r_exec (run_redis h) (clock t) (watched t) = ExecReplies" "h (clock t) = d"
    using t h by (auto simp: less_Suc_eq_le)
  ultimately show ?thesis
    using w ok by (simp add: attempt_def Commit_def ValidateWriteExecReplies_def Let_def split_beta)
qed

section \<open>Creation\<close>

lemma steady_create [steady_intros]: "steady (create_txn E ctx i p name mode rdev)"
proof -
  have l: "steady (LookupInode E j)" "steady (SetInode E n)" "steady (AdjustInodeCount E x)" "steady (LinkEntry E p' name c q)" for j n x c q p'
    unfolding LookupInode_def SetInode_def AdjustInodeCount_def LinkEntry_def Let_def by (intro steady_intros)+
  have "steady (mt_AddEntry E p name c q)" for c q
    unfolding mt_AddEntry_def by (intro steady_intros l steady_tcase) (auto intro!: steady_intros l split: sum.splits)
  then show ?thesis
    unfolding create_txn_def by (intro steady_intros l)
qed

end
