(* ===== verification/MetaCalls.thy ===== *)
theory MetaCalls
  imports MetaSystem ScanIteration HistoryServer
begin

text \<open>
  Calls of the metadata engine against the file tree: what a call returns on a consistent volume, branch by branch, and
  that a call which succeeds acted on the tree at one moment as the POSIX operation of its name.
\<close>

section \<open>Outcomes\<close>

context meta_store
begin

lemma create_child_total:
  assumes "good parent" "i \<noteq> 0"
  shows "\<exists>c. create_child ctx now i parent p mode rdev = Inr c"
proof -
  obtain gid m where g: "ResolveCreateInheritance (ctx_gid ctx) (i_attr parent) mode = (gid, m)"
    by fastforce
  show ?thesis
    using create_inheritance [OF goodD(2) [OF assms(1)], of "new_inode i ((new_attr now i m (ctx_uid ctx) gid)\<lparr>a_rdev := rdev\<rparr>) p []" "ctx_umask ctx"] g
    by (auto simp: create_child_def new_inode_def)
qed

lemma LookupInode_run:
  assumes "typed E d" "\<not> has_writes t"
  shows "LookupInode E i (snap R d) t =
    (Ret (case inode_at E d i of None \<Rightarrow> Inl kNotFound | Some n \<Rightarrow> Inr n), after_read [K_Inode (me_key E) i] t)"
  using LookupInode_Inr [of i d t] LookupInode_NotFound [of i d t] typedD(1) [OF assms(1), of i] assms(2)
  by (auto split: option.splits)

lemma AddEntry_outcome:
  assumes d: "consistent E d" and p: "inode_at E d p = Some parent" "IsDir parent" and c: "good child" "i_parent_ino child = p"
    and name: "name \<noteq> []" and t: "\<not> has_writes t"
  shows "\<exists>t'. mt_AddEntry E p name child parent (snap R d) t =
    (Ret (chk (CheckDirectoryAdditionPolicy (i_attr parent)) (\<lambda>_. if entry_at E d p name = None then Inr () else Inl kAlreadyExists)), t')"
proof (cases "CheckDirectoryAdditionPolicy (i_attr parent)")
  case (Inl e)
  then show ?thesis
    using consistentD(4) [OF d p(1)] c by (auto simp: mt_AddEntry_def treturn_def)
next
  case (Inr u)
  note D = consistentD [OF d]
  have ids: "i_ino parent = p" "p \<noteq> 0" "a_ino (i_attr parent) = p" "i_ino child \<noteq> 0" "a_ino (i_attr child) = i_ino child"
    using D(4) [OF p(1)] c(1) by (auto simp: good_def inode_ok_def)
  show ?thesis
  proof (cases "entry_at E d p name")
    case None
    have n: "HGet (K_Directory (me_key E) p) name (snap R d) t = (Ret (Inl kNotFound), after_read [K_Directory (me_key E) p] t)"
      using None typedD [OF D(1)] t by (simp add: HGet_NotFound)
    have g: "IsDir (gain now child parent)" "i_ino (gain now child parent) = p" "a_ino (i_attr (gain now child parent)) = p" for now
      using p(2) ids by (simp_all add: gain_def)
    show ?thesis
      using None Inr ids c(2) p(2) name n
      by (auto simp: mt_AddEntry_def tcase_eq meta_simps snap_simps snap_writes AdjustInodeCount_def g tbind_Inr)
  next
    case (Some e)
    obtain v where v: "fmlookup (hash_at d (K_Directory (me_key E) p)) name = Some v" "entry_ParseFrom (me_io E) v = Inr e"
      using Some by (auto simp: entry_at_def decoded_Some)
    have h: "HGet (K_Directory (me_key E) p) name (snap R d) t = (Ret (Inr v), after_read [K_Directory (me_key E) p] t)"
      using v(1) t by (simp add: HGet_Inr)
    obtain n where "inode_at E d (e_ino e) = Some n"
      using tree_okD(6) [OF D(2), of p name "e_ino e"] Some by (auto simp: tree_at_def)
    then show ?thesis
      using Some Inr ids c(2) h v(2) LookupInode_run [OF D(1), of "after_read [K_Directory (me_key E) p] t" "e_ino e"] t
      by (auto simp: mt_AddEntry_def tcase_eq treturn_def)
  qed
qed

lemma create_outcome:
  fixes v :: 'v
  assumes d: "consistent E d" and i: "i \<noteq> 0" and name: "name \<noteq> []"
  shows "\<exists>c t. create_txn E ctx i p name mode rdev (snap R d) (new_txn n v) = (Ret (case inode_at E d p of
      None \<Rightarrow> Inl kNotFound
    | Some parent \<Rightarrow> if \<not> IsDir parent then Inl kNotDirectory
        else chk (CheckDirectoryAdditionPolicy (i_attr parent)) (\<lambda>_. if entry_at E d p name = None then Inr c else Inl kAlreadyExists)), t)"
proof (cases "inode_at E d p")
  case None
  then show ?thesis
    using LookupInode_run [OF consistentD(1) [OF d], of "new_txn n v" p] by (auto simp: create_txn_def tbind_run(2))
next
  case (Some parent)
  let ?t = "after_read [K_Inode (me_key E) p] (new_txn n v)"
  have lk: "tbind (LookupInode E p) f (snap R d) (new_txn n v) = f parent (snap R d) ?t" for f :: "SwordFsInode \<Rightarrow> ('v, SwordFsInode) tx"
    by (rule tbind_run(1)) (use LookupInode_run [OF consistentD(1) [OF d], of "new_txn n v" p] Some in simp)
  show ?thesis
  proof (cases "IsDir parent")
    case False
    then show ?thesis
      using Some by (simp add: create_txn_def lk treturn_def)
  next
    case True
    obtain c where c: "create_child ctx (me_now E (clock ?t)) i parent p mode rdev = Inr c"
      using create_child_total [OF good_at [OF d Some] i] by blast
    note g = create_child_good [OF good_at [OF d Some] i c]
    obtain t' where "mt_AddEntry E p name c parent (snap R d) ?t =
      (Ret (chk (CheckDirectoryAdditionPolicy (i_attr parent)) (\<lambda>_. if entry_at E d p name = None then Inr () else Inl kAlreadyExists)), t')"
      using AddEntry_outcome [OF d Some True g(1,3) name, of ?t] by auto
    moreover have "create_txn E ctx i p name mode rdev (snap R d) (new_txn n v) = tbind (mt_AddEntry E p name c parent) (\<lambda>_. treturn (Inr c)) (snap R d) ?t"
      unfolding create_txn_def lk using c by (simp add: True tbind_run(1) [where m = "tnow E", OF tnow_def])
    ultimately show ?thesis
      using Some True
      by (intro exI [of _ c] exI [of _ t']) (auto simp: tbind_def tcase_def treturn_def chk_def split: sum.splits)
  qed
qed

end

section \<open>One moment of a call\<close>

text \<open>Between \<open>c\<close> and \<open>c'\<close> the call changed the file tree at one moment as \<open>Q\<close> says, by its last write or, where the tree is as it
  should be already, without one.\<close>

definition acted :: "redis \<Rightarrow> meta_env \<Rightarrow> client \<Rightarrow> client \<Rightarrow> (tree \<Rightarrow> tree \<Rightarrow> bool) \<Rightarrow> bool" where
  "acted R E c c' Q \<longleftrightarrow> (\<exists>i d'. sent c \<le> i \<and> i < sent c' \<and> consistent E d' \<and> Q (tree_at E (r_db R i)) (tree_at E d')
     \<and> (effects c' = effects c \<and> d' = r_db R i \<or> (\<exists>before. effects c' = effects c @ before @ [(r_db R i, d')])))"

lemma client_Incr_sent: "client_Incr k R c = (r, c') \<Longrightarrow> sent c \<le> sent c'"
  by (auto simp: client_Incr_def mutate_def Let_def split: prod.splits reply.splits if_splits)

lemma acted_mono: "\<lbrakk> acted R E c c' Q; \<And>T T'. Q T T' \<Longrightarrow> Q' T T' \<rbrakk> \<Longrightarrow> acted R E c c' Q'"
  unfolding acted_def by blast

text \<open>The namespace is in order at every moment of the run: what every reachable volume has.\<close>

definition sound_server :: "redis \<Rightarrow> meta_env \<Rightarrow> bool" where
  "sound_server R E \<longleftrightarrow> (\<forall>i. consistent E (r_db R i) \<and> limits E (r_db R i))"

context meta_store
begin

lemma snap_store: "meta_store (snap R d) E"
proof -
  have "redis_server (snap R d)"
    by (unfold_locales; unfold snap_sel)
      (rule get_law lrange_all lrange_first hget_law hlen_law hgetall_law hscan_law pttl_law apply_law mget_law command_law refl
        | erule hgetall_local hscan_local | rule pttl_local, simp)+
  then show ?thesis
    by (simp add: meta_store_def io.folly_cursor_axioms keys.key_schema_axioms)
qed

lemma unwritten:
  assumes "kv_prog (snap R d) m" "m (snap R d) (new_txn n v) = (o1, t)" "\<not> has_writes t"
  shows "after t d = d"
  using kv_progD(1) [OF assms(1,2)] assms(3) by (auto simp: grows_def after_def exec_cmds.simps)

lemma Transact_acted:
  assumes kv: "kv_prog R m" "\<And>d. kv_prog (snap R d) m" and run: "TransactFromFiber P m R c = (Inr x, c')"
    and ref: "\<And>i n v t. m (snap R (r_db R i)) (new_txn n v) = (Ret (Inr x), t)
      \<Longrightarrow> consistent E (after t (r_db R i)) \<and> Q (tree_at E (r_db R i)) (tree_at E (after t (r_db R i)))"
  shows "acted R E c c' Q"
proof -
  obtain v' where "Transact (op_attempts P) m R c () = (Inr x, c', v')"
    using run by (auto simp: TransactFromFiber_def RunTransact_def split: prod.splits)
  from Transact_ok [OF kv(1) this] obtain i j v t where j: "sent c \<le> j" "j < sent c'"
    and m: "m (snap R (r_db R j)) (new_txn i v) = (Ret (Inr x), t)"
    and e: "effects c' = effects c @ (if has_writes t then [(r_db R j, after t (r_db R j))] else [])"
    unfolding after_def by blast
  show ?thesis
    unfolding acted_def
    using ref [OF m] j e unwritten [OF kv(2) m]
    by (intro exI [of _ j] exI [of _ "after t (r_db R j)"]) (auto intro: exI [of _ "[]"])
qed

lemma Rename_acted:
  assumes P: "op_env P = E" and db: "sound_server R E" and run: "Rename P ctx p n q m flags R c = (Inr (), c')"
  shows "acted R E c c' (\<lambda>T T'. t_posix_rename p n q m (HasRenameFlag flags kNoReplace) (HasRenameFlag flags kExchange) T = Some T')"
proof -
  have names: "ValidateNameComponent n = Inr ()" "ValidateNameComponent m = Inr ()"
    and run: "TransactFromFiber P (rename_txn E ctx p n q m (HasRenameFlag flags kNoReplace) (HasRenameFlag flags kExchange)) R c = (Inr (), c')"
    using run P by (auto simp: Rename_def split: sum.splits if_splits)
  show ?thesis
    by (rule Transact_acted [OF kv_handlers(5) meta_store.kv_handlers(5) [OF snap_store] run])
      (use db names in \<open>auto simp: sound_server_def dest!: rename_refines [rotated -1]\<close>)
qed

lemma Unlink_acted:
  assumes P: "op_env P = E" and db: "sound_server R E" and run: "Unlink P ctx p name x R c = (Inr (), c')"
  shows "acted R E c c' (\<lambda>T T'. \<exists>f. ent T p name = Some f \<and> kind T f = Some False \<and> (x = None \<or> x = Some f) \<and> T' = t_unlink p name f T)"
proof -
  have run: "TransactFromFiber P (unlink_txn E ctx p name x) R c = (Inr (), c')"
    using run P by (auto simp: Unlink_def split: sum.splits if_splits)
  show ?thesis
    by (rule Transact_acted [OF kv_handlers(3) meta_store.kv_handlers(3) [OF snap_store] run])
      (use db in \<open>auto simp: sound_server_def dest!: unlink_refines [rotated -1]\<close>)
qed

lemma RmDir_acted:
  assumes P: "op_env P = E" and db: "sound_server R E" and run: "RmDir P ctx p name R c = (Inr (), c')"
  shows "acted R E c c' (\<lambda>T T'. \<exists>f. ent T p name = Some f \<and> kind T f = Some True \<and> (\<forall>m. ent T f m = None) \<and> T' = t_rmdir p name f T)"
proof -
  have run: "TransactFromFiber P (rmdir_txn E ctx p name) R c = (Inr (), c')"
    using run P by (auto simp: RmDir_def split: sum.splits if_splits)
  show ?thesis
    by (rule Transact_acted [OF kv_handlers(4) meta_store.kv_handlers(4) [OF snap_store] run])
      (use db in \<open>auto simp: sound_server_def dest!: rmdir_refines [rotated -1]\<close>)
qed

lemma Link_acted:
  assumes P: "op_env P = E" and db: "sound_server R E" and run: "Link P i p name R c = (Inr n, c')"
  shows "acted R E c c' (\<lambda>T T'. kind T i = Some False \<and> T' = t_link p name i T)"
proof -
  have name: "ValidateNameComponent name = Inr ()" and run: "TransactFromFiber P (link_txn E i p name) R c = (Inr n, c')"
    using run P by (auto simp: Link_def split: sum.splits)
  show ?thesis
    by (rule Transact_acted [OF kv_handlers(6) meta_store.kv_handlers(6) [OF snap_store] run])
      (use db name in \<open>auto simp: sound_server_def dest!: link_refines [rotated -1]\<close>)
qed

end

section \<open>Creation\<close>

text \<open>What the other clients do to the volume between two commands of a call that holds the allocated number \<open>i\<close>: any steps of the system, except
  that they use only numbers of their own (as \<open>own\<close> says of every call).\<close>

inductive others :: "redis \<Rightarrow> meta_env \<Rightarrow> u64 \<Rightarrow> keyspace \<Rightarrow> u64 set \<Rightarrow> keyspace \<Rightarrow> u64 set \<Rightarrow> bool" for R E i d0 U0 where
  start: "others R E i d0 U0 d0 U0"
| allocate: "\<lbrakk> others R E i d0 U0 d U; lstep R E (Alloc k) d d' \<rbrakk> \<Longrightarrow> others R E i d0 U0 d' (insert k U)"
| make: "\<lbrakk> others R E i d0 U0 d U; limits E d; k \<in> U; k \<noteq> i; lstep R E (Make k) d d' \<rbrakk> \<Longrightarrow> others R E i d0 U0 d' (U - {k})"
| work: "\<lbrakk> others R E i d0 U0 d U; limits E d; lstep R E Work d d' \<rbrakk> \<Longrightarrow> others R E i d0 U0 d' U"
| other: "\<lbrakk> others R E i d0 U0 d U; same_names E d d'; d' (next_ino E) = d (next_ino E) \<rbrakk> \<Longrightarrow> others R E i d0 U0 d' U"

lemma others_run: "\<lbrakk> others R E i d0 U0 d U; volume_run R E d0 U0; i \<in> U0 \<rbrakk> \<Longrightarrow> volume_run R E d U \<and> i \<in> U"
  by (induction rule: others.induct) (auto intro: volume_run.intros(2-))

lemma ResolveCreateInheritance_kind: "ResolveCreateInheritance gid attr mode = (g, m) \<Longrightarrow> S_ISDIR m = S_ISDIR mode"
  by (auto simp: ResolveCreateInheritance_def S_ISDIR_def flag_defs bit.conj_disj_distrib2 split: if_splits)

context meta_store
begin

lemma create_kind:
  assumes "consistent E d" "i \<noteq> 0" "create_txn E ctx i p name mode rdev (snap R d) (new_txn k v) = (Ret (Inr n), t)"
  shows "is_dir (tree_at E d) p" "IsDir n = S_ISDIR mode"
proof -
  obtain parent now where p: "inode_at E d p = Some parent" "IsDir parent" and c: "create_child ctx now i parent p mode rdev = Inr n"
    using assms(3) by (auto simp: create_txn_def tbind_Inr tcheck_Inr treturn_eq meta_simps split: if_splits)
  then show "is_dir (tree_at E d) p"
    by simp
  obtain gid m where g: "ResolveCreateInheritance (ctx_gid ctx) (i_attr parent) mode = (gid, m)"
    by fastforce
  define a where "a = (new_attr now i m (ctx_uid ctx) gid)\<lparr>a_rdev := rdev\<rparr>"
  have run: "ApplyPosixAclCreateInheritance parent (ctx_umask ctx) (new_inode i a p []) = Inr n"
    using c g by (simp add: create_child_def a_def)
  have ok: "inode_ok (new_inode i a p [])" "i_xattrs (new_inode i a p []) = []"
    using new_inode_ok [where i = i and link = "[]" and now = now and mode = m and uid = "ctx_uid ctx" and gid = gid and rd = rdev
        and sz = "a_size (new_attr now i m (ctx_uid ctx) gid)" and p = p] assms(2)
    by (simp_all add: a_def string_ok_def new_inode_def)
  show "IsDir n = S_ISDIR mode"
    using inherit_good(2) [OF good_at [OF assms(1) p(1)] ok run] ResolveCreateInheritance_kind [OF g]
    by (simp add: IsDir_def new_inode_def a_def new_attr_def attr0_def)
qed

text \<open>The number comes first; the entry is added by the transaction.\<close>

lemma CreateNode_acted:
  assumes P: "op_env P = E" and name: "ValidateNameComponent name = Inr ()"
    and al: "AllocateInode P R c = (Inr i, c1)" "effects c1 = effects c @ [(d, d1)]" and vol: "volume_run R E d U"
    and env: "\<And>j. \<lbrakk> sent c1 \<le> j; j < sent c' \<rbrakk> \<Longrightarrow> limits E (r_db R j) \<and> (\<exists>V. others R E i d1 (insert i U) (r_db R j) V)"
    and run: "CreateNode P ctx p name mode rdev R c = (Inr n, c')"
  shows "i_ino n = i \<and> IsDir n = S_ISDIR mode \<and> acted R E c c' (\<lambda>T T'. is_dir T p \<and> ent T p name = None \<and> kind T i = None \<and> T' = t_add p name i (IsDir n) T)"
proof -
  have run: "TransactFromFiber P (create_txn E ctx i p name mode rdev) R c1 = (Inr n, c')"
    using run P al by (simp add: CreateNode_def)
  obtain v' where "Transact (op_attempts P) (create_txn E ctx i p name mode rdev) R c1 () = (Inr n, c', v')"
    using run by (auto simp: TransactFromFiber_def RunTransact_def split: prod.splits)
  from Transact_ok [OF kv_handlers(1) this] obtain k j and v :: unit and t where j: "sent c1 \<le> j" "j < sent c'"
    and m: "create_txn E ctx i p name mode rdev (snap R (r_db R j)) (new_txn k v) = (Ret (Inr n), t)"
    and e: "effects c' = effects c1 @ (if has_writes t then [(r_db R j, after t (r_db R j))] else [])"
    unfolding after_def by blast
  have "labelled R E c c1 [Alloc i]"
    using AllocateInode_labelled [OF al(1) P] by simp
  then have "volume_run R E d1 (insert i U)"
    using al(2) volume_run.allocate [OF vol] by (simp add: labelled_def list_all2_Cons1)
  then obtain V where V: "volume_run R E (r_db R j) V" "i \<in> V"
    using env [OF j] others_run by blast
  have d: "consistent E (r_db R j)" "inode_at E (r_db R j) i = None" "i \<noteq> 0"
    using volume_invariant [OF V(1)] V(2) by (auto simp: counter_ok_def)
  note r = create_refines [OF d(1) conjunct1 [OF env [OF j]] d(2,3) name m]
  have c1: "sent c \<le> sent c1"
    using al(1) by (auto simp: AllocateInode_def dest: client_Incr_sent)
  then show ?thesis
    using r j e d(2) create_kind [OF d(1,3) m] al(2)
    by (auto simp: acted_def intro!: exI [of _ j] exI [of _ "after t (r_db R j)"])
qed

end

section \<open>Reclaim\<close>

text \<open>A file without names.\<close>

definition unlinked :: "meta_env \<Rightarrow> keyspace \<Rightarrow> u64 \<Rightarrow> bool" where
  "unlinked E d i \<longleftrightarrow> kind (tree_at E d) i = Some False \<and> links (tree_at E d) i = {}"

text \<open>Reclaiming \<open>i\<close> leaves the tree and the chunk maps alone, or removes a file without names and, in the same step, replaces its chunk map
  by a record of the cleanup: what the encoder makes of exactly the chunks the map held.\<close>

definition file_chunks :: "meta_env \<Rightarrow> keyspace \<Rightarrow> u64 \<Rightarrow> ChunkMapping list \<Rightarrow> bool" where
  "file_chunks E d i ms \<longleftrightarrow> (case inode_at E d i of None \<Rightarrow> False | Some n \<Rightarrow> if IsRegular n then chunk_map E d i ms else ms = [])"

definition reclaim_step :: "meta_env \<Rightarrow> u64 \<Rightarrow> keyspace \<Rightarrow> keyspace \<Rightarrow> bool" where
  "reclaim_step E i d d' \<longleftrightarrow> consistent E d' \<and> (if unlinked E d i
     then tree_at E d' = t_reclaim i (tree_at E d) \<and> d' (K_ChunkRefs (me_key E) i) = None
       \<and> (\<exists>enc ms work v. me_encoder E = Some enc \<and> file_chunks E d i ms \<and> EncodeDetachedReclaim enc i ms = Inr work
         \<and> reclaim_SerializeTo (me_io E) work = Inr v \<and> fmlookup (hash_at d' (K_Reclaims (me_key E))) (number i) = Some v)
     else tree_at E d' = tree_at E d \<and> d' (K_ChunkRefs (me_key E) i) = d (K_ChunkRefs (me_key E) i))
     \<and> (\<forall>j. j \<noteq> i \<longrightarrow> d' (K_ChunkRefs (me_key E) j) = d (K_ChunkRefs (me_key E) j))"

context meta_store
begin

lemma reclaim_stepI:
  fixes v :: 'v
  assumes d: "consistent E d" "is_hash d (K_Reclaims (me_key E))" and scan: "scan_promise (snap R d) (K_ChunkRefs (me_key E) i)"
    and run: "mt_PrepareReclaim E i (snap R d) (new_txn n0 v) = (Ret (Inr w), t)"
  shows "reclaim_step E i d (after t d)" "has_writes t"
proof -
  note c = PrepareReclaim_consistent [OF d(1) new_txn_fields(1) run, folded after_def]
  note r = PrepareReclaim_run [OF run]
  show "reclaim_step E i d (after t d)"
  proof (cases w)
    case None
    then obtain ys where "case inode_at E d i of None \<Rightarrow> True | Some n \<Rightarrow> IsDir n \<or> i_nlink n \<noteq> 0"
      and q: "queue t = CHDel (K_Orphans (me_key E)) (number i) # ys" and ys: "set ys \<subseteq> {CHDel (K_Reclaims (me_key E)) (number i)}"
      using r by (auto simp: comp_def split: option.splits)
    then have "kind (tree_at E d) i \<noteq> Some False \<or> cnt (tree_at E d) i \<noteq> 0"
      by (auto simp: tree_at_def unat_eq_zero split: option.splits)
    then have "\<not> unlinked E d i"
      using tree_okD(7) [OF consistentD(2) [OF d(1)], of i] by (auto simp: unlinked_def)
    moreover have "after t d (K_ChunkRefs (me_key E) j) = d (K_ChunkRefs (me_key E) j)" for j
      unfolding after_def by (rule exec_cmds_frame) (use ys in \<open>auto simp: q cmd_key_def\<close>)
    ultimately show ?thesis
      using c None by (simp add: reclaim_step_def)
  next
    case (Some work)
    then obtain n ms s where e: "\<exists>enc. me_encoder E = Some enc \<and> EncodeDetachedReclaim enc i ms = Inr work" "reclaim_SerializeTo (me_io E) work = Inr s"
      and n: "inode_at E d i = Some n" "\<not> IsRegular n \<longrightarrow> ms = []"
        "IsRegular n \<longrightarrow> (\<exists>fm. \<exists>t1 t2 :: 'v kv_txn. ReadFileMappingSnapshot E i (snap R d) t1 = (Ret (Inr fm), t2) \<and> ms = fm_mappings fm)"
      and "queue t = queue (new_txn n0 v) @ map (conc E) [MDelInode i, MSide (CDel (K_ChunkRefs (me_key E) i)), MUnorphan i,
             MSide (CHSet (K_Reclaims (me_key E)) (number i) s)]"
      using r unfolding Some option.case by blast
    then have q: "queue t = [CDel (K_Inode (me_key E) i), CDel (K_ChunkRefs (me_key E) i), CHDel (K_Orphans (me_key E)) (number i), CHSet (K_Reclaims (me_key E)) (number i) s]"
      by simp
    have ms: "file_chunks E d i ms"
      using n ReadFileMappingSnapshot_map [OF scan] by (auto simp: file_chunks_def)
    have "fmlookup (hash_at (after t d) (K_Reclaims (me_key E))) (number i) = Some s"
      using d(2) unfolding after_def q
      by (auto simp: exec_cmds.simps exec_cmd.simps hash_at_def is_hash_def split_beta split: option.splits rval.splits)
    moreover have "after t d (K_ChunkRefs (me_key E) i) = None"
      unfolding after_def q
      by (auto simp: exec_cmds.simps exec_cmd.simps split_beta split: option.splits rval.splits)
    moreover have "after t d (K_ChunkRefs (me_key E) j) = d (K_ChunkRefs (me_key E) j)" if "j \<noteq> i" for j
      unfolding after_def by (rule exec_cmds_frame) (use that in \<open>auto simp: q cmd_key_def\<close>)
    ultimately show ?thesis
      using c Some e ms by (auto simp: reclaim_step_def unlinked_def)
  qed
  have "queue t \<noteq> []"
    using r by (auto split: option.splits)
  then show "has_writes t"
    using kv_progD(1) [OF meta_store.kv_reclaim(2) [OF snap_store] run] by (auto simp: grows_def)
qed

lemma linked:
  assumes "consistent E d" and "inode_at E d i = None \<or> (\<exists>n. inode_at E d i = Some n \<and> (IsDir n \<or> i_nlink n \<noteq> 0))"
  shows "\<not> unlinked E d i"
proof -
  have "kind (tree_at E d) i \<noteq> Some False \<or> cnt (tree_at E d) i \<noteq> 0"
    using assms(2) by (auto simp: tree_at_def unat_eq_zero split: option.splits)
  then show ?thesis
    using tree_okD(7) [OF consistentD(2) [OF assms(1)], of i] by (auto simp: unlinked_def)
qed

lemma reclaimed_gone: "\<lbrakk> reclaim_step E i d d'; consistent E d \<rbrakk> \<Longrightarrow> \<not> unlinked E d' i"
  unfolding reclaim_step_def unlinked_def by (metis kinds(6) fun_upd_same option.distinct(1))

text \<open>The writes of a part of the call are reclaim steps; \<open>seen\<close> says that at a moment of it nothing was left to reclaim.\<close>

definition reclaims :: "u64 \<Rightarrow> client \<Rightarrow> client \<Rightarrow> bool \<Rightarrow> bool" where
  "reclaims i c c' seen \<longleftrightarrow> sent c \<le> sent c' \<and> (\<exists>es. effects c' = effects c @ es \<and> (\<forall>(d, d')\<in>set es. reclaim_step E i d d')
     \<and> (seen \<longrightarrow> (\<exists>d. ((\<exists>j. sent c \<le> j \<and> j < sent c' \<and> d = r_db R j) \<or> d \<in> snd ` set es) \<and> \<not> unlinked E d i)))"

lemma reclaims_trans:
  assumes "reclaims i c c1 a" "reclaims i c1 c2 b"
  shows "reclaims i c c2 b"
proof -
  obtain es fs where "effects c1 = effects c @ es" "\<forall>(d, d')\<in>set es. reclaim_step E i d d'" "sent c \<le> sent c1"
      "effects c2 = effects c1 @ fs" "\<forall>(d, d')\<in>set fs. reclaim_step E i d d'" "sent c1 \<le> sent c2"
    and f: "b \<longrightarrow> (\<exists>d. ((\<exists>j. sent c1 \<le> j \<and> j < sent c2 \<and> d = r_db R j) \<or> d \<in> snd ` set fs) \<and> \<not> unlinked E d i)"
    using assms unfolding reclaims_def by blast
  then show ?thesis
    unfolding reclaims_def by (intro conjI exI [of _ "es @ fs"]) (auto intro: le_trans)
qed

lemma attempt_reclaims:
  assumes P: "op_env P = E" and db: "sound_server R E" "\<And>j. is_hash (r_db R j) (K_Reclaims (me_key E))"
      "\<And>j. scan_promise (snap R (r_db R j)) (K_ChunkRefs (me_key E) i)"
    and run: "PrepareReclaimAttempt P i R c = (st, c')"
  shows "reclaims i c c' (st = Inr ())"
proof -
  obtain r where r: "TransactFromFiber P (mt_PrepareReclaim E i) R c = (r, c')" "st = Inr () \<longrightarrow> (\<exists>w. r = Inr w)"
    using run P by (auto simp: PrepareReclaimAttempt_def split: prod.splits sum.splits)
  obtain v' where "Transact (op_attempts P) (mt_PrepareReclaim E i) R c () = (r, c', v')"
    using r(1) by (auto simp: TransactFromFiber_def RunTransact_def split: prod.splits)
  from Transact_serial [OF kv_reclaim(2) this] obtain es
    where es: "serial (mt_PrepareReclaim E i :: (unit, ReclaimWork option) tx) R c c' r es" and le: "sent c \<le> sent c'"
    by blast
  have step: "\<exists>d'. es = [(r_db R m, d')] \<and> reclaim_step E i (r_db R m) d' \<and> \<not> unlinked E d' i"
    if at: "ran_at (mt_PrepareReclaim E i) R v (r_db R m) x es" for v :: unit and m x
  proof -
    obtain n t where t: "mt_PrepareReclaim E i (snap R (r_db R m)) (new_txn n v) = (Ret (Inr x), t)"
      "es = (if has_writes t then [(r_db R m, after t (r_db R m))] else [])"
      using at unfolding ran_at_def after_def by blast
    have d: "consistent E (r_db R m)"
      using db(1) by (simp add: sound_server_def)
    show ?thesis
      using reclaim_stepI [OF d db(2,3) t(1)] reclaimed_gone [OF _ d] t(2) by simp
  qed
  have all: "\<forall>(d, d')\<in>set es. reclaim_step E i d d'"
  proof (cases "es = []")
    case False
    then obtain v :: unit and x m where "ran_at (mt_PrepareReclaim E i) R v (r_db R m) x es"
      using es unfolding serial_def by blast
    from step [OF this] show ?thesis
      by auto
  qed simp
  have "\<exists>d. d \<in> snd ` set es \<and> \<not> unlinked E d i" if ok: "st = Inr ()"
  proof -
    obtain v :: unit and w m where "ran_at (mt_PrepareReclaim E i) R v (r_db R m) w es"
      using es r(2) ok unfolding serial_def by blast
    from step [OF this] show ?thesis
      by auto
  qed
  then show ?thesis
    using es all le unfolding reclaims_def serial_def by blast
qed

lemma reconcile_reclaims:
  assumes P: "op_env P = E" and db: "sound_server R E" "\<And>j. is_hash (r_db R j) (K_Reclaims (me_key E))"
      "\<And>j. scan_promise (snap R (r_db R j)) (K_ChunkRefs (me_key E) i)"
    and run: "reconcile n (PrepareReclaimAttempt P i) (ops_GetInode P i) ambiguous R c = (r, c')" "0 < n \<or> ambiguous \<noteq> Inr ()"
  shows "reclaims i c c' (r = Inr ())"
  using run
proof (induction n arbitrary: ambiguous c)
  case 0
  then show ?case
    by (auto simp: reclaims_def)
next
  case (Suc n)
  obtain st c1 where at: "PrepareReclaimAttempt P i R c = (st, c1)"
    by fastforce
  obtain g c2 where g: "ops_GetInode P i R c1 = (g, c2)"
    by fastforce
  note a = attempt_reclaims [OF P db at]
  have d: "consistent E (r_db R j)" for j
    using db(1) by (simp add: sound_server_def)
  have c2: "c2 = c1\<lparr>sent := Suc (sent c1)\<rparr>"
    using g P by (auto simp: ops_GetInode_def split: prod.splits sum.splits dest: client_Get_client)
  have look: "reclaims i c1 c2 (g = Inl kNotFound \<or> (\<exists>inode. g = Inr inode \<and> i_nlink inode \<noteq> 0))"
  proof -
    have "\<not> unlinked E (r_db R (sent c1)) i" if "g = Inl kNotFound \<or> (\<exists>inode. g = Inr inode \<and> i_nlink inode \<noteq> 0)"
    proof (rule linked [OF d])
      show "inode_at E (r_db R (sent c1)) i = None \<or> (\<exists>n. inode_at E (r_db R (sent c1)) i = Some n \<and> (IsDir n \<or> i_nlink n \<noteq> 0))"
        using g that P by (auto simp: ops_GetInode_def inode_at_def decoded_Some str_at_None split: prod.splits sum.splits
            dest!: client_Get_NotFound client_Get_Inr)
    qed
    then show ?thesis
      unfolding reclaims_def by (intro conjI exI [of _ "[]"]) (auto simp: c2)
  qed
  note l = reclaims_trans [OF a look]
  show ?case
  proof (cases "st = Inl kOutcomeUnknown")
    case False
    then show ?thesis
      using Suc.prems(1) a at by simp
  next
    case True
    show ?thesis
    proof (cases g)
      case (Inl e)
      then show ?thesis
        using Suc.prems(1) at g True l by (auto split: if_splits simp: reclaims_def)
    next
      case (Inr inode)
      show ?thesis
      proof (cases "i_nlink inode = 0")
        case True
        then have "reclaims i c2 c' (r = Inr ())"
          using Suc at g Inr \<open>st = _\<close> by (intro Suc.IH [of st]) simp_all
        then show ?thesis
          by (rule reclaims_trans [OF l])
      next
        case False
        then show ?thesis
          using Suc.prems(1) at g Inr l \<open>st = _\<close> by simp
      qed
    qed
  qed
qed

lemma PrepareReclaim_reclaims:
  assumes "op_env P = E" "sound_server R E" "\<And>j. is_hash (r_db R j) (K_Reclaims (me_key E))"
      "\<And>j. scan_promise (snap R (r_db R j)) (K_ChunkRefs (me_key E) i)" "ops_PrepareReclaim P i R c = (r, c')"
  shows "reclaims i c c' (r = Inr ())"
proof (cases "op_reclaim_attempts P = 0")
  case True
  then show ?thesis
    using assms(5) by (auto simp: ops_PrepareReclaim_def RunReclaimWithOutcomeReconciliation_def reclaims_def)
next
  case False
  then show ?thesis
    using reconcile_reclaims [OF assms(1-4)] assms(5) by (simp add: ops_PrepareReclaim_def RunReclaimWithOutcomeReconciliation_def)
qed

end

section \<open>A small volume\<close>

text \<open>A root directory with one empty file, \<open>a\<close>; a second file, with one chunk, has lost its name.\<close>

definition ex_entry_name :: bytes where
  "ex_entry_name = ascii ''a''"

definition ex_top :: SwordFsInode where
  "ex_top = root_inode 0"

definition ex_named :: SwordFsInode where
  "ex_named = new_inode 2 (new_attr 0 2 (S_IFREG OR 0x1A4) 0 0) 1 []"

definition ex_nameless :: SwordFsInode where
  "ex_nameless = set_nlink 0 (new_inode 3 (new_attr 0 3 (S_IFREG OR 0x1A4) 0 0) 1 [])"

definition ex_encoder :: encoder where
  "ex_encoder = \<lparr>EncodeDetachedDelete = \<lambda>_ _. Inl kInternal, EncodeDetachedReclaim = \<lambda>i ms. Inr \<lparr>rw_ino = i, rw_payload = 0 # map (\<lambda>m. ucast (cm_chunk_id m)) ms\<rparr>\<rparr>"

definition ex_env :: meta_env where
  "ex_env = local_env 0 (ascii ''v'') (\<lambda>_. 0) 4096 (Some ex_encoder) 8"

definition ex_engine :: meta_ops where
  "ex_engine = (new_meta_ops ex_env ex_config)\<lparr>op_env := ex_env\<rparr>"

definition ex_tree_db :: keyspace where
  "ex_tree_db = [K_Inode (me_key ex_env) 1 \<mapsto> (RString (get_res (inode_SerializeTo le_io ex_top)), None),
     K_Inode (me_key ex_env) 2 \<mapsto> (RString (get_res (inode_SerializeTo le_io ex_named)), None),
     K_Inode (me_key ex_env) 3 \<mapsto> (RString (get_res (inode_SerializeTo le_io ex_nameless)), None),
     K_Directory (me_key ex_env) 1 \<mapsto> (RHash (fmap_of_list [(ex_entry_name, get_res (entry_SerializeTo le_io (entry_for (ex_entry_name) ex_named)))]), None),
     K_ChunkRefs (me_key ex_env) 3 \<mapsto> (RHash (fmap_of_list [(number 0, number 7)]), None),
     K_Orphans (me_key ex_env) \<mapsto> (RHash (fmap_of_list [(number 3, [])]), None)]"

lemma ex_good: "good ex_top" "good ex_named" "good ex_nameless" "entry_ok (entry_for (ex_entry_name) ex_named)"
  by (auto simp: good_def inode_ok_def ex_top_def ex_named_def ex_nameless_def set_nlink_def root_inode_def new_inode_def new_attr_def attr0_def
      attr_ok_def xattrs_ok_def om_ok_def nsec_bad_def HasOnlySupportedInodeFlags_def string_ok_def kRootInodeId_def entry_ok_def entry_for_def ex_entry_name_def
      intro!: no_acl_inv)

lemma ex_kinds: "IsDir ex_top" "\<not> IsDir ex_named" "\<not> IsDir ex_nameless" "i_nlink ex_top = 2" "i_nlink ex_named = 1" "i_nlink ex_nameless = 0"
  "i_ino ex_top = 1" "i_ino ex_named = 2" "i_ino ex_nameless = 3" "i_parent_ino ex_top = 1" "i_parent_ino ex_named = 1" "IsRegular ex_named" "IsRegular ex_nameless"
  by (simp_all add: ex_top_def ex_named_def ex_nameless_def set_nlink_def root_inode_def new_inode_def new_attr_def attr0_def kRootInodeId_def
      IsDir_def IsRegular_def S_ISDIR_def S_ISREG_def flag_defs)

lemma ex_io: "me_io ex_env = le_io" "me_key ex_env = dec_key 0 (ascii ''v'')" "op_env ex_engine = ex_env" "op_attempts ex_engine = Suc (Suc 0)"
  "op_reclaim_attempts ex_engine = Suc (Suc 0)" "me_encoder ex_env = Some ex_encoder"
  by (simp_all add: ex_env_def local_env_def ex_engine_def new_meta_ops_def ex_config_def)

lemma ex_store: "meta_store (mem_redis d) ex_env"
  unfolding ex_env_def by (rule ms.meta_store_axioms)

lemma ex_parse:
  "good n \<Longrightarrow> inode_ParseFrom le_io (get_res (inode_SerializeTo le_io n)) = Inr n"
  "entry_ok e \<Longrightarrow> entry_ParseFrom le_io (get_res (entry_SerializeTo le_io e)) = Inr e"
  using le.inode_rec.parse_ser [of n] le.entry_rec.parse_ser [of e] by (auto simp: good_def get_res_def)

lemma ex_at:
  "inode_at ex_env ex_tree_db i = (if i = 1 then Some ex_top else if i = 2 then Some ex_named else if i = 3 then Some ex_nameless else None)"
  "entry_at ex_env ex_tree_db p n = (if p = 1 \<and> n = ex_entry_name then Some (entry_for (ex_entry_name) ex_named) else None)"
  by (simp_all add: inode_at_def entry_at_def decoded_def str_at_def hash_at_def ex_tree_db_def ex_io ex_parse ex_good fmlookup_of_list)

lemma ex_missing: "ex_tree_db (K_Inode (me_key ex_env) i) = None \<longleftrightarrow> i \<noteq> 1 \<and> i \<noteq> 2 \<and> i \<noteq> 3"
  by (simp add: ex_tree_db_def ex_io)

lemma ex_hash: "is_hash ex_tree_db (K_Directory (me_key ex_env) p)" "is_hash ex_tree_db (K_Orphans (me_key ex_env))"
  "is_hash ex_tree_db (K_Reclaims (me_key ex_env))"
  "hash_at ex_tree_db (K_Directory (me_key ex_env) p) = (if p = 1
     then fmap_of_list [(ex_entry_name, get_res (entry_SerializeTo le_io (entry_for (ex_entry_name) ex_named)))] else fmempty)"
  "hash_at ex_tree_db (K_Orphans (me_key ex_env)) = fmap_of_list [(number 3, [])]"
  by (simp_all add: is_hash_def hash_at_def ex_tree_db_def ex_io)

lemma ex_tree: "tree_ok (tree_at ex_env ex_tree_db)"
proof -
  have l: "links (tree_at ex_env ex_tree_db) i = (if i = 2 then {(1, ex_entry_name)} else {})" for i
    by (auto simp: links_def tree_at_def vol_of_def ex_at entry_for_def ex_kinds split: if_splits)
  have s: "subdirs (tree_at ex_env ex_tree_db) i = {}" for i
    by (auto simp: subdirs_def tree_at_def vol_of_def ex_at entry_for_def ex_kinds split: if_splits)
  have f: "finite (dom (ent (tree_at ex_env ex_tree_db) p))" for p
    by (rule finite_subset [of _ "{ex_entry_name}"]) (auto simp: tree_at_def vol_of_def ex_at split: if_splits)
  show ?thesis
    unfolding tree_ok_def l s
    using f by (auto simp: tree_at_def vol_of_def ex_at entry_for_def ex_kinds kRootInodeId_def split: if_splits)
qed

lemma ex_consistent: "consistent ex_env ex_tree_db" "limits ex_env ex_tree_db"
proof -
  have "typed ex_env ex_tree_db"
    using ex_hash by (auto simp: typed_def ex_at ex_missing fmlookup_of_list split: if_splits)
  moreover have "recs_ok (vol_of ex_env ex_tree_db)"
    using ex_good by (auto simp: recs_ok_def vol_of_def ex_at ex_kinds ex_hash entry_for_def fmlookup_of_list split: if_splits)
  ultimately show "consistent ex_env ex_tree_db"
    using ex_tree by (simp add: consistent_def vol_ok_def tree_at_def)
  show "limits ex_env ex_tree_db"
    by (auto simp: limits_def ex_at ex_kinds ex_hash fcard.rep_eq split: if_splits)
qed

lemma ex_sound: "sound_server (mem_redis ex_tree_db) ex_env"
  using ex_consistent by (simp add: sound_server_def)

definition ex_ctx :: SwordFsContext where
  "ex_ctx = \<lparr>ctx_uid = 0, ctx_gid = 0, ctx_umask = 0\<rparr>"

abbreviation ex_start :: client where
  "ex_start \<equiv> \<lparr>sent = 0, effects = []\<rparr>"

lemma ex_policy: "CheckDirectoryRemovalPolicy (i_attr ex_top) = Inr ()" "CheckDirectoryAdditionPolicy (i_attr ex_top) = Inr ()"
  "CheckContentMetadataMutationPolicy (i_attr ex_named) = Inr ()" "CheckStickyDelete ex_top 0 ex_named"
  by (simp_all add: CheckDirectoryRemovalPolicy_def CheckDirectoryAdditionPolicy_def CheckContentMetadataMutationPolicy_def CheckStickyDelete_def
      HasRestrictiveInodePolicy_def IsImmutable_def IsAppendOnly_def HasInodeFlag_def reject_def ex_top_def ex_named_def root_inode_def new_inode_def new_attr_def attr0_def flag_defs)

context meta_store
begin

lemma rename_file_runs:
  fixes v :: 'v
  assumes d: "consistent E d" and p: "inode_at E d p = Some dir" "IsDir dir" and s: "entry_at E d p n = Some s" "inode_at E d (e_ino s) = Some src" "\<not> IsDir src"
    and m: "entry_at E d p m = None" "m \<noteq> []" and sticky: "CheckStickyDelete dir (ctx_uid ctx) src"
    and pol: "CheckDirectoryRemovalPolicy (i_attr dir) = Inr ()" "CheckDirectoryAdditionPolicy (i_attr dir) = Inr ()" "CheckContentMetadataMutationPolicy (i_attr src) = Inr ()"
  shows "\<exists>t. rename_txn E ctx p n p m nr False (snap R d) (new_txn k v) = (Ret (Inr ()), t)"
proof -
  note D = consistentD [OF d]
  have ids: "i_ino dir = p" "a_ino (i_attr dir) = p" "p \<noteq> 0" "i_ino src \<noteq> 0" "a_ino (i_attr src) = i_ino src"
    using D(4) [OF p(1)] D(4) [OF s(2)] by (auto simp: good_def inode_ok_def)
  have free: "is_hash d (K_Directory (me_key E) p)" "fmlookup (hash_at d (K_Directory (me_key E) p)) m = None"
    using typedD [OF D(1)] m(1) by auto
  show ?thesis
    unfolding rename_txn_def Let_def rename_entries_def mt_MoveEntry_def move_source_def set_parents_def
    using p s m sticky pol ids free
    by (simp add: tbind_Inr tcase_sum meta_simps treturn_eq tcheck_Inr new_of_def with_new_def check_parents_Inr not_into_itself_Inr)
qed

text \<open>Commands on inodes, directories and orphan markers never fail on keys of the right type.\<close>

lemma hash_reply_ok: "is_hash d k \<Longrightarrow> snd (exec_cmd (CHSet k f x) d) = Reply ()" "is_hash d k \<Longrightarrow> snd (exec_cmd (CHDel k f) d) = Reply ()"
  by (auto simp: exec_cmd.simps is_hash_def split: option.splits rval.splits)

lemma conc_replies:
  "\<lbrakk> \<And>p. is_hash d (K_Directory (me_key E) p); is_hash d (K_Orphans (me_key E)); \<And>c. MSide c \<notin> set ms;
     r \<in> set (snd (exec_cmds (map (conc E) ms) d)) \<rbrakk> \<Longrightarrow> r = Reply ()"
proof (induction ms arbitrary: d)
  case (Cons m ms)
  have ok: "snd (exec_cmd (conc E m) d) = Reply ()"
    using Cons.prems(1,2) Cons.prems(3) [of "case m of MSide c \<Rightarrow> c"] by (cases m) (simp_all add: hash_reply_ok exec_cmd.simps(1,6))
  have h: "is_hash (fst (exec_cmd (conc E m) d)) (K_Directory (me_key E) p)" "is_hash (fst (exec_cmd (conc E m) d)) (K_Orphans (me_key E))" for p
    using Cons.prems(1-3) by (cases m; auto simp: exec_simps)+
  show ?case
    using Cons.prems(3,4) ok Cons.IH [of "fst (exec_cmd (conc E m) d)"] h by (auto simp: exec_cmds.simps split_beta)
qed (simp add: exec_cmds.simps)

lemma conc_not_count: "\<forall>c. MSide c \<notin> set ms \<Longrightarrow> K_InodeCount (me_key E) \<notin> cmd_key ` set (map (conc E) ms)"
proof (induction ms)
  case (Cons m ms)
  then show ?case
    by (cases m) (auto simp: cmd_key_def)
qed simp

lemma unlink_file_runs:
  fixes v :: 'v
  assumes d: "consistent E d" and p: "inode_at E d p = Some dir" "IsDir dir" and s: "entry_at E d p n = Some s" "inode_at E d (e_ino s) = Some src" "\<not> IsDir src"
    and sticky: "CheckStickyDelete dir (ctx_uid ctx) src"
    and pol: "CheckDirectoryRemovalPolicy (i_attr dir) = Inr ()" "CheckContentMetadataMutationPolicy (i_attr src) = Inr ()"
  shows "\<exists>t. unlink_txn E ctx p n None (snap R d) (new_txn k v) = (Ret (Inr ()), t) \<and> has_writes t
    \<and> (\<exists>ms. queue t = map (conc E) ms \<and> (\<forall>c. MSide c \<notin> set ms))"
proof -
  note D = consistentD [OF d]
  have ids: "i_ino dir = p" "a_ino (i_attr dir) = p" "p \<noteq> 0" "i_ino src = e_ino s" "i_ino src \<noteq> 0" "a_ino (i_attr src) = i_ino src"
    using D(4) [OF p(1)] D(4) [OF s(2)] by (auto simp: good_def inode_ok_def)
  have "(p, n) \<in> links (tree_at E d) (e_ino s)"
    using s(1) by (simp add: links_def tree_at_def)
  then have "cnt (tree_at E d) (e_ino s) > 0"
    using tree_okD(7) [OF D(2), of "e_ino s"] finite_links [OF D(2), of "e_ino s"] s(2,3) by (auto simp: tree_at_def card_gt_0_iff)
  then have "0 < i_nlink src"
    using s(2) by (simp add: tree_at_def unat_gt_0 word_neq_0_conv)
  then have adj: "AdjustNlink src (- 1) = Inr (set_nlink (i_nlink src - 1) src)"
    by simp
  have "\<exists>r t. mt_UnlinkFile E p n dir src (snap R d) t0 = (Ret (Inr r), t)" for t0 :: "'v kv_txn"
    unfolding mt_UnlinkFile_def
    using p s pol ids adj by (cases "i_nlink src = 1") (simp_all add: tbind_Inr tcheck_Inr treturn_eq meta_simps Let_def snap_writes set_nlink_def IsDir_def)
  then obtain r t where un: "mt_UnlinkFile E p n dir src (snap R d)
      (after_read [K_Inode (me_key E) (e_ino s)] (after_read [K_Directory (me_key E) p] (after_read [K_Inode (me_key E) p] (new_txn k v)))) = (Ret (Inr r), t)"
    by blast
  have "unlink_txn E ctx p n None (snap R d) (new_txn k v) = (Ret (Inr ()), t)"
    using p s sticky ids un by (cases r) (simp add: unlink_txn_def tbind_Inr treturn_eq meta_simps)
  moreover have "has_writes t" "queue t = map (conc E) ([MDelEntry p n, MInode (fst r), MInode (snd r)] @ (if i_nlink (snd r) = 0 then [MOrphan (i_ino src)] else []))"
    using UnlinkFile_run [of p n dir src d _ "fst r" "snd r" t] un by (auto simp del: list.map)
  moreover have "\<forall>c. MSide c \<notin> set ([MDelEntry p n, MInode (fst r), MInode (snd r)] @ (if i_nlink (snd r) = 0 then [MOrphan (i_ino src)] else []))"
    by simp
  ultimately show ?thesis
    by blast
qed

lemma create_commands:
  assumes "create_txn E ctx i p name mode rdev (snap R d) (new_txn n v) = (Ret (Inr c), t)"
  shows "\<exists>ms. queue t = map (conc E) ms @ [CIncrBy (K_InodeCount (me_key E)) 1] \<and> (\<forall>c. MSide c \<notin> set ms)"
proof -
  obtain parent t0 where add: "mt_AddEntry E p name c parent (snap R d) t0 = (Ret (Inr ()), t)" "queue t0 = []"
    using assms by (auto simp: create_txn_def tbind_Inr tcheck_Inr treturn_eq meta_simps split: if_splits)
  obtain now where "queue t = map (conc E) [MInode c, MEntry p (entry_for name c), MInode (gain now c parent)] @ [CIncrBy (K_InodeCount (me_key E)) 1]"
    using AddEntry_run [OF add(1)] add(2) by auto
  then show ?thesis
    by (intro exI conjI) (assumption, simp)
qed

lemma rename_file_commands:
  assumes d: "consistent E d" and m: "entry_at E d q m = None" and f: "\<And>s src. \<lbrakk> entry_at E d p n = Some s; inode_at E d (e_ino s) = Some src \<rbrakk> \<Longrightarrow> \<not> IsDir src"
    and run: "rename_txn E ctx p n q m nr False (snap R d) (new_txn k v) = (Ret (Inr ()), t)"
  shows "has_writes t \<and> (\<exists>ms. queue t = map (conc E) ms \<and> (\<forall>c. MSide c \<notin> set ms))"
proof -
  obtain ps source s target t0 where t0: "queue t0 = []" and src: "entry_at E d p n = Some s" "inode_at E d (e_ino s) = Some source"
    and tgt: "case target of None \<Rightarrow> entry_at E d q m = None | Some g \<Rightarrow> \<exists>e. entry_at E d q m = Some e \<and> inode_at E d (e_ino e) = Some g"
    and r: "rename_entries E ctx p n q m nr False ps source target (snap R d) t0 = (Ret (Inr ()), t)"
    using rename_run [OF d run] by blast
  then have "target = None"
    using m by (cases target) auto
  then have "mt_MoveEntry E p n q m ps source None (\<not> nr) (snap R d) t0 = (Ret (Inr ()), t)"
    using r by (simp add: rename_entries_def)
  from MoveEntry_run [OF this] have mv: "move_source E p n q m ps source (snap R d) t0 = (Ret (Inr ()), t)"
    using f [OF src] by (auto simp: not_into_itself_Inr)
  obtain now now' now'' where "has_writes t" and q: "queue t = map (conc E) ([MDelEntry p n, MEntry q (entry_for m source)]
      @ parent_cmds (move_parents now now' source ps) @ [MInode (reparent q now'' source)])"
    using move_source_run [OF mv, unfolded t0 append_Nil] by blast
  then show ?thesis
    by (intro conjI exI) (assumption, assumption, auto simp: parent_cmds_def split: option.splits)
qed

end

lemma ex_rename: "\<exists>c'. Rename ex_engine ex_ctx 1 ex_entry_name 1 (ascii ''b'') 0 (mem_redis ex_tree_db) ex_start = (Inr (), c')"
proof -
  have at: "entry_at ex_env ex_tree_db 1 ex_entry_name = Some (entry_for ex_entry_name ex_named)" "entry_at ex_env ex_tree_db 1 (ascii ''b'') = None"
      "inode_at ex_env ex_tree_db (e_ino (entry_for ex_entry_name ex_named)) = Some ex_named"
    by (simp_all add: ex_at entry_for_def ex_kinds ex_entry_name_def)
  obtain t where run: "rename_txn ex_env ex_ctx 1 ex_entry_name 1 (ascii ''b'') False False (snap (mem_redis ex_tree_db) ex_tree_db) (new_txn (Suc 0) ()) = (Ret (Inr ()), t)"
    using meta_store.rename_file_runs [where p = 1 and m = "ascii ''b''" and ctx = ex_ctx and nr = False and k = "Suc 0" and v = "()", OF ex_store ex_consistent(1) _ _ at(1,3) _ at(2)]
      ex_policy ex_kinds by (auto simp: ex_at ex_ctx_def)
  have f: "\<not> IsDir src" if "entry_at ex_env ex_tree_db 1 ex_entry_name = Some s" "inode_at ex_env ex_tree_db (e_ino s) = Some src" for s src
    using that at ex_kinds by auto
  have "has_writes t \<and> (\<exists>ms. queue t = map (conc ex_env) ms \<and> (\<forall>c. MSide c \<notin> set ms))"
    by (rule meta_store.rename_file_commands [OF ex_store ex_consistent(1) at(2) _ run]) (rule f)
  then obtain ms where w: "has_writes t" and q: "queue t = map (conc ex_env) ms" "\<forall>c. MSide c \<notin> set ms"
    by blast
  have "\<forall>r\<in>set (snd (exec_cmds (queue t) ex_tree_db)). r = Reply ()"
    using meta_store.conc_replies [OF ex_store, of ex_tree_db ms] q ex_hash by auto
  then obtain i where "Transact (Suc (Suc 0)) (rename_txn ex_env ex_ctx 1 ex_entry_name 1 (ascii ''b'') False False) (mem_redis ex_tree_db) ex_start ()
      = (Inr (), \<lparr>sent = i, effects = [(ex_tree_db, fst (exec_cmds (queue t) ex_tree_db))]\<rparr>, vars t)"
    using mem_Transact [where c = ex_start and m = "rename_txn ex_env ex_ctx 1 ex_entry_name 1 (ascii ''b'') False False" and d = ex_tree_db and n = "Suc 0" and v = "()"]
      run w by (auto simp flip: mem_snap)
  moreover have "ValidateNameComponent ex_entry_name = Inr ()" "ValidateNameComponent (ascii ''b'') = Inr ()" "\<not> dot_name ex_entry_name" "\<not> dot_name (ascii ''b'')"
      "\<not> HasRenameFlag 0 kNoReplace" "\<not> HasRenameFlag 0 kExchange"
    by (simp_all add: ValidateNameComponent_def kMaxNameLength_def dot_name_def ex_entry_name_def HasRenameFlag_def)
  ultimately show ?thesis
    by (simp add: Rename_def ex_io TransactFromFiber_def RunTransact_def)
qed

lemma ex_snapshot:
  assumes "\<not> has_writes t"
  shows "ReadFileMappingSnapshot ex_env 3 (snap (mem_redis ex_tree_db) ex_tree_db) t = (Ret (Inr \<lparr>fm_inode = ex_nameless, fm_mappings = [\<lparr>cm_index = 0, cm_chunk_id = 7\<rparr>]\<rparr>),
    after_read [K_ChunkRefs (me_key ex_env) 3] (after_read [K_Inode (me_key ex_env) 3] t))"
proof -
  have l: "LookupInode ex_env 3 (mem_redis ex_tree_db) t = (Ret (Inr ex_nameless), after_read [K_Inode (me_key ex_env) 3] t)"
    using meta_store.LookupInode_run [OF ex_store [of ex_tree_db], of ex_tree_db t 3] ex_consistent(1) assms by (simp add: consistent_def ex_at flip: mem_snap)
  have "sorted_list_of_fmap (fmap_of_list [(number 0, number 7)]) = [(number 0, number 7)]"
    by (simp add: sorted_list_of_fmap_def sorted_list_of_fset.rep_eq)
  then have h: "HScan (K_ChunkRefs (me_key ex_env) 3) 0 128 (mem_redis ex_tree_db) t'
      = (Ret (Inr ([(number 0, number 7)], 0)), after_read [K_ChunkRefs (me_key ex_env) 3] t')" if "\<not> has_writes t'" for t' :: "'a kv_txn"
    using that by (simp add: mem_reads hash_reply_def ex_tree_db_def ex_io reply_res_def)
  have p: "from_chars (2 ^ 64 - 1) (number 0) = Some (0, [])" "ParseAttachedChunkID (number 7) = Inr 7"
    using from_chars_to_string [of 0 "2 ^ 64 - 1" "[]"] from_chars_to_string [of 7 "2 ^ 64 - 1" "[]"]
    by (simp_all add: number_def ParseAttachedChunkID_def kMaxChunkIDValue_def)
  obtain m where m: "me_fuel ex_env = Suc m"
    by (simp add: ex_env_def local_env_def)
  show ?thesis
    unfolding mem_snap [symmetric]
    using assms p by (simp add: ReadFileMappingSnapshot_def m l h ex_kinds tbind_def tcase_def treturn_def tcheck_def chk_def Let_def)
qed

lemma ex_reclaim: "\<exists>c'. ops_PrepareReclaim ex_engine 3 (mem_redis ex_tree_db) ex_start = (Inr (), c') \<and> (\<exists>d'. effects c' = [(ex_tree_db, d')])"
proof -
  let ?w = "\<lparr>rw_ino = 3, rw_payload = [0, 7]\<rparr> :: ReclaimWork"
  obtain b where b: "reclaim_SerializeTo le_io ?w = Inr b"
    using le.reclaim_rec.parse_ser [of ?w] by (auto simp: reclaim_ok_def string_ok_def)
  obtain t where run: "mt_PrepareReclaim ex_env 3 (snap (mem_redis ex_tree_db) ex_tree_db) (new_txn (Suc 0) ()) = (Ret (Inr (Some ?w)), t)" and w: "has_writes t"
    and q: "queue t = [CDel (K_Inode (me_key ex_env) 3), CDel (K_ChunkRefs (me_key ex_env) 3), CHDel (K_Orphans (me_key ex_env)) (number 3),
      CHSet (K_Reclaims (me_key ex_env)) (number 3) b]"
  proof -
    have "LookupInode ex_env 3 (snap (mem_redis ex_tree_db) ex_tree_db) (new_txn (Suc 0) ()) = (Ret (Inr ex_nameless), after_read [K_Inode (me_key ex_env) 3] (new_txn (Suc 0) ()))"
      using meta_store.LookupInode_run [OF ex_store, of ex_tree_db "new_txn (Suc 0) ()" 3] ex_consistent(1) by (simp add: consistent_def ex_at)
    then have "mt_PrepareReclaim ex_env 3 (snap (mem_redis ex_tree_db) ex_tree_db) (new_txn (Suc 0) ())
        = reclaim_inode ex_env 3 [\<lparr>cm_index = 0, cm_chunk_id = 7\<rparr>] (snap (mem_redis ex_tree_db) ex_tree_db)
            (after_read [K_ChunkRefs (me_key ex_env) 3] (after_read [K_Inode (me_key ex_env) 3] (after_read [K_Inode (me_key ex_env) 3] (new_txn (Suc 0) ()))))"
      using ex_snapshot [of "after_read [K_Inode (me_key ex_env) 3] (new_txn (Suc 0) ())"]
      by (simp add: mt_PrepareReclaim_def tcase_eq tbind_def ex_kinds)
    moreover have "reclaim_inode ex_env 3 [\<lparr>cm_index = 0, cm_chunk_id = 7\<rparr>] (snap (mem_redis ex_tree_db) ex_tree_db) t0 = (Ret (Inr (Some ?w)),
        after_write (CHSet (K_Reclaims (me_key ex_env)) (number 3) b) (after_write (CHDel (K_Orphans (me_key ex_env)) (number 3))
          (after_write (CDel (K_ChunkRefs (me_key ex_env) 3)) (after_write (CDel (K_Inode (me_key ex_env) 3)) t0))))" for t0 :: "unit kv_txn"
      by (simp add: reclaim_inode_def ex_io ex_encoder_def b tbind_Inr snap_writes treturn_eq ClearOrphanMarker_def)
    ultimately show thesis
      using that by simp
  qed
  have "\<forall>r\<in>set (snd (exec_cmds (queue t) ex_tree_db)). r = Reply ()"
    unfolding q by (simp add: ex_tree_db_def ex_io exec_cmds.simps exec_cmd.simps split_beta)
  then obtain i where "Transact (Suc (Suc 0)) (mt_PrepareReclaim ex_env 3) (mem_redis ex_tree_db) ex_start ()
      = (Inr (Some ?w), \<lparr>sent = i, effects = [(ex_tree_db, fst (exec_cmds (queue t) ex_tree_db))]\<rparr>, vars t)"
    using mem_Transact [where c = ex_start and m = "mt_PrepareReclaim ex_env 3" and d = ex_tree_db and n = "Suc 0" and v = "()"]
      run w by (auto simp flip: mem_snap)
  then show ?thesis
    by (simp add: ops_PrepareReclaim_def RunReclaimWithOutcomeReconciliation_def ex_io PrepareReclaimAttempt_def TransactFromFiber_def RunTransact_def)
qed

lemma exec_replies_append: "snd (exec_cmds (cs @ cs') d) = snd (exec_cmds cs d) @ snd (exec_cmds cs' (fst (exec_cmds cs d)))"
  by (induction cs arbitrary: d) (simp_all add: exec_cmds.simps split_beta)

text \<open>A fresh volume, then with its first inode number allocated.\<close>

definition ex_new_db :: keyspace where
  "ex_new_db = fst (exec_cmds (map (\<lambda>(k, v). CSet k v) (initial_keys (me_key ex_env) [] (get_res (inode_SerializeTo le_io ex_top)))) Map.empty)"

definition ex_allocated_db :: keyspace where
  "ex_allocated_db = ex_new_db(next_ino ex_env \<mapsto> (RString (to_string 2), None))"

context meta_store
begin

lemma format_commits:
  assumes "d (K_Format (me_key E)) = None"
  shows "commits R (format_txn E config root) d (fst (exec_cmds (map (\<lambda>(k, v). CSet k v) (initial_keys (me_key E) config root)) d))"
proof -
  have "Get (K_Format (me_key E)) (snap R d) (new_txn 0 ()) = (Ret (Inl kNotFound), after_read [K_Format (me_key E)] (new_txn 0 ()))"
    using assms by (simp add: Get_NotFound)
  then have run: "format_txn E config root (snap R d) (new_txn 0 ())
      = tseq (map (\<lambda>(k, v). Set k v) (initial_keys (me_key E) config root)) (snap R d) (after_read [K_Format (me_key E)] (new_txn 0 ()))"
    by (simp add: format_txn_def tcase_eq)
  obtain t where t: "format_txn E config root (snap R d) (new_txn 0 ()) = (Ret (Inr ()), t)" "has_writes t"
    using Sets_total [of "initial_keys (me_key E) config root" d "after_read [K_Format (me_key E)] (new_txn 0 ())"] unfolding run
    by (auto simp: initial_keys_def)
  then show ?thesis
    unfolding commits_def after_def using format_run [OF t(1)] by metis
qed

end

lemma ex_new_volume: "meta_store R ex_env \<Longrightarrow> volume_run R ex_env ex_new_db {}"
  unfolding ex_new_db_def
  by (rule volume_run.format [OF _ _ meta_store.format_commits [where R = R]])
    (use ex_good in \<open>auto simp: fresh_def ex_io ex_top_def good_def get_res_def dest: le.inode_rec.parse_ser\<close>)


lemma ex_new_at:
  "inode_at ex_env ex_allocated_db i = (if i = 1 then Some ex_top else None)" "entry_at ex_env ex_allocated_db p n = None"
  "ex_new_db (next_ino ex_env) = Some (RString (to_string 1), None)" "ex_allocated_db (K_InodeCount (me_key ex_env)) = Some (RString (ascii ''1''), None)"
  "hash_at ex_allocated_db (K_Directory (me_key ex_env) p) = fmempty"
proof -
  note db = meta_store.format_db [OF ex_store [of Map.empty] meta_store.format_commits [OF ex_store, of Map.empty Map.empty "[]" "get_res (inode_SerializeTo le_io ex_top)"], folded ex_new_db_def]
  note ck = meta_store.counter_key [OF ex_store]
  show "ex_new_db (next_ino ex_env) = Some (RString (to_string 1), None)"
    using db(4) by simp
  have i: "ex_allocated_db (K_Inode (me_key ex_env) i) = (if i = 1 then Some (RString (get_res (inode_SerializeTo le_io ex_top)), None) else None)" for i
    using db(1) ck by (simp add: ex_allocated_db_def kRootInodeId_def)
  then show "inode_at ex_env ex_allocated_db i = (if i = 1 then Some ex_top else None)"
    by (simp add: inode_at_def str_at_def decoded_def ex_io ex_parse ex_good)
  show h: "hash_at ex_allocated_db (K_Directory (me_key ex_env) p) = fmempty" for p
    using db(2) ck by (simp add: ex_allocated_db_def hash_at_def)
  then show "entry_at ex_env ex_allocated_db p n = None"
    by (simp add: entry_at_def)
  show "ex_allocated_db (K_InodeCount (me_key ex_env)) = Some (RString (ascii ''1''), None)"
    unfolding ex_allocated_db_def ex_new_db_def initial_keys_def ex_io
    by (simp flip: key_of.simps add: dec_key.key_of_inject exec_cmds.simps exec_cmd.simps split_beta)
qed

lemma ex_new_step: "exec_single now (SIncr (next_ino ex_env)) ex_new_db = (ex_allocated_db, Reply 2)"
  using ex_new_at(3) parse_int_to_string [of 1] by (simp add: ex_allocated_db_def int_string_def)

lemma ex_allocated: "consistent ex_env ex_allocated_db" "limits ex_env ex_allocated_db"
proof -
  have "volume_run (mem_redis Map.empty) ex_env ex_allocated_db {2}"
    using volume_run.allocate [OF ex_new_volume [OF ex_store] lstep.alloc [OF ex_new_step]] by simp
  then show "consistent ex_env ex_allocated_db"
    using meta_store.volume_invariant [OF ex_store] by blast
  show "limits ex_env ex_allocated_db"
    by (auto simp: limits_def ex_new_at ex_kinds fcard.rep_eq split: if_splits)
qed

lemma ex_create:
  "\<exists>n t. create_txn ex_env ex_ctx 2 1 (ascii ''b'') (S_IFREG OR 0x1A4) 0 (mem_redis ex_allocated_db) (new_txn (Suc (Suc 0)) ()) = (Ret (Inr n), t)
    \<and> has_writes t \<and> (\<forall>r\<in>set (snd (exec_cmds (queue t) ex_allocated_db)). r = Reply ())"
proof -
  let ?m = "create_txn ex_env ex_ctx 2 1 (ascii ''b'') (S_IFREG OR 0x1A4) 0"
  have at: "inode_at ex_env ex_allocated_db 1 = Some ex_top" "entry_at ex_env ex_allocated_db 1 (ascii ''b'') = None" "inode_at ex_env ex_allocated_db 2 = None"
    by (simp_all add: ex_new_at)
  obtain n t where run: "?m (snap (mem_redis ex_allocated_db) ex_allocated_db) (new_txn (Suc (Suc 0)) ()) = (Ret (Inr n), t)"
    using meta_store.create_outcome [OF ex_store [of ex_allocated_db] ex_allocated(1), where i = 2 and name = "ascii ''b''" and ctx = ex_ctx and p = 1 and mode = "S_IFREG OR 0x1A4" and rdev = 0 and n = "Suc (Suc 0)" and v = "()"]
      at ex_kinds ex_policy by auto
  have name: "ValidateNameComponent (ascii ''b'') = Inr ()"
    by (simp add: ValidateNameComponent_def kMaxNameLength_def)
  have w: "has_writes t"
    using meta_store.create_refines [OF ex_store ex_allocated at(3) _ name run] by simp
  obtain ms where q: "queue t = map (conc ex_env) ms @ [CIncrBy (K_InodeCount (me_key ex_env)) 1]" "\<forall>c. MSide c \<notin> set ms"
    using meta_store.create_commands [OF ex_store run] by blast
  have h: "is_hash ex_allocated_db (K_Directory (me_key ex_env) p)" "is_hash ex_allocated_db (K_Orphans (me_key ex_env))" for p
    using ex_allocated(1) by (simp_all add: consistent_def typed_def)
  have "fst (exec_cmds (map (conc ex_env) ms) ex_allocated_db) (K_InodeCount (me_key ex_env)) = Some (RString (to_string 1), None)"
    using meta_store.conc_not_count [OF ex_store q(2)] ex_new_at(4) by (simp add: exec_cmds_frame to_string.simps)
  then have "\<forall>r\<in>set (snd (exec_cmds (queue t) ex_allocated_db)). r = Reply ()"
    using meta_store.conc_replies [OF ex_store, of ex_allocated_db ms] q(2) h parse_int_to_string [of 1]
    by (auto simp: q(1) exec_replies_append exec_cmds.simps exec_cmd.simps)
  then show ?thesis
    using run w by (auto simp flip: mem_snap)
qed

text \<open>The history of one creation: the fresh volume, the volume with the number allocated until the \<open>EXEC\<close> at moment \<open>n\<close>, and what it left.\<close>

definition ex_creation :: "nat \<Rightarrow> keyspace \<Rightarrow> nat \<Rightarrow> keyspace" where
  "ex_creation n d j = (if j = 0 then ex_new_db else if j \<le> n then ex_allocated_db else d)"

lemma hist_store: "meta_store (run_redis h) ex_env"
  using ex_store [of Map.empty] hist.redis_server_axioms by (simp add: meta_store_def)

lemma ex_hist_allocate: "AllocateInode ex_engine (run_redis (ex_creation n d)) ex_start = (Inr 2, \<lparr>sent = Suc 0, effects = [(ex_new_db, ex_allocated_db)]\<rparr>)"
  using ex_new_step [of 0] by (simp add: AllocateInode_def client_Incr_def mutate_def ex_io(3) ex_creation_def)

lemma ex_creation_runs:
  "\<exists>n d x c'. CreateNode ex_engine ex_ctx 1 (ascii ''b'') (S_IFREG OR 0x1A4) 0 (run_redis (ex_creation n d)) ex_start = (Inr x, c')
     \<and> sent c' = Suc n \<and> effects c' = [(ex_new_db, ex_allocated_db), (ex_allocated_db, d)]"
proof -
  obtain x t where run: "create_txn ex_env ex_ctx 2 1 (ascii ''b'') (S_IFREG OR 0x1A4) 0 (mem_redis ex_allocated_db) (new_txn (Suc (Suc 0)) ()) = (Ret (Inr x), t)"
    and w: "has_writes t" "\<forall>r\<in>set (snd (exec_cmds (queue t) ex_allocated_db)). r = Reply ()"
    using ex_create by blast
  define d where "d = fst (exec_cmds (queue t) ex_allocated_db)"
  have "Transact (Suc (Suc 0)) (create_txn ex_env ex_ctx 2 1 (ascii ''b'') (S_IFREG OR 0x1A4) 0) (run_redis (ex_creation (clock t) d))
      \<lparr>sent = Suc 0, effects = [(ex_new_db, ex_allocated_db)]\<rparr> ()
      = (Inr x, \<lparr>sent = Suc (clock t), effects = [(ex_new_db, ex_allocated_db)] @ [(ex_allocated_db, d)]\<rparr>, vars t)"
    using hist_Transact [where c = "\<lparr>sent = Suc 0, effects = [(ex_new_db, ex_allocated_db)]\<rparr>" and d = ex_allocated_db and v = "()" and n = "Suc 0"
        and h = "ex_creation (clock t) d", OF steady_create _ w] run by (simp add: ex_creation_def d_def)
  then show ?thesis
    by (intro exI [of _ "clock t"] exI [of _ d] exI [of _ x])
      (auto simp: CreateNode_def ex_hist_allocate ex_io TransactFromFiber_def RunTransact_def)
qed

lemma ex_unlink: "\<exists>c'. Unlink ex_engine ex_ctx 1 ex_entry_name None (mem_redis ex_tree_db) ex_start = (Inr (), c')"
proof -
  let ?m = "unlink_txn ex_env ex_ctx 1 ex_entry_name None"
  have at: "entry_at ex_env ex_tree_db 1 ex_entry_name = Some (entry_for ex_entry_name ex_named)"
      "inode_at ex_env ex_tree_db (e_ino (entry_for ex_entry_name ex_named)) = Some ex_named" "inode_at ex_env ex_tree_db 1 = Some ex_top"
    by (simp_all add: ex_at entry_for_def ex_kinds)
  have sticky: "CheckStickyDelete ex_top (ctx_uid ex_ctx) ex_named"
    using ex_policy by (simp add: ex_ctx_def)
  obtain t ms where run: "?m (snap (mem_redis ex_tree_db) ex_tree_db) (new_txn (Suc 0) ()) = (Ret (Inr ()), t)" and w: "has_writes t"
    and q: "queue t = map (conc ex_env) ms" "\<forall>c. MSide c \<notin> set ms"
    using meta_store.unlink_file_runs [where k = "Suc 0" and v = "()", OF ex_store [of ex_tree_db] ex_consistent(1) at(3) ex_kinds(1) at(1,2) ex_kinds(2) sticky ex_policy(1,3)]
    by blast
  have "\<forall>r\<in>set (snd (exec_cmds (queue t) ex_tree_db)). r = Reply ()"
    using meta_store.conc_replies [OF ex_store, of ex_tree_db ms] q ex_hash by auto
  then obtain i where "Transact (Suc (Suc 0)) ?m (mem_redis ex_tree_db) ex_start () = (Inr (), \<lparr>sent = i, effects = [(ex_tree_db, fst (exec_cmds (queue t) ex_tree_db))]\<rparr>, vars t)"
    using mem_Transact [where c = ex_start and m = ?m and d = ex_tree_db and n = "Suc 0" and v = "()"] run w by (auto simp flip: mem_snap)
  moreover have "ValidateNameComponent ex_entry_name = Inr ()" "\<not> dot_name ex_entry_name"
    by (simp_all add: ValidateNameComponent_def kMaxNameLength_def dot_name_def ex_entry_name_def)
  ultimately show ?thesis
    by (simp add: Unlink_def ex_io TransactFromFiber_def RunTransact_def)
qed

section \<open>Properties\<close>

text \<open>C3: a successful \<open>Rename\<close> is \<open>renameat2\<close>. Whatever other clients do meanwhile, at one moment of the call the file tree changes
  exactly as the POSIX operation says (move, replace, exchange, or nothing when both names are one file), and the volume stays consistent. In particular
  the call does not succeed in any case in which \<open>t_posix_rename\<close> fails: the old name does not exist, a parent is not a directory, there is nothing
  to exchange with, the new name is taken and must not be replaced, a directory would move below itself, a directory would replace a non-directory or the other way
  round, or the directory to replace is not empty.\<close>

theorem rename_is_posix_rename:
  assumes "meta_store R (op_env P)" and "sound_server R (op_env P)" and "Rename P ctx p n q m flags R c = (Inr (), c')"
  shows "acted R (op_env P) c c' (\<lambda>T T'. t_posix_rename p n q m (HasRenameFlag flags kNoReplace) (HasRenameFlag flags kExchange) T = Some T')"
  using meta_store.Rename_acted [OF assms(1) refl assms(2,3)] .

theorem rename_is_posix_rename_witness:
  "meta_store (mem_redis ex_tree_db) (op_env ex_engine) \<and> sound_server (mem_redis ex_tree_db) (op_env ex_engine)
   \<and> (\<exists>c'. acted (mem_redis ex_tree_db) (op_env ex_engine) ex_start c' (\<lambda>T T'. t_posix_rename 1 ex_entry_name 1 (ascii ''b'') False False T = Some T'))"
proof -
  obtain c' where "Rename ex_engine ex_ctx 1 ex_entry_name 1 (ascii ''b'') 0 (mem_redis ex_tree_db) ex_start = (Inr (), c')"
    using ex_rename by blast
  from rename_is_posix_rename [OF _ _ this] show ?thesis
    using ex_store ex_sound by (auto simp: ex_io HasRenameFlag_def)
qed

text \<open>C4: a creation adds one entry. Take a reachable volume \<open>d\<close> on which the call allocates its inode number \<open>i\<close>, leaving \<open>d1\<close>, and let the other clients do
  whatever they do between its commands (\<open>others\<close>: they use their own numbers only, within the 64-bit limits). A successful \<open>CreateNode\<close> (the body of
  \<open>Create\<close>, \<open>MkNod\<close> and \<open>MkDir\<close>) returns an inode with this number and of the requested kind and, at one moment of the call, adds it to the tree, where
  nothing has the number, in a directory, under a name that was free.\<close>

theorem create_adds_one_entry:
  assumes "meta_store R (op_env P)" and "ValidateNameComponent name = Inr ()"
    and "AllocateInode P R c = (Inr i, c1)" and "effects c1 = effects c @ [(d, d1)]" and "volume_run R (op_env P) d U"
    and "\<And>j. \<lbrakk> sent c1 \<le> j; j < sent c' \<rbrakk> \<Longrightarrow> limits (op_env P) (r_db R j) \<and> (\<exists>V. others R (op_env P) i d1 (insert i U) (r_db R j) V)"
    and "CreateNode P ctx p name mode rdev R c = (Inr n, c')"
  shows "i_ino n = i \<and> IsDir n = S_ISDIR mode
    \<and> acted R (op_env P) c c' (\<lambda>T T'. is_dir T p \<and> ent T p name = None \<and> kind T i = None \<and> T' = t_add p name i (IsDir n) T)"
  using meta_store.CreateNode_acted [OF assms(1) refl assms(2-7)] .

text \<open>After the call the server shows the new inode.\<close>

theorem create_adds_one_entry_witness:
  "\<exists>h n c'. CreateNode ex_engine ex_ctx 1 (ascii ''b'') (S_IFREG OR 0x1A4) 0 (run_redis h) ex_start = (Inr n, c')
     \<and> volume_run (run_redis h) (op_env ex_engine) (h 0) {} \<and> h (sent c') = snd (last (effects c')) \<and> i_ino n = 2
     \<and> kind (tree_at (op_env ex_engine) (h (sent c'))) 2 = Some False \<and> ent (tree_at (op_env ex_engine) (h (sent c'))) 1 (ascii ''b'') = Some 2"
proof -
  obtain n d x c' where run: "CreateNode ex_engine ex_ctx 1 (ascii ''b'') (S_IFREG OR 0x1A4) 0 (run_redis (ex_creation n d)) ex_start = (Inr x, c')"
    and c': "sent c' = Suc n" "effects c' = [(ex_new_db, ex_allocated_db), (ex_allocated_db, d)]"
    using ex_creation_runs by blast
  let ?h = "ex_creation n d"
  have name: "ValidateNameComponent (ascii ''b'') = Inr ()"
    by (simp add: ValidateNameComponent_def kMaxNameLength_def)
  have vol: "volume_run (run_redis ?h) ex_env ex_new_db {}"
    by (rule ex_new_volume [OF hist_store])
  have env: "limits ex_env (r_db (run_redis ?h) j) \<and> (\<exists>V. others (run_redis ?h) ex_env 2 ex_allocated_db (insert 2 {}) (r_db (run_redis ?h) j) V)"
    if "Suc 0 \<le> j" "j < sent c'" for j
  proof -
    have "r_db (run_redis ?h) j = ex_allocated_db"
      using that c'(1) by (simp add: ex_creation_def)
    then show ?thesis
      using ex_allocated(2) by (auto intro!: exI [of _ "{2}"] others.start)
  qed
  have "i_ino x = 2 \<and> IsDir x = S_ISDIR (S_IFREG OR 0x1A4)
    \<and> acted (run_redis ?h) ex_env ex_start c' (\<lambda>T T'. is_dir T 1 \<and> ent T 1 (ascii ''b'') = None \<and> kind T 2 = None \<and> T' = t_add 1 (ascii ''b'') 2 (IsDir x) T)"
    by (rule create_adds_one_entry [of "run_redis ?h" ex_engine, unfolded ex_io(3), OF hist_store name ex_hist_allocate _ vol _ run])
      (simp, rule env, simp_all)
  moreover have "\<not> S_ISDIR (S_IFREG OR 0x1A4)"
    by (simp add: S_ISDIR_def flag_defs)
  ultimately have x: "i_ino x = 2" and T: "\<exists>T. tree_at ex_env d = t_add 1 (ascii ''b'') 2 False T"
    using c' by (auto simp: acted_def)
  have "h = d" if "h = ?h (sent c')" for h
    using that c'(1) by (simp add: ex_creation_def)
  then show ?thesis
    using run vol c' x T by (intro exI [of _ ?h] exI [of _ x] exI [of _ c']) (auto simp: ex_io(3) ex_creation_def tree_defs)
qed

text \<open>C5: a successful \<open>Unlink\<close> takes away, at one moment of the call, one name of a file that is not a directory, of the expected file if the
  caller named one, and one of its links; nothing else in the tree changes.\<close>

theorem unlink_removes_one_link:
  assumes "meta_store R (op_env P)" and "sound_server R (op_env P)" and "Unlink P ctx p name x R c = (Inr (), c')"
  shows "acted R (op_env P) c c' (\<lambda>T T'. \<exists>f. ent T p name = Some f \<and> kind T f = Some False
      \<and> (x = None \<or> x = Some f) \<and> T' = t_unlink p name f T)"
  using meta_store.Unlink_acted [OF assms(1) refl assms(2,3)] .

theorem unlink_removes_one_link_witness:
  "\<exists>c'. acted (mem_redis ex_tree_db) (op_env ex_engine) ex_start c' (\<lambda>T T'. \<exists>f. ent T 1 ex_entry_name = Some f \<and> kind T f = Some False
      \<and> T' = t_unlink 1 ex_entry_name f T)"
proof -
  obtain c' where "Unlink ex_engine ex_ctx 1 ex_entry_name None (mem_redis ex_tree_db) ex_start = (Inr (), c')"
    using ex_unlink by blast
  from unlink_removes_one_link [OF _ _ this] show ?thesis
    using ex_store ex_sound by (auto simp: ex_io(3))
qed

text \<open>C6: reclaiming an inode is safe and complete. Every write of \<open>PrepareReclaim\<close>, retries after an uncertain outcome included, leaves the
  tree and all chunk maps as they are, or removes a file that has no name and replaces its chunk map, in the same step, by a reclaim record that
  the encoder made of exactly the chunks the map held; the chunk maps of other files are never touched. When the call succeeds there was a moment
  at which nothing was left to reclaim. The server has to keep the documented promise of a \<open>SCAN\<close> iteration on the chunk map.\<close>

theorem prepare_reclaim_safe:
  assumes "meta_store R (op_env P)" and "sound_server R (op_env P)" and "\<And>j. is_hash (r_db R j) (K_Reclaims (me_key (op_env P)))"
    and "\<And>j. scan_promise (snap R (r_db R j)) (K_ChunkRefs (me_key (op_env P)) i)"
    and "ops_PrepareReclaim P i R c = (r, c')"
  shows "\<exists>es. effects c' = effects c @ es \<and> (\<forall>(d, d')\<in>set es. reclaim_step (op_env P) i d d')
    \<and> (r = Inr () \<longrightarrow> (\<exists>d. ((\<exists>j. sent c \<le> j \<and> j < sent c' \<and> d = r_db R j) \<or> d \<in> snd ` set es) \<and> \<not> unlinked (op_env P) d i))"
  using meta_store.PrepareReclaim_reclaims [OF assms(1) refl assms(2-5)] meta_store.reclaims_def [OF assms(1)] by simp

theorem prepare_reclaim_safe_witness:
  "unlinked (op_env ex_engine) ex_tree_db 3 \<and> file_chunks (op_env ex_engine) ex_tree_db 3 [\<lparr>cm_index = 0, cm_chunk_id = 7\<rparr>]
   \<and> (\<exists>d' c'. ops_PrepareReclaim ex_engine 3 (mem_redis ex_tree_db) ex_start = (Inr (), c')
       \<and> effects c' = [(ex_tree_db, d')] \<and> reclaim_step (op_env ex_engine) 3 ex_tree_db d')"
proof (intro conjI)
  show "unlinked (op_env ex_engine) ex_tree_db 3"
    by (auto simp: unlinked_def ex_io links_def tree_at_def vol_of_def ex_at ex_kinds entry_for_def split: if_splits)
  have promise: "scan_promise (snap (mem_redis ex_tree_db) (r_db (mem_redis ex_tree_db) j)) (K_ChunkRefs (me_key (op_env ex_engine)) 3)" for j
    using mem_promise by (simp flip: mem_snap)
  show "file_chunks (op_env ex_engine) ex_tree_db 3 [\<lparr>cm_index = 0, cm_chunk_id = 7\<rparr>]"
    using meta_store.ReadFileMappingSnapshot_map [OF ex_store, of ex_tree_db ex_tree_db 3] promise [of 0] ex_snapshot [of "new_txn 0 ()"]
    by (fastforce simp: file_chunks_def ex_io(3) ex_at ex_kinds)
  obtain c' where c': "ops_PrepareReclaim ex_engine 3 (mem_redis ex_tree_db) ex_start = (Inr (), c')" "\<exists>d'. effects c' = [(ex_tree_db, d')]"
    using ex_reclaim by blast
  have h: "is_hash (r_db (mem_redis ex_tree_db) j) (K_Reclaims (me_key (op_env ex_engine)))" for j
    by (simp add: ex_io(3) ex_hash)
  show "\<exists>d' c'. ops_PrepareReclaim ex_engine 3 (mem_redis ex_tree_db) ex_start = (Inr (), c')
       \<and> effects c' = [(ex_tree_db, d')] \<and> reclaim_step (op_env ex_engine) 3 ex_tree_db d'"
    using prepare_reclaim_safe [OF _ _ h promise c'(1)] c' ex_store ex_sound by (fastforce simp: ex_io(3))
qed

text \<open>C21: the cycle check of a rename terminates with the right answer. On a consistent volume \<open>IsDescendantOf\<close>, which follows parent links with
  a set of visited inodes, always returns, and says whether the one directory is above the other.\<close>

theorem descendant_check_exact:
  fixes v :: 'v
  assumes "meta_store R E" and "consistent E d" and "kind (tree_at E d) c = Some True"
  shows "\<exists>t'. IsDescendantOf E a c (snap R d) (new_txn n v) = (Ret (Inr ((c, a) \<in> (upr (tree_at E d))\<^sup>*)), t')"
  using meta_store.descend_exact [OF assms(1), of d c "new_txn n v" "[]" a] assms(2,3)
  by (auto simp: IsDescendantOf_def consistent_def tree_at_def)

theorem descendant_check_exact_witness:
  "meta_store (mem_redis ex_tree_db) ex_env \<and> (\<exists>t'. IsDescendantOf ex_env 2 1 (snap (mem_redis ex_tree_db) ex_tree_db) (new_txn 0 ()) = (Ret (Inr False), t'))"
proof -
  have "\<not> (1, 2) \<in> (upr (tree_at ex_env ex_tree_db))\<^sup>*"
    by (auto elim!: converse_rtranclE simp: upr_def kRootInodeId_def)
  then show ?thesis
    using descendant_check_exact [OF ex_store ex_consistent(1), where c = 1 and a = 2 and n = 0 and v = "()"] ex_store by (auto simp: tree_at_def vol_of_def ex_at ex_kinds)
qed

end
