(* ===== verification/OrphanScan.thy ===== *)
theory OrphanScan
  imports ScanIteration RedisMetaOps "HOL-Library.Sublist"
begin

text \<open>
  No candidate is lost by the resumable scan of \<open>VisitOrphanCandidates\<close>. The scan is cut into calls by visitors that refuse a
  candidate, by commands that fail and by malformed fields; its page, offset and cursor stay in the object. An inode that stays
  in the orphan set is due until a visitor accepts it, provided the server keeps the promise of an \<open>HSCAN\<close> iteration:
  what is in the hash from start to end is returned.
\<close>

section \<open>Candidates that are due\<close>

definition orphans_key :: "meta_ops \<Rightarrow> bytes" where
  "orphans_key P = K_Orphans (me_key (op_env P))"

definition due :: "redis \<Rightarrow> nat \<Rightarrow> meta_ops \<Rightarrow> nat \<Rightarrow> u64 \<Rightarrow> bool" where
  "due R b P n i \<longleftrightarrow> i \<in> set (drop (orphan_scan_page_offset P) (orphan_scan_page P))
     \<or> (length (orphan_scan_page P) \<le> orphan_scan_page_offset P \<or> orphan_scan_cursor P \<noteq> 0)
       \<and> (\<forall>m\<ge>n. \<not> misses R (orphans_key P) 128 (number i) b (orphan_scan_cursor P) m)"

text \<open>A visitor that keeps the list of the candidates it has accepted.\<close>

definition recording :: "('s, 'x) visitor \<Rightarrow> ('x list \<times> 's, 'x) visitor" where
  "recording visitor x R c = (\<lambda>(log, s). case visitor x R c s of
      (Inl e, c', s') \<Rightarrow> (Inl e, c', (log, s'))
    | (Inr u, c', s') \<Rightarrow> (Inr u, c', (log @ [x], s')))"

definition waits :: "('s, 'x) visitor \<Rightarrow> redis \<Rightarrow> bool" where
  "waits visitor R \<longleftrightarrow> (\<forall>x c s r c' s'. visitor x R c s = (r, c', s') \<longrightarrow> sent c \<le> sent c')"

lemma recording_eq: "recording visitor x R c (log, s) = (case visitor x R c s of
    (Inl e, c', s') \<Rightarrow> (Inl e, c', (log, s')) | (Inr u, c', s') \<Rightarrow> (Inr u, c', (log @ [x], s')))"
  by (simp add: recording_def)

lemma visit_each_recording:
  assumes "visit_each (recording visitor) xs off R c (log, s) = (r, off', c', (log', s'))" "waits visitor R"
  shows "off \<le> off' \<and> off' \<le> off + length xs \<and> log' = log @ take (off' - off) xs \<and> sent c \<le> sent c' \<and> (r = Inr () \<longleftrightarrow> off' = off + length xs)"
  using assms
proof (induction xs arbitrary: off c log s)
  case (Cons x xs)
  obtain r1 c1 s1 where v: "visitor x R c s = (r1, c1, s1)"
    by (rule prod_cases3)
  then have le: "sent c \<le> sent c1"
    using Cons.prems(2) unfolding waits_def by blast
  show ?case
  proof (cases r1)
    case (Inl e)
    then show ?thesis
      using Cons.prems(1) le by (auto simp: v recording_eq)
  next
    case (Inr u)
    then have "visit_each (recording visitor) xs (Suc off) R c1 (log @ [x], s1) = (r, off', c', (log', s'))"
      using Cons.prems(1) by (simp add: v recording_eq)
    from Cons.IH [OF this Cons.prems(2)] show ?thesis
      using le by (auto simp: take_Cons')
  qed
qed auto

lemma ParseInodeField_number: "i \<noteq> 0 \<Longrightarrow> ParseInodeField (number i) = Inr i"
  using from_chars_to_string [of "unat i" "2 ^ 64 - 1" "[]"] unsigned_less [where 'b=64 and 'a=nat, of i]
  by (simp add: ParseInodeField_def number_def unat_eq_zero)

lemma parse_inode_fields_mem: "\<lbrakk> parse_inode_fields es = Inr page; f \<in> fst ` set es; ParseInodeField f = Inr i \<rbrakk> \<Longrightarrow> i \<in> set page"
proof (induction es arbitrary: page)
  case (Cons e es)
  obtain g v where e: "e = (g, v)"
    by fastforce
  then obtain j rest where "ParseInodeField g = Inr j" "parse_inode_fields es = Inr rest" "page = j # rest"
    using Cons.prems(1) by (auto simp: chk_Inr_iff)
  then show ?case
    using Cons.IH [of rest] Cons.prems(2,3) e by auto
qed simp

lemma due_later: "\<lbrakk> due R b P n i; n \<le> m \<rbrakk> \<Longrightarrow> due R b P m i"
  by (auto simp: due_def)

lemma HScan_cases:
  assumes "client_HScan k cursor batch R c = (r, c')"
  shows "sent c' = Suc (sent c) \<and> (\<forall>es next. r = Inr (es, next) \<longrightarrow> r_hscan R (sent c) (r_db R (sent c)) k cursor batch = Reply (es, next))"
  using assms by (auto simp: client_HScan_def RunReadOnlyCommand_def Let_def split: reply.splits)
    (cases "r_hscan R (sent c) (r_db R (sent c)) k cursor batch"; simp)+

lemma load_page_due:
  assumes run: "load_orphan_page P R c = (r, P', c')" "sent c' \<le> b" and d: "due R b P (sent c) i" and i: "i \<noteq> 0"
  shows "due R b P' (sent c') i \<and> sent c \<le> sent c' \<and> op_env P' = op_env P \<and> r \<noteq> Inr True
    \<and> (r = Inr False \<longrightarrow> orphan_scan_page_offset P' < length (orphan_scan_page P') \<or> orphan_scan_cursor P' \<noteq> 0)"
proof (cases "orphan_scan_page_offset P < length (orphan_scan_page P)")
  case True
  then show ?thesis
    using run(1) d by (auto simp: load_orphan_page_def)
next
  case False
  then have nm: "\<not> misses R (orphans_key P) 128 (number i) b (orphan_scan_cursor P) m" if "sent c \<le> m" for m
    using d that by (auto simp: due_def)
  obtain h c1 where h: "client_HScan (orphans_key P) (orphan_scan_cursor P) 128 R c = (h, c1)"
    by fastforce
  note hs = HScan_cases [OF h]
  have empty: "due R b (P\<lparr>orphan_scan_page := [], orphan_scan_page_offset := 0\<rparr>) (Suc (sent c)) i"
    using nm by (simp add: due_def orphans_key_def)
  show ?thesis
  proof (cases h)
    case (Inl e)
    then show ?thesis
      using run(1) False h hs empty by (auto simp: load_orphan_page_def Let_def orphans_key_def)
  next
    case (Inr p)
    obtain es nxt where p: "p = (es, nxt)"
      by fastforce
    then have sc: "r_hscan R (sent c) (r_db R (sent c)) (orphans_key P) (orphan_scan_cursor P) 128 = Reply (es, nxt)"
      using hs Inr by simp
    show ?thesis
    proof (cases "parse_inode_fields es")
      case (Inl e)
      then show ?thesis
        using run(1) False h hs empty Inr p by (auto simp: load_orphan_page_def Let_def orphans_key_def)
    next
      case (Inr page)
      have P': "P' = P\<lparr>orphan_scan_page := sort page, orphan_scan_page_offset := 0, orphan_scan_cursor := nxt\<rparr>" "c' = c1" "r = Inr (page = [] \<and> nxt = 0)"
        using run(1) False h \<open>h = Inr p\<close> p Inr by (auto simp: load_orphan_page_def Let_def orphans_key_def)
      have lt: "sent c < b"
        using P'(2) run(2) hs by simp
      have found: "i \<in> set page \<or> nxt \<noteq> 0 \<and> (\<forall>m\<ge>Suc (sent c). \<not> misses R (orphans_key P) 128 (number i) b nxt m)"
      proof (cases "number i \<in> fst ` set es")
        case True
        then show ?thesis
          using parse_inode_fields_mem [OF Inr _ ParseInodeField_number [OF i]] by blast
      next
        case False
        then have "nxt \<noteq> 0"
          using misses.last [of "sent c" b R "orphans_key P" "orphan_scan_cursor P" 128 es "number i"] lt sc nm [of "sent c"] by auto
        then show ?thesis
          using misses.more [OF lt sc _ False] nm [of "sent c"] by (auto simp: Suc_le_eq)
      qed
      show ?thesis
        unfolding P'
        using found hs by (auto simp: due_def orphans_key_def)
    qed
  qed
qed

lemma load_page_sent: "load_orphan_page P R c = (r, P', c') \<Longrightarrow> sent c \<le> sent c' \<and> op_env P' = op_env P"
  using HScan_cases [of "K_Orphans (me_key (op_env P))" "orphan_scan_cursor P" 128 R c]
  by (auto simp: load_orphan_page_def Let_def split: if_splits prod.splits sum.splits)

lemma visit_orphans_log:
  assumes "visit_orphans n (recording visitor) P R c (log, s) = (r, P', c', (log', s'))" "waits visitor R"
  shows "prefix log log' \<and> sent c \<le> sent c' \<and> op_env P' = op_env P"
  using assms(1)
proof (induction n arbitrary: P c log s)
  case (Suc n)
  obtain r1 P1 c1 where l: "load_orphan_page P R c = (r1, P1, c1)"
    by (rule prod_cases3)
  let ?off = "orphan_scan_page_offset P1" and ?xs = "drop (orphan_scan_page_offset P1) (orphan_scan_page P1)"
  obtain r2 off c2 log2 s2 where v: "visit_each (recording visitor) ?xs ?off R c1 (log, s) = (r2, off, c2, (log2, s2))"
    by (rule prod_cases5)
  have ve: "prefix log log2" "sent c1 \<le> sent c2"
    using visit_each_recording [OF v assms(2)] by simp_all
  show ?case
    using Suc.prems l load_page_sent [OF l] v ve Suc.IH [of "P1\<lparr>orphan_scan_page_offset := off\<rparr>" c2 log2 s2]
    by (auto split: sum.splits if_splits intro: prefix_order.trans)
qed auto

text \<open>One call: the candidate is accepted, or the call fails and the candidate stays due.\<close>

lemma visit_orphans_due:
  assumes "visit_orphans n (recording visitor) P R c (log, s) = (r, P', c', (log', s'))" "due R b P (sent c) i" "i \<noteq> 0" "waits visitor R" "sent c' \<le> b"
  shows "(\<exists>more. log' = log @ more \<and> i \<in> set more) \<or> r \<noteq> Inr () \<and> due R b P' (sent c') i"
  using assms(1,2)
proof (induction n arbitrary: P c log s)
  case 0
  then show ?case
    by auto
next
  case (Suc n)
  obtain r1 P1 c1 where l: "load_orphan_page P R c = (r1, P1, c1)"
    by (rule prod_cases3)
  let ?off = "orphan_scan_page_offset P1" and ?xs = "drop (orphan_scan_page_offset P1) (orphan_scan_page P1)"
  obtain r2 off c2 log2 s2 where v: "visit_each (recording visitor) ?xs ?off R c1 (log, s) = (r2, off, c2, (log2, s2))"
    by (rule prod_cases5)
  note ve = visit_each_recording [OF v assms(4)]
  have "sent c1 \<le> sent c'"
    using Suc.prems(1) l v ve visit_orphans_log [of n visitor "P1\<lparr>orphan_scan_page_offset := off\<rparr>" R c2 log2 s2 r P' c' log' s'] assms(4)
    by (auto split: sum.splits if_splits)
  then have "sent c1 \<le> b"
    using assms(5) by simp
  note ld = load_page_due [OF l this Suc.prems(2) assms(3)]
  show ?case
  proof (cases r1)
    case (Inl e)
    then show ?thesis
      using Suc.prems(1) l ld by auto
  next
    case (Inr fin)
    then have fin: "\<not> fin"
      using ld by simp
    have split: "set ?xs = set (take (off - ?off) ?xs) \<union> set (drop off (orphan_scan_page P1))"
      using ve append_take_drop_id [of "off - ?off" ?xs] by (metis drop_drop le_add_diff_inverse2 set_append)
    have cursor: "?off < length (orphan_scan_page P1) \<or> orphan_scan_cursor P1 \<noteq> 0"
      using ld Inr fin by simp
    have due1: "i \<in> set ?xs \<or> orphan_scan_cursor P1 \<noteq> 0 \<and> (\<forall>m\<ge>sent c2. \<not> misses R (orphans_key P1) 128 (number i) b (orphan_scan_cursor P1) m)"
      using ld cursor ve unfolding due_def by fastforce
    have key: "orphans_key (P1\<lparr>orphan_scan_page_offset := off\<rparr>) = orphans_key P1"
      by (simp add: orphans_key_def)
    show ?thesis
    proof (cases r2)
      case Inl2: (Inl e)
      then have out: "r = Inl e" "P' = P1\<lparr>orphan_scan_page_offset := off\<rparr>" "c' = c2" "log' = log2"
        using Suc.prems(1) l Inr fin v by auto
      have "i \<in> set (take (off - ?off) ?xs) \<or> due R b (P1\<lparr>orphan_scan_page_offset := off\<rparr>) (sent c2) i"
        using due1 split unfolding due_def key by auto
      then show ?thesis
        using ve unfolding out by blast
    next
      case Inr2: (Inr u)
      then have all: "log2 = log @ ?xs"
        using ve by auto
      show ?thesis
      proof (cases "orphan_scan_cursor P1 = 0")
        case True
        then have "log' = log2"
          using Suc.prems(1) l Inr fin v Inr2 by auto
        then show ?thesis
          using due1 True all by auto
      next
        case False
        have rest: "visit_orphans n (recording visitor) (P1\<lparr>orphan_scan_page_offset := off\<rparr>) R c2 (log2, s2) = (r, P', c', (log', s'))"
          using Suc.prems(1) l Inr fin v Inr2 False by simp
        show ?thesis
        proof (cases "i \<in> set ?xs")
          case True
          then show ?thesis
            using visit_orphans_log [OF rest assms(4)] all by (auto simp: prefix_def)
        next
          case False
          then have "due R b (P1\<lparr>orphan_scan_page_offset := off\<rparr>) (sent c2) i"
            using due1 unfolding due_def key by auto
          from Suc.IH [OF rest this] show ?thesis
            using all by auto
        qed
      qed
    qed
  qed
qed

section \<open>A pass cut into calls\<close>

text \<open>A worker calls again after a failure, at most \<open>n\<close> times, until a call completes the pass.\<close>

fun passes :: "nat \<Rightarrow> ('s, u64) visitor \<Rightarrow> meta_ops \<Rightarrow> redis \<Rightarrow> client \<Rightarrow> 's \<Rightarrow> unit res \<times> meta_ops \<times> client \<times> 's" where
  "passes 0 visitor P R c s = (Inl kUnavailable, P, c, s)"
| "passes (Suc n) visitor P R c s = (case ops_VisitOrphanCandidates visitor P R c s of
      (Inr u, P, c, s) \<Rightarrow> (Inr u, P, c, s)
    | (Inl e, P, c, s) \<Rightarrow> passes n visitor P R c s)"

lemma passes_log:
  assumes "passes n (recording visitor) P R c (log, s) = (r, P', c', (log', s'))" "waits visitor R"
  shows "prefix log log' \<and> sent c \<le> sent c'"
  using assms(1)
proof (induction n arbitrary: P c log s)
  case (Suc n)
  obtain r1 P1 c1 log1 s1 where v: "ops_VisitOrphanCandidates (recording visitor) P R c (log, s) = (r1, P1, c1, (log1, s1))"
    by (rule prod_cases5)
  note l = visit_orphans_log [OF v [unfolded ops_VisitOrphanCandidates_def] assms(2)]
  show ?case
    using Suc.prems Suc.IH [of P1 c1 log1 s1] v l by (auto split: sum.splits intro: prefix_order.trans)
qed simp

lemma passes_due:
  assumes "passes n (recording visitor) P R c (log, s) = (Inr (), P', c', (log', s'))" "due R b P (sent c) i" "i \<noteq> 0" "waits visitor R" "sent c' \<le> b"
  shows "i \<in> set log'"
  using assms(1,2)
proof (induction n arbitrary: P c log s)
  case (Suc n)
  obtain r1 P1 c1 log1 s1 where v: "ops_VisitOrphanCandidates (recording visitor) P R c (log, s) = (r1, P1, c1, (log1, s1))"
    by (rule prod_cases5)
  note v' = v [unfolded ops_VisitOrphanCandidates_def]
  have rest: "r1 = Inr () \<and> c' = c1 \<and> log' = log1 \<or> r1 \<noteq> Inr () \<and> passes n (recording visitor) P1 R c1 (log1, s1) = (Inr (), P', c', (log', s'))"
    using Suc.prems(1) v by (auto split: sum.splits)
  have mono: "prefix log1 log'" "sent c1 \<le> sent c'"
    using rest passes_log [OF _ assms(4), of n P1 c1 log1 s1] by auto
  have "(\<exists>more. log1 = log @ more \<and> i \<in> set more) \<or> r1 \<noteq> Inr () \<and> due R b P1 (sent c1) i"
    using visit_orphans_due [OF v' Suc.prems(2) assms(3,4)] mono(2) assms(5) by simp
  then show ?case
    using mono(1) rest Suc.IH [of P1 c1 log1 s1] by (auto simp: prefix_def)
qed simp

text \<open>C22: no orphan is lost. On a server that keeps the documented promise of a \<open>SCAN\<close> iteration, when a pass of
  \<open>VisitOrphanCandidates\<close> that starts afresh completes, after any number of calls that were cut short by a refusing visitor or by
  errors, the visitor has accepted every inode that was in the orphan set throughout.\<close>

theorem orphan_scan_loses_none:
  assumes "scan_promise R (K_Orphans (me_key (op_env P)))" and "waits visitor R"
    and "orphan_scan_cursor P = 0" and "orphan_scan_page P = []"
    and "passes n (recording visitor) P R c ([], s) = (Inr (), P', c', (accepted, s'))"
    and "i \<noteq> 0" and "\<And>j. \<lbrakk> sent c \<le> j; j < sent c' \<rbrakk> \<Longrightarrow> fmlookup (hash_at (r_db R j) (K_Orphans (me_key (op_env P)))) (number i) \<noteq> None"
  shows "i \<in> set accepted"
proof (rule passes_due [OF assms(5) _ assms(6,2) order_refl])
  have "\<not> misses R (K_Orphans (me_key (op_env P))) 128 (number i) (sent c') 0 m" if m: "sent c \<le> m" for m
  proof
    assume "misses R (K_Orphans (me_key (op_env P))) 128 (number i) (sent c') 0 m"
    then obtain j where "m \<le> j" "j < sent c'" "fmlookup (hash_at (r_db R j) (K_Orphans (me_key (op_env P)))) (number i) = None"
      using assms(1) unfolding scan_promise_def by blast
    then show False
      using assms(7) [of j] m by simp
  qed
  then show "due R (sent c') P (sent c) i"
    by (simp add: due_def orphans_key_def assms(3,4))
qed

text \<open>Inode 5 is an orphan; the visitor refuses its first candidate.\<close>

definition ex_orphan_db :: keyspace where
  "ex_orphan_db = [K_Orphans (me_key ex_meta) \<mapsto> (RHash (fmap_of_list [(number 5, [])]), None)]"

definition ex_visitor :: "(nat, u64) visitor" where
  "ex_visitor ino R c s = (if s = 0 then Inl kBusy else Inr (), c\<lparr>sent := Suc (sent c)\<rparr>, Suc s)"

lemma ex_scan: "r_hscan (mem_redis ex_orphan_db) n ex_orphan_db (K_Orphans (me_key ex_meta)) cursor batch = Reply ([(number 5, [])], 0)"
proof -
  have "sorted_list_of_fmap (fmap_of_list [(number 5, [] :: bytes)]) = [(number 5, [])]"
    by (simp add: sorted_list_of_fmap_def sorted_list_of_fset.rep_eq)
  then show ?thesis
    by (simp add: mem_redis_def ex_orphan_db_def hash_reply_def)
qed

lemma ex_passes: "passes 2 (recording ex_visitor) ex_ops (mem_redis ex_orphan_db) \<lparr>sent = 0, effects = []\<rparr> ([], 0)
    = (Inr (), ex_ops, \<lparr>sent = 3, effects = []\<rparr>, ([5], 2))"
proof -
  have env: "op_env ex_ops = ex_meta" "orphan_scan_cursor ex_ops = 0" "orphan_scan_page ex_ops = []" "orphan_scan_page_offset ex_ops = 0"
    by (simp_all add: ex_ops_def new_meta_ops_def)
  have scan: "client_HScan (K_Orphans (me_key ex_meta)) 0 128 (mem_redis ex_orphan_db) \<lparr>sent = 0, effects = []\<rparr> = (Inr ([(number 5, [])], 0), \<lparr>sent = Suc 0, effects = []\<rparr>)"
    using ex_scan by (simp add: client_HScan_def RunReadOnlyCommand_def mem_redis_def)
  have id: "ParseInodeField (number 5) = Inr 5"
    by (simp add: ParseInodeField_number)
  obtain m where fuel: "me_fuel ex_meta = Suc m"
    by (simp add: ex_meta_def local_env_def)
  show ?thesis
    by (simp add: numeral_2_eq_2 numeral_3_eq_3 ops_VisitOrphanCandidates_def fuel env load_orphan_page_def scan id ex_visitor_def recording_eq)
qed

theorem orphan_scan_loses_none_witness:
  "scan_promise (mem_redis ex_orphan_db) (K_Orphans (me_key (op_env ex_ops)))
   \<and> (\<exists>P' c' accepted s'. passes 2 (recording ex_visitor) ex_ops (mem_redis ex_orphan_db) \<lparr>sent = 0, effects = []\<rparr> ([], 0) = (Inr (), P', c', (accepted, s'))
       \<and> 5 \<in> set accepted)"
proof -
  have env: "op_env ex_ops = ex_meta" "orphan_scan_cursor ex_ops = 0" "orphan_scan_page ex_ops = []"
    by (simp_all add: ex_ops_def new_meta_ops_def)
  have there: "fmlookup (hash_at ex_orphan_db (K_Orphans (me_key ex_meta))) (number 5) = Some []"
    by (simp add: ex_orphan_db_def hash_at_def fmlookup_of_list)
  have promise: "scan_promise (mem_redis ex_orphan_db) (K_Orphans (me_key (op_env ex_ops)))"
    by (rule mem_promise)
  have "waits ex_visitor (mem_redis ex_orphan_db)"
    by (auto simp: waits_def ex_visitor_def)
  from orphan_scan_loses_none [OF promise this _ _ ex_passes, of 5] show ?thesis
    using there promise ex_passes by (auto simp: env)
qed

end
