(* ===== verification/Spec2Isabelle.thy ===== *)
theory Spec2Isabelle
  imports Records ChunkSizePlan MetaUtils SliceRecord LockAuthority MetaCalls OrphanScan
begin

text \<open>
  SwordFS: a verification development.

  SwordFS is a POSIX file system whose metadata lives in Redis and whose data lives in an object store. The
  metadata engine (\<open>metadata/\<close>, \<open>metadata/redis/\<close>) keeps inodes, directories, locks and chunk attachments as Redis
  keys and changes them by optimistic transactions; a chunk mechanism (\<open>chunk/\<close>) turns the bytes of a file into
  objects. The development follows these layers, one theory per component.

  \<^bold>\<open>Foundations.\<close> \<open>Prelude\<close> holds the result type (\<open>Status\<close> of \<open>utils/Status.hpp\<close> as the type \<open>err\<close>, a fallible
  call as \<open>err + 'a\<close>), machine integers and the shared collections of simplification rules; \<open>Ordered_Map\<close> the sorted
  association lists that stand for \<open>std::map\<close>; \<open>Common\<close> the flag words and attribute block of
  \<open>metadata/types/Common.hpp\<close> and \<open>Inode.cpp\<close>; \<open>Decimal\<close> the decimal conversions of the standard library.

  \<^bold>\<open>Persisted records.\<close> \<open>BufCodec\<close> (\<open>types/BufCodec.cpp\<close>) is the byte codec over \<open>folly\<close>, whose cursor and appender
  are a parameter with the contract of the locale \<open>folly_cursor\<close>. \<open>Inode_Base\<close>, \<open>Inode\<close> and \<open>PosixAcl\<close> are the inode
  record, its extended attributes and POSIX ACLs (\<open>Inode.cpp\<close>, \<open>metadata/PosixAcl.cpp\<close>); \<open>Records\<close> the directory entries, cleanup records and the volume
  record. Their lemmas show round trips, that a parser accepts exactly the encodings of well-formed records (for an inode up to the order
  of its xattrs), and that every mutation keeps an inode persistable and its ACLs consistent with its mode. The locale \<open>record_store\<close> is the
  contract all of these records meet.

  \<^bold>\<open>Files and chunks.\<close> \<open>Chunk_Geometry\<close> (\<open>types/Chunk.cpp\<close>) and \<open>ChunkSizePlan\<close> (\<open>metadata/ChunkSizePlan.cpp\<close>) compute at
  64 bit which chunk holds a byte and what a size change detaches and retains; \<open>SliceRecord\<close>
  (\<open>chunk/slice/SliceRecord.cpp\<close>) resolves a history of slice records to the newest data. \<open>MetaUtils\<close> (\<open>metadata/Utils.cpp\<close>, \<open>InodePolicy.hpp\<close>) has the inode
  policies and the \<open>setattr\<close> transition.

  \<^bold>\<open>Redis.\<close> \<open>RedisKvTxn\<close> and \<open>RedisMetaClient\<close> (\<open>metadata/redis/\<close>) are the optimistic transaction and its retry loop.
  The server, the network and the other clients are the parameter \<open>redis\<close>: the key space each command of a client finds, whether its reply
  arrives, and what the commands answer, with the laws of the locale \<open>redis_server\<close>. A client is the number of commands it has sent and the list of
  effects, before and after, of its writes. Two instances meet the laws: \<open>mem_redis\<close>, a server that stands still, and \<open>run_redis\<close> (\<open>HistoryServer\<close>), a server with an arbitrary
  history, which can go on with the client's own writes. A transaction is shown to be an atomic step on the shared key
  space, whatever replies are lost; identifiers are handed out in increasing order along every history of a counter. \<open>RedisKey\<close> is the key schema, injective under its decimal law.
  \<open>LockRanges\<close> and \<open>LockAuthority\<close> (\<open>RedisLockAuthority.cpp\<close>) are the distributed record and whole-file locks: mutual exclusion of live owners is an invariant of every
  interleaving.

  \<^bold>\<open>The metadata engine.\<close> \<open>RedisMetaTxn\<close> (\<open>RedisMetaTxn.cpp\<close>) has every metadata operation as a transaction program, \<open>RedisMetaOps\<close>
  (\<open>RedisMetaOps.cpp\<close>, \<open>RedisReclaimCoordinator.cpp\<close>) the operations on one inode, the queues and the chunk snapshots, \<open>RedisMetaImpl\<close> (\<open>RedisMetaImpl.cpp\<close>) the handlers of
  the file system calls, and \<open>RedisDirIterator\<close> (\<open>RedisDirIterator.cpp\<close>) the directory streams. \<open>ScanIteration\<close> states what Redis promises of an \<open>HSCAN\<close> iteration, and that
  the chunk map of a file is therefore read as a whole; \<open>OrphanScan\<close> shows that the resumable scan of the orphan set loses no candidate.

  \<^bold>\<open>The namespace.\<close> \<open>Namespace\<close> is the abstract file tree with its consistency (one tree, exact link counts, every directory below the root) and the
  operations on it. \<open>MetaView\<close> reads a volume, its inodes, entries and orphan markers, out of a key space; \<open>MetaNamespace\<close> and \<open>MetaAttrs\<close> show that each
  transaction program acts on it as an operation on the tree, or leaves the tree alone; \<open>MetaEngine\<close> lifts this to the handlers, with \<open>t_posix_rename\<close> as the
  specification of \<open>renameat2\<close>, its failing cases included. The locale \<open>meta_store\<close> collects what the engine relies on: the server, the codec and the key schema.
  \<open>MetaSystem\<close> is the volume with all its clients as one transition system (\<open>volume_run\<close>) and the proof that every call of the engine takes steps of this system;
  \<open>MetaCalls\<close> says what a single successful call did, at one moment, while the others went on. This theory holds the two properties of the whole.

  \<^bold>\<open>Fuel.\<close> The only loops without a structural bound are the page loops of a hash scan, bounded by \<open>me_fuel\<close>, a field of the environment that the theorems leave
  arbitrary: running out is \<open>Unavailable\<close>, an outcome the source does not have, so a theorem about a call that succeeds does not depend on it, and for the
  directory streams a bound above the number of pages is shown never to be reached. The loop over the gaps in \<open>ResolveRange\<close> has fuel that is shown to be enough. The retry loops are bounded in the source by a number of attempts; the walk to the root in \<open>IsDescendantOf\<close>
  is total because it stops at a visited inode.

  \<^bold>\<open>Simplifications.\<close> \<open>std::sort\<close> is a stable sort here; the clock is read once between two commands; a failed \<open>CHECK\<close> is the error \<open>Internal\<close>
  instead of the end of the process. Each is stated where it is made.

  \<^bold>\<open>Not modelled.\<close> Connections, threads, timers, logging and the messages of a \<open>Status\<close>; the coroutines of the slice and copy-on-write chunks, the object-store
  clients, the VFS with its buffers and handles, the FUSE adapter, the command line and the configuration.
\<close>

section \<open>The volume as a whole\<close>

text \<open>C1: the namespace is consistent in every reachable volume. From a formatted volume on, whatever clients do in whatever order
  (allocations, creations, every other handler, writes of other components to their own keys, calls that stop half-way between an allocation and
  the creation), every inode and entry can be read, the entries form one tree whose link counts are exact and in which every directory is below the root,
  unlinked files are in the orphan set, and numbers that were handed out but not used yet are unused.\<close>

theorem volume_always_consistent:
  assumes "meta_store R E" and "volume_run R E d U"
  shows "typed E d \<and> tree_ok (tree_at E d) \<and> recs_ok (vol_of E d) \<and> (\<forall>i\<in>U. i \<noteq> 0 \<and> inode_at E d i = None)"
  using meta_store.volume_invariant [OF assms] by (auto simp: consistent_def vol_ok_def tree_at_def counter_ok_def)

theorem volume_always_consistent_witness:
  "meta_store (mem_redis Map.empty) ex_env \<and> (\<exists>d. volume_run (mem_redis Map.empty) ex_env d {2} \<and> tree_ok (tree_at ex_env d) \<and> inode_at ex_env d 2 = None)"
proof -
  have "fresh ex_env Map.empty"
    by (simp add: fresh_def)
  then obtain d where d: "volume_run (mem_redis Map.empty) ex_env d {2}"
    using meta_store.new_volume [OF ex_store] by fastforce
  show ?thesis
    using volume_always_consistent [OF ex_store d] d ex_store by auto
qed

text \<open>C2: calls of the engine are steps of the volume. Every write that a call of the engine has on the shared state, whether the call succeeds,
  fails or loses its connection, is one of the steps that the reachable volumes are built from, and a number is used only by the call that
  allocated it, once. With the previous property, no call ever leaves the namespace inconsistent.\<close>

theorem engine_effects_are_steps:
  assumes "meta_store R (op_env P)" and "request_valid rq"
  shows "\<exists>ls. labelled R (op_env P) c (serve P ctx rq R c) ls \<and> own ls"
  using meta_store.serve_labelled [OF assms(1) refl assms(2)] .

theorem engine_effects_are_steps_witness:
  "\<exists>ls. labelled (mem_redis ex_tree_db) (op_env ex_engine) ex_start
     (serve ex_engine ex_ctx (RSymlink 1 (ascii ''s'') (ascii ''target'')) (mem_redis ex_tree_db) ex_start) ls \<and> own ls"
  using engine_effects_are_steps [of "mem_redis ex_tree_db" ex_engine "RSymlink 1 (ascii ''s'') (ascii ''target'')" ex_start ex_ctx] ex_store
  by (simp add: ex_io(3) string_ok_def)

end
